(* ===== verification/Prelude.thy ===== *)
theory Prelude
  imports Main "HOL-Library.Word" "HOL-Library.Multiset"
begin

text \<open>
  Shared vocabulary of the development.  The program is C for an LP64 platform, so the prelude
  fixes how its scalars, its struct layouts, its byte-addressed shared memory and its run-time
  failures are represented, and proves the generic facts that the component theories rely on:
  what a load returns after a store, what a sequence of fallible steps does, how C strings are
  copied and compared, and how decimal numerals are printed.
\<close>

named_theorems layout \<open>values of struct offsets and sizes\<close>
named_theorems mem_simps \<open>loads after stores\<close>

section \<open>Scalars and failures\<close>

text \<open>
  \<open>int\<close> and \<open>unsigned int\<close> are both 32 bit patterns; an operation of the model reads them with
  \<open>sint\<close> or \<open>unat\<close> as the type in the source says.
\<close>

type_synonym byte = "8 word"
type_synonym cint = "32 word"
type_synonym clong = "64 word"
type_synonym ptr = "64 word"
type_synonym mem = "nat \<Rightarrow> byte"

text \<open>
  What a C operation can do instead of returning: dereference a null pointer, touch memory
  outside the object it was given, call through a method slot that holds no function of this
  process, use an object as one of another class, divide by zero, or leave the process with \<open>exit\<close>.
\<close>

datatype fault = NullDeref | OutOfBounds | UnboundMethod | BadCast | DivByZero | ExitCall int

type_synonym 'a res = "fault + 'a"

definition bindR :: "'a res \<Rightarrow> ('a \<Rightarrow> 'b res) \<Rightarrow> 'b res" where
  "bindR r f = (case r of Inl e \<Rightarrow> Inl e | Inr x \<Rightarrow> f x)"

section \<open>Struct layout\<close>

text \<open>
  Field types that occur in the program's structs, with the sizes and alignments of the LP64
  ABI (\<open>pthread_mutex_t\<close> is 40 bytes, \<open>pthread_cond_t\<close> 48, \<open>pthread_t\<close> 8, all 8-aligned).
\<close>

datatype ctype =
    CInt | CUInt | CLong | CFloat | CPtr | CMutex | CThread
  | CChars nat | CInts nat | CConds nat | CCharRows nat nat

fun csize :: "ctype \<Rightarrow> nat" where
  "csize CInt = 4"
| "csize CUInt = 4"
| "csize CLong = 8"
| "csize CFloat = 4"
| "csize CPtr = 8"
| "csize CMutex = 40"
| "csize CThread = 8"
| "csize (CChars n) = n"
| "csize (CInts n) = 4 * n"
| "csize (CConds n) = 48 * n"
| "csize (CCharRows r c) = r * c"

fun calign :: "ctype \<Rightarrow> nat" where
  "calign CInt = 4"
| "calign CUInt = 4"
| "calign CLong = 8"
| "calign CFloat = 4"
| "calign CPtr = 8"
| "calign CMutex = 8"
| "calign CThread = 8"
| "calign (CChars n) = 1"
| "calign (CInts n) = 4"
| "calign (CConds n) = 8"
| "calign (CCharRows r c) = 1"

type_synonym struct = "(string \<times> ctype) list"

definition align_up :: "nat \<Rightarrow> nat \<Rightarrow> nat" where
  "align_up n a = ((n + a - 1) div a) * a"

fun field_offset :: "nat \<Rightarrow> struct \<Rightarrow> string \<Rightarrow> nat" where
  "field_offset pos [] f = pos"
| "field_offset pos ((g, t) # fs) f =
     (let p = align_up pos (calign t) in
      if g = f then p else field_offset (p + csize t) fs f)"

fun struct_end :: "nat \<Rightarrow> struct \<Rightarrow> nat" where
  "struct_end pos [] = pos"
| "struct_end pos ((g, t) # fs) = struct_end (align_up pos (calign t) + csize t) fs"

fun struct_align :: "struct \<Rightarrow> nat" where
  "struct_align [] = 1"
| "struct_align ((g, t) # fs) = max (calign t) (struct_align fs)"

definition offset_of :: "struct \<Rightarrow> string \<Rightarrow> nat" where
  "offset_of S f = field_offset 0 S f"

definition sizeof :: "struct \<Rightarrow> nat" where
  "sizeof S = align_up (struct_end 0 S) (struct_align S)"

section \<open>Byte-addressed memory\<close>

definition store_bytes :: "mem \<Rightarrow> nat \<Rightarrow> byte list \<Rightarrow> mem" where
  "store_bytes m a bs = (\<lambda>i. if a \<le> i \<and> i < a + length bs then bs ! (i - a) else m i)"

definition load_bytes :: "mem \<Rightarrow> nat \<Rightarrow> nat \<Rightarrow> byte list" where
  "load_bytes m a n = map m [a..<a + n]"

text \<open>Little-endian numerals.\<close>

fun to_le :: "nat \<Rightarrow> nat \<Rightarrow> byte list" where
  "to_le 0 x = []"
| "to_le (Suc n) x = of_nat (x mod 256) # to_le n (x div 256)"

fun of_le :: "byte list \<Rightarrow> nat" where
  "of_le [] = 0"
| "of_le (b # bs) = unat b + 256 * of_le bs"

definition store32 :: "mem \<Rightarrow> nat \<Rightarrow> cint \<Rightarrow> mem" where
  "store32 m a w = store_bytes m a (to_le 4 (unat w))"

definition load32 :: "mem \<Rightarrow> nat \<Rightarrow> cint" where
  "load32 m a = of_nat (of_le (load_bytes m a 4))"

definition store64 :: "mem \<Rightarrow> nat \<Rightarrow> clong \<Rightarrow> mem" where
  "store64 m a w = store_bytes m a (to_le 8 (unat w))"

definition load64 :: "mem \<Rightarrow> nat \<Rightarrow> clong" where
  "load64 m a = of_nat (of_le (load_bytes m a 8))"

text \<open>An array of \<open>int\<close>, element by element.\<close>

definition ints_to_bytes :: "cint list \<Rightarrow> byte list" where
  "ints_to_bytes ws = concat (map (\<lambda>w. to_le 4 (unat w)) ws)"

definition load_ints :: "mem \<Rightarrow> nat \<Rightarrow> nat \<Rightarrow> cint list" where
  "load_ints m a n = map (\<lambda>i. load32 m (a + 4 * i)) [0..<n]"

text \<open>Two memories that agree on a range of addresses.\<close>

definition agree_on :: "nat \<Rightarrow> nat \<Rightarrow> mem \<Rightarrow> mem \<Rightarrow> bool" where
  "agree_on a n m m' \<longleftrightarrow> (\<forall>i. a \<le> i \<and> i < a + n \<longrightarrow> m i = m' i)"

section \<open>C strings in char arrays\<close>

definition cstr :: "byte list \<Rightarrow> byte list" where
  "cstr bs = takeWhile (\<lambda>b. b \<noteq> 0) bs"

definition bytes_of :: "string \<Rightarrow> byte list" where
  "bytes_of s = map (\<lambda>c. of_nat (of_char c)) s"

text \<open>
  \<open>strcpy (dst, src)\<close> on arrays: reading past \<open>src\<close> or writing past \<open>dst\<close> is a fault.
\<close>

definition strcpy :: "byte list \<Rightarrow> byte list \<Rightarrow> byte list res" where
  "strcpy dst src =
     (if 0 \<notin> set src then Inl OutOfBounds
      else if length (cstr src) + 1 > length dst then Inl OutOfBounds
      else Inr (cstr src @ [0] @ drop (length (cstr src) + 1) dst))"

text \<open>The bytes \<open>strncpy (dst, src, n)\<close> writes: at most \<open>n\<close>, padded with zeros.\<close>

definition strncpy_bytes :: "byte list \<Rightarrow> nat \<Rightarrow> byte list" where
  "strncpy_bytes src n = take n (cstr src) @ replicate (n - length (cstr src)) 0"

section \<open>Decimal printing\<close>

text \<open>\<open>%d\<close> of a non-negative number.\<close>

fun dec_digits :: "nat \<Rightarrow> nat list" where
  "dec_digits n = (if n < 10 then [n] else dec_digits (n div 10) @ [n mod 10])"

declare dec_digits.simps [simp del]

definition show_dec :: "nat \<Rightarrow> string" where
  "show_dec n = map (\<lambda>d. char_of (48 + d)) (dec_digits n)"

section \<open>Facts about fallible steps\<close>

lemma bindR_Inl [simp]: "bindR (Inl e) f = Inl e"
  by (simp add: bindR_def)

lemma bindR_Inr [simp]: "bindR (Inr x) f = f x"
  by (simp add: bindR_def)

lemma bindR_eq_Inr: "bindR r f = Inr y \<longleftrightarrow> (\<exists>x. r = Inr x \<and> f x = Inr y)"
  by (cases r) simp_all

lemma bindR_assoc: "bindR (bindR r f) g = bindR r (\<lambda>x. bindR (f x) g)"
  by (cases r) simp_all

section \<open>Facts about 32 bit values\<close>

lemma sint_small: "unat (w :: cint) < 2 ^ 31 \<Longrightarrow> sint w = int (unat w)"
proof -
  assume "unat w < 2 ^ 31"
  then have "int (unat w) < int (2 ^ 31)" by (simp only: of_nat_less_iff)
  then have "uint w < 2 ^ 31" by simp
  then have "signed_take_bit 31 (uint w) = uint w"
    using uint_ge_0 [of w] by (intro signed_take_bit_int_eq_self) linarith+
  then show ?thesis by (simp add: sint_uint)
qed

lemma unat_plus_small: "unat (a :: cint) + unat b < 2 ^ 32 \<Longrightarrow> unat (a + b) = unat a + unat b"
  using unat_add_lem [of a b] by simp

lemma unat_of_nat_small: "n < 2 ^ 32 \<Longrightarrow> unat (of_nat n :: cint) = n"
  by (simp add: unat_of_nat)

lemma sint_of_nat: "n < 2 ^ 31 \<Longrightarrow> sint (of_nat n :: cint) = int n"
  using sint_small [of "of_nat n"] unat_of_nat_small [of n] by simp

lemma unat_neg_one_cint: "unat (- 1 :: cint) = 4294967295"
  by transfer (simp add: take_bit_minus_one_eq_mask mask_eq_exp_minus_1)

lemma not_neg_one: "unat (w :: cint) < 4294967295 \<Longrightarrow> w \<noteq> - 1"
  using unat_neg_one_cint by auto

section \<open>Facts about memory\<close>

lemma length_load_bytes [simp]: "length (load_bytes m a n) = n"
  by (simp add: load_bytes_def)

lemma upt_front: "[i..<i + Suc n] = i # [Suc i..<Suc i + n]"
  by (simp add: upt_conv_Cons del: upt_Suc)

lemma find_append_None: "find P xs = None \<Longrightarrow> find P (xs @ ys) = find P ys"
  by (induction xs) (auto split: if_splits)

lemma load_bytes_0 [simp]: "load_bytes m a 0 = []"
  by (simp add: load_bytes_def)

lemma store_bytes_Nil [simp]: "store_bytes m a [] = m"
  by (rule ext) (auto simp: store_bytes_def)

lemma store_bytes_outside: "i < a \<or> a + length bs \<le> i \<Longrightarrow> store_bytes m a bs i = m i"
  by (auto simp: store_bytes_def)

lemma load_store_bytes_same:
  "n = length bs \<Longrightarrow> load_bytes (store_bytes m a bs) a n = bs"
  by (auto simp: load_bytes_def store_bytes_def intro!: nth_equalityI)

lemma load_store_bytes_prefix:
  "n \<le> length bs \<Longrightarrow> load_bytes (store_bytes m a bs) a n = take n bs"
  by (auto simp: load_bytes_def store_bytes_def intro!: nth_equalityI)

lemma load_store_bytes_disjoint:
  "a + n \<le> b \<or> b + length bs \<le> a \<Longrightarrow>
     load_bytes (store_bytes m b bs) a n = load_bytes m a n"
  by (auto simp: load_bytes_def store_bytes_def)

lemma load_bytes_agree:
  "agree_on b k m m' \<Longrightarrow> b \<le> a \<Longrightarrow> a + n \<le> b + k \<Longrightarrow> load_bytes m a n = load_bytes m' a n"
  by (auto simp: load_bytes_def agree_on_def)

lemma agree_on_refl [simp]: "agree_on a n m m"
  by (simp add: agree_on_def)

lemma agree_on_sym: "agree_on a n m m' \<Longrightarrow> agree_on a n m' m"
  by (simp add: agree_on_def)

lemma agree_on_trans: "agree_on a n m m' \<Longrightarrow> agree_on a n m' m'' \<Longrightarrow> agree_on a n m m''"
  by (simp add: agree_on_def)

lemma agree_on_sub: "agree_on a n m m' \<Longrightarrow> a \<le> b \<Longrightarrow> b + k \<le> a + n \<Longrightarrow> agree_on b k m m'"
  by (simp add: agree_on_def)

lemma agree_on_store:
  "a + n \<le> b \<or> b + length bs \<le> a \<Longrightarrow> agree_on a n m (store_bytes m b bs)"
  by (auto simp: agree_on_def store_bytes_def)

lemma length_to_le [simp]: "length (to_le n x) = n"
  by (induction n arbitrary: x) simp_all

lemma unat_byte: "unat (of_nat (x mod 256) :: byte) = x mod 256"
  by (simp add: unat_of_nat)

lemma of_le_to_le: "of_le (to_le n x) = x mod 256 ^ n"
proof (induction n arbitrary: x)
  case 0
  show ?case by simp
next
  case (Suc n)
  have "of_le (to_le (Suc n) x) = x mod 256 + 256 * (x div 256 mod 256 ^ n)"
    by (simp add: Suc.IH unat_byte)
  also have "\<dots> = x mod (256 * 256 ^ n)"
    by (simp add: mod_mult2_eq)
  finally show ?case by simp
qed

lemma of_le_to_le_word:
  fixes w :: "'a :: len word"
  assumes "2 ^ LENGTH('a) = (256 :: nat) ^ n"
  shows "of_nat (of_le (to_le n (unat w))) = w"
proof -
  have "unat w < 256 ^ n"
    using unsigned_less [of w, where ?'a = nat] assms by simp
  then show ?thesis
    by (simp add: of_le_to_le)
qed

lemma of_le_to_le_32 [simp]: "of_nat (of_le (to_le 4 (unat w))) = (w :: cint)"
  by (rule of_le_to_le_word) simp

lemma of_le_to_le_64 [simp]: "of_nat (of_le (to_le 8 (unat w))) = (w :: clong)"
  by (rule of_le_to_le_word) simp

lemma load32_store32_same [mem_simps]: "load32 (store32 m a w) a = w"
  by (simp add: load32_def store32_def load_store_bytes_same)

lemma load64_store64_same [mem_simps]: "load64 (store64 m a w) a = w"
  by (simp add: load64_def store64_def load_store_bytes_same)

lemma load32_store_bytes [mem_simps]:
  "a + 4 \<le> b \<or> b + length bs \<le> a \<Longrightarrow> load32 (store_bytes m b bs) a = load32 m a"
  by (simp add: load32_def load_store_bytes_disjoint)

lemma load64_store_bytes [mem_simps]:
  "a + 8 \<le> b \<or> b + length bs \<le> a \<Longrightarrow> load64 (store_bytes m b bs) a = load64 m a"
  by (simp add: load64_def load_store_bytes_disjoint)

lemma load32_store32 [mem_simps]:
  "a + 4 \<le> b \<or> b + 4 \<le> a \<Longrightarrow> load32 (store32 m b w) a = load32 m a"
  by (simp add: store32_def load32_store_bytes)

lemma load32_store64 [mem_simps]:
  "a + 4 \<le> b \<or> b + 8 \<le> a \<Longrightarrow> load32 (store64 m b w) a = load32 m a"
  by (simp add: store64_def load32_store_bytes)

lemma load64_store32 [mem_simps]:
  "a + 8 \<le> b \<or> b + 4 \<le> a \<Longrightarrow> load64 (store32 m b w) a = load64 m a"
  by (simp add: store32_def load64_store_bytes)

lemma load64_store64 [mem_simps]:
  "a + 8 \<le> b \<or> b + 8 \<le> a \<Longrightarrow> load64 (store64 m b w) a = load64 m a"
  by (simp add: store64_def load64_store_bytes)

lemma load_bytes_store32 [mem_simps]:
  "a + n \<le> b \<or> b + 4 \<le> a \<Longrightarrow> load_bytes (store32 m b w) a n = load_bytes m a n"
  by (simp add: store32_def load_store_bytes_disjoint)

lemma load_bytes_store64 [mem_simps]:
  "a + n \<le> b \<or> b + 8 \<le> a \<Longrightarrow> load_bytes (store64 m b w) a n = load_bytes m a n"
  by (simp add: store64_def load_store_bytes_disjoint)

lemma store32_outside: "i < a \<or> a + 4 \<le> i \<Longrightarrow> store32 m a w i = m i"
  by (simp add: store32_def store_bytes_outside)

lemma store64_outside: "i < a \<or> a + 8 \<le> i \<Longrightarrow> store64 m a w i = m i"
  by (simp add: store64_def store_bytes_outside)

lemma load32_agree:
  "agree_on b k m m' \<Longrightarrow> b \<le> a \<Longrightarrow> a + 4 \<le> b + k \<Longrightarrow> load32 m a = load32 m' a"
  unfolding load32_def by (subst load_bytes_agree) auto

lemma load64_agree:
  "agree_on b k m m' \<Longrightarrow> b \<le> a \<Longrightarrow> a + 8 \<le> b + k \<Longrightarrow> load64 m a = load64 m' a"
  unfolding load64_def by (subst load_bytes_agree) auto

lemma load_ints_agree:
  assumes "agree_on b k m m'" "b \<le> a" "a + 4 * n \<le> b + k"
  shows "load_ints m a n = load_ints m' a n"
proof -
  have "load32 m (a + 4 * i) = load32 m' (a + 4 * i)" if "i < n" for i
    using assms that by (intro load32_agree [of b k]) auto
  then show ?thesis
    by (simp add: load_ints_def)
qed

lemma length_ints_to_bytes [simp]: "length (ints_to_bytes ws) = 4 * length ws"
  by (induction ws) (simp_all add: ints_to_bytes_def)

lemma length_load_ints [simp]: "length (load_ints m a n) = n"
  by (simp add: load_ints_def)

lemma load_ints_Suc: "load_ints m a (Suc n) = load32 m a # load_ints m (a + 4) n"
proof -
  have "load_ints m a (Suc n) = map (\<lambda>i. load32 m (a + 4 * i)) (0 # map Suc [0..<n])"
    by (simp only: load_ints_def upt_conv_Cons [OF zero_less_Suc] map_Suc_upt)
  then show ?thesis
    by (simp add: load_ints_def comp_def add.assoc)
qed

lemma load_bytes_append:
  "load_bytes m a (n + k) = load_bytes m a n @ load_bytes m (a + n) k"
proof -
  have "[a..<a + (n + k)] = [a..<a + n] @ [a + n..<(a + n) + k]"
    unfolding add.assoc [symmetric] by (rule upt_add_eq_append) simp
  then show ?thesis by (simp add: load_bytes_def)
qed

lemma load_ints_of_bytes:
  "load_bytes m a (4 * length ws) = ints_to_bytes ws \<Longrightarrow> load_ints m a (length ws) = ws"
proof (induction ws arbitrary: a)
  case Nil
  show ?case by (simp add: load_ints_def)
next
  case (Cons w ws)
  have "load_bytes m a 4 @ load_bytes m (a + 4) (4 * length ws)
      = to_le 4 (unat w) @ ints_to_bytes ws"
    using Cons.prems load_bytes_append [of m a 4 "4 * length ws"]
    by (simp add: ints_to_bytes_def)
  then have hd: "load_bytes m a 4 = to_le 4 (unat w)"
    and tl: "load_bytes m (a + 4) (4 * length ws) = ints_to_bytes ws"
    by (simp_all add: append_eq_append_conv)
  from hd have "load32 m a = w"
    by (simp add: load32_def)
  with Cons.IH [OF tl] show ?case
    by (simp add: load_ints_Suc)
qed

lemma load_ints_store_same:
  "n = length ws \<Longrightarrow> load_ints (store_bytes m a (ints_to_bytes ws)) a n = ws"
  by (simp add: load_ints_of_bytes load_store_bytes_same)

lemma load_ints_store_disjoint:
  "a + 4 * n \<le> b \<or> b + length bs \<le> a \<Longrightarrow>
     load_ints (store_bytes m b bs) a n = load_ints m a n"
  by (rule sym, rule load_ints_agree [of a "4 * n"]) (auto intro: agree_on_store)

lemma load_ints_store32 [mem_simps]:
  "a + 4 * n \<le> b \<or> b + 4 \<le> a \<Longrightarrow> load_ints (store32 m b w) a n = load_ints m a n"
  by (simp add: store32_def load_ints_store_disjoint)

lemma load_ints_store64 [mem_simps]:
  "a + 4 * n \<le> b \<or> b + 8 \<le> a \<Longrightarrow> load_ints (store64 m b w) a n = load_ints m a n"
  by (simp add: store64_def load_ints_store_disjoint)

section \<open>Facts about strings\<close>

lemma cstr_no_zero: "0 \<notin> set (cstr bs)"
  unfolding cstr_def by (metis (mono_tags) set_takeWhileD)

lemma cstr_idem [simp]: "cstr (cstr bs) = cstr bs"
  by (simp add: cstr_def takeWhile_idem)

lemma cstr_append_zero: "0 \<notin> set bs \<Longrightarrow> cstr (bs @ 0 # cs) = bs"
proof (induction bs)
  case (Cons b bs)
  then show ?case by (auto simp: cstr_def)
qed (simp add: cstr_def)

lemma cstr_split: "0 \<in> set bs \<Longrightarrow> \<exists>cs. bs = cstr bs @ 0 # cs"
proof -
  assume "0 \<in> set bs"
  then obtain ys zs where *: "bs = ys @ 0 # zs" "0 \<notin> set ys"
    by (meson split_list_first)
  then have "cstr bs = ys"
    by (simp add: cstr_append_zero)
  with * show ?thesis by auto
qed

lemma cstr_shorter: "0 \<in> set bs \<Longrightarrow> length (cstr bs) < length bs"
  using cstr_split [of bs] by (metis length_append length_Cons less_add_Suc1 add_Suc_right)

lemma strcpy_Inr:
  "strcpy dst src = Inr dst' \<longleftrightarrow>
     0 \<in> set src \<and> length (cstr src) < length dst \<and>
     dst' = cstr src @ [0] @ drop (length (cstr src) + 1) dst"
  by (auto simp: strcpy_def)

lemma strcpy_length: "strcpy dst src = Inr dst' \<Longrightarrow> length dst' = length dst"
  by (auto simp: strcpy_Inr)

lemma strcpy_cstr: "strcpy dst src = Inr dst' \<Longrightarrow> cstr dst' = cstr src"
  by (auto simp: strcpy_Inr cstr_append_zero cstr_no_zero)

lemma length_strncpy_bytes [simp]: "length (strncpy_bytes src n) = n"
  by (simp add: strncpy_bytes_def)

lemma cstr_take_no_zero: "0 \<notin> set (take n (cstr bs))"
  using cstr_no_zero [of bs] in_set_takeD by fastforce

lemma strncpy_bytes_fits:
  "length (cstr src) < n \<Longrightarrow> cstr (strncpy_bytes src n) = cstr src"
proof -
  assume fits: "length (cstr src) < n"
  then obtain k where "n - length (cstr src) = Suc k"
    by (metis Suc_diff_Suc)
  with fits show ?thesis
    by (simp add: strncpy_bytes_def cstr_append_zero cstr_no_zero)
qed

section \<open>Facts about decimal printing\<close>

lemma dec_digits_digit: "d \<in> set (dec_digits n) \<Longrightarrow> d < 10"
proof (induction n rule: dec_digits.induct)
  case (1 n)
  then show ?case
    by (cases "n < 10") (auto simp: dec_digits.simps [of n])
qed

lemma dec_digits_nonempty [simp]: "dec_digits n \<noteq> []"
  by (subst dec_digits.simps) simp

text \<open>Reading the digits back.\<close>

lemma dec_digits_value: "foldl (\<lambda>acc d. 10 * acc + d) 0 (dec_digits n) = n"
proof (induction n rule: dec_digits.induct)
  case (1 n)
  then show ?case
    by (cases "n < 10") (simp_all add: dec_digits.simps [of n])
qed

lemma dec_digits_inj: "dec_digits m = dec_digits n \<Longrightarrow> m = n"
  by (metis dec_digits_value)

lemma dec_digits_length: "n < 10 ^ Suc k \<Longrightarrow> length (dec_digits n) \<le> Suc k"
proof (induction k arbitrary: n)
  case 0
  then show ?case by (simp add: dec_digits.simps [of n])
next
  case (Suc k)
  show ?case
  proof (cases "n < 10")
    case True
    then show ?thesis by (simp add: dec_digits.simps [of n])
  next
    case False
    have "n div 10 < 10 ^ Suc k"
      using Suc.prems by (simp add: div_less_iff_less_mult)
    from Suc.IH [OF this] False show ?thesis
      by (simp add: dec_digits.simps [of n])
  qed
qed

lemma show_dec_digits: "map (\<lambda>c. of_char c - (48 :: nat)) (show_dec n) = dec_digits n"
proof -
  have "of_char (char_of (48 + d) :: char) - 48 = d" if "d \<in> set (dec_digits n)" for d :: nat
    using dec_digits_digit [OF that] by simp
  then show ?thesis
    by (simp add: show_dec_def map_idI)
qed

lemma show_dec_inj: "show_dec m = show_dec n \<Longrightarrow> m = n"
  by (metis show_dec_digits dec_digits_inj)

lemma show_dec_length: "n < 10 ^ Suc k \<Longrightarrow> length (show_dec n) \<le> Suc k"
  by (simp add: show_dec_def dec_digits_length del: power_Suc)

end
