(* ===== verification/Messages.thy ===== *)
theory Messages
  imports Prelude
begin

text \<open>
  The message classes (\<open>TaskSystem/include/TaskSystem/Messages\<close> and \<open>TaskSystem/src/Messages\<close>).
  Each class is a C struct that starts with the members of \<open>struct Message\<close>; here it is an
  extensible record over \<open>Message\<close>, together with the struct layout that fixes where its members
  lie in a buffer.  An operation is one definition: the constructor, \<open>clone\<close>, \<open>writeAt\<close>
  (serialisation into a queue), the setters and getters, and \<open>rebind\<close> (what the receiver does to a
  struct that lies in the shared buffer).

  Conventions.  A constructor takes the block that \<open>malloc\<close> returned (\<open>None\<close> for a null pointer),
  whose old contents stay in every member the code does not assign.  Payload arrays (\<open>values\<close>,
  \<open>bucket_ids\<close>, \<open>data\<close>) of an object on the heap are the list of their elements; reading more
  elements than the array has is a fault.  The member \<open>methods\<close> stands for the method slots
  (\<open>getTag\<close>, \<open>clone\<close>, \<open>destroy\<close>, \<open>writeAt\<close>, ...): the class whose functions they hold, or \<open>None\<close>
  when they hold no code address of this process.  A \<open>view\<close> is one process's mapping of a shared
  segment: its base address and its length.
\<close>

section \<open>Struct layouts\<close>

definition Message_struct :: struct where
  "Message_struct =
     [(''tag'', CInt), (''tid'', CInt), (''msg_size'', CInt),
      (''getTag'', CPtr), (''clone'', CPtr), (''destroy'', CPtr), (''writeAt'', CPtr)]"

definition BarMsg_struct :: struct where
  "BarMsg_struct = Message_struct @
     [(''value'', CInt), (''getValue'', CPtr), (''setValue'', CPtr)]"

definition TextMsg_struct :: struct where
  "TextMsg_struct = Message_struct @
     [(''msg'', CChars 100), (''getMsg'', CPtr), (''setMsg'', CPtr)]"

definition RefIntArrayMsg_struct :: struct where
  "RefIntArrayMsg_struct = Message_struct @
     [(''size'', CInt), (''values'', CPtr), (''setValues'', CPtr), (''getSize'', CPtr),
      (''getValue'', CPtr)]"

definition TopologyMsg_struct :: struct where
  "TopologyMsg_struct = Message_struct @
     [(''bucket_count'', CInt), (''root_id'', CInt), (''sample_size'', CInt),
      (''data_size'', CInt), (''bucket_ids'', CPtr), (''setBucketIds'', CPtr),
      (''getBucketId'', CPtr), (''setRootId'', CPtr), (''getRootId'', CPtr)]"

definition IntArrayMsg_struct :: struct where
  "IntArrayMsg_struct = Message_struct @
     [(''size'', CInt), (''values'', CPtr), (''setValues'', CPtr), (''getSize'', CPtr),
      (''getValue'', CPtr)]"

definition DoneMsg_struct :: struct where
  "DoneMsg_struct = Message_struct @ [(''success'', CInt)]"

definition RefTwoDimIntArrayMsg_struct :: struct where
  "RefTwoDimIntArrayMsg_struct = Message_struct @
     [(''size'', CInt), (''counts'', CPtr), (''values'', CPtr)]"

definition RequestMsg_struct :: struct where
  "RequestMsg_struct = Message_struct @
     [(''sender_task_id'', CInt), (''request_type'', CInt), (''data_size'', CInt),
      (''data'', CPtr), (''getData'', CPtr), (''setData'', CPtr)]"

definition ResponseMsg_struct :: struct where
  "ResponseMsg_struct = Message_struct @
     [(''code'', CInt), (''data_size'', CInt), (''data'', CPtr), (''getData'', CPtr),
      (''setData'', CPtr)]"

section \<open>Classes and objects\<close>

datatype msg_class =
    BarC | TextC | RefIntArrayC | TopologyC | IntArrayC | DoneC | RefTwoDimC
  | RequestC | ResponseC

fun class_id :: "msg_class \<Rightarrow> cint" where
  "class_id BarC = 1"
| "class_id TextC = 2"
| "class_id RefIntArrayC = 3"
| "class_id TopologyC = 4"
| "class_id IntArrayC = 5"
| "class_id DoneC = 6"
| "class_id RefTwoDimC = 7"
| "class_id RequestC = 8"
| "class_id ResponseC = 9"

record Message =
  tag :: cint
  tid :: cint
  msg_size :: cint
  methods :: "msg_class option"

record BarMsg = Message +
  bar_value :: cint

record TextMsg = Message +
  text_msg :: "byte list"

record RefIntArrayMsg = Message +
  ria_size :: cint
  ria_values :: ptr

record TopologyMsg = Message +
  bucket_count :: cint
  root_id :: cint
  sample_size :: cint
  topo_data_size :: cint
  bucket_ids :: "cint list"

record IntArrayMsg = Message +
  ia_size :: cint
  ia_values :: "cint list"

record DoneMsg = Message +
  success :: cint

record RefTwoDimIntArrayMsg = Message +
  rtd_size :: cint
  rtd_counts :: ptr
  rtd_values :: ptr

record RequestMsg = Message +
  sender_task_id :: cint
  request_type :: cint
  req_data_size :: cint
  req_data :: "byte list"

record ResponseMsg = Message +
  resp_code :: cint
  resp_data_size :: cint
  resp_data :: "byte list"

datatype message =
    MBar BarMsg | MText TextMsg | MRefIntArray RefIntArrayMsg | MTopology TopologyMsg
  | MIntArray IntArrayMsg | MDone DoneMsg | MRefTwoDim RefTwoDimIntArrayMsg
  | MRequest RequestMsg | MResponse ResponseMsg

record view =
  vbase :: nat
  vlen :: nat

section \<open>Helpers for the bodies\<close>

text \<open>The first three assignments of every \<open>writeAt\<close>.\<close>

definition write_header :: "'a Message_scheme \<Rightarrow> mem \<Rightarrow> nat \<Rightarrow> mem" where
  "write_header this m a =
     store32 (store32 (store32 m
       (a + offset_of Message_struct ''tag'') (tag this))
       (a + offset_of Message_struct ''tid'') (tid this))
       (a + offset_of Message_struct ''msg_size'') (msg_size this)"

text \<open>\<open>memcpy\<close> of \<open>n\<close> bytes out of a heap array.\<close>

definition copy_out :: "byte list \<Rightarrow> int \<Rightarrow> byte list res" where
  "copy_out src n =
     (if 0 \<le> n \<and> n \<le> int (length src) then Inr (take (nat n) src) else Inl OutOfBounds)"

text \<open>A loop \<open>for (i = 0; i < n; i++)\<close> that copies elements: no iteration when \<open>n\<close> is negative.\<close>

definition copy_elems :: "'a list \<Rightarrow> int \<Rightarrow> 'a list res" where
  "copy_elems xs n =
     (if n \<le> int (length xs) then Inr (take (nat n) xs) else Inl OutOfBounds)"

text \<open>An element read \<open>values[index]\<close>.\<close>

definition array_get :: "'a list \<Rightarrow> cint \<Rightarrow> 'a res" where
  "array_get xs i =
     (if 0 \<le> sint i \<and> sint i < int (length xs) then Inr (xs ! nat (sint i)) else Inl OutOfBounds)"

text \<open>Reading through a pointer into a mapped segment.\<close>

definition in_view :: "view \<Rightarrow> ptr \<Rightarrow> nat \<Rightarrow> bool" where
  "in_view v p n \<longleftrightarrow> vbase v \<le> unat p \<and> unat p + n \<le> vbase v + vlen v"

definition deref_ints :: "view \<Rightarrow> mem \<Rightarrow> ptr \<Rightarrow> int \<Rightarrow> cint list res" where
  "deref_ints v m p n =
     (if n \<le> 0 then Inr []
      else if in_view v p (4 * nat n) then Inr (load_ints m (unat p - vbase v) (nat n))
      else Inl OutOfBounds)"

definition deref_bytes :: "view \<Rightarrow> mem \<Rightarrow> ptr \<Rightarrow> int \<Rightarrow> byte list res" where
  "deref_bytes v m p n =
     (if n \<le> 0 then Inr []
      else if in_view v p (nat n) then Inr (load_bytes m (unat p - vbase v) (nat n))
      else Inl OutOfBounds)"

section \<open>BarMsg\<close>

definition BarMsg_create :: "BarMsg option \<Rightarrow> cint \<Rightarrow> BarMsg res" where
  "BarMsg_create blk t =
     (case blk of None \<Rightarrow> Inl (ExitCall 1)
      | Some newRec \<Rightarrow> Inr (newRec\<lparr>tag := t, tid := class_id BarC,
          msg_size := of_nat (sizeof BarMsg_struct), methods := Some BarC\<rparr>))"

definition BarMsg_clone :: "BarMsg option \<Rightarrow> BarMsg \<Rightarrow> BarMsg res" where
  "BarMsg_clone blk this =
     bindR (BarMsg_create blk 0) (\<lambda>tmp.
       Inr (tmp\<lparr>tag := tag this, tid := tid this, msg_size := msg_size this,
                bar_value := bar_value this\<rparr>))"

definition BarMsg_writeAt :: "BarMsg \<Rightarrow> mem \<Rightarrow> nat \<Rightarrow> (BarMsg \<times> mem \<times> cint) res" where
  "BarMsg_writeAt this m a =
     Inr (this,
          store32 (write_header this m a) (a + offset_of BarMsg_struct ''value'') (bar_value this),
          msg_size this)"

definition BarMsg_getValue :: "BarMsg \<Rightarrow> cint" where
  "BarMsg_getValue this = bar_value this"

definition BarMsg_setValue :: "BarMsg \<Rightarrow> cint \<Rightarrow> BarMsg" where
  "BarMsg_setValue this v = this\<lparr>bar_value := v\<rparr>"

definition BarMsg_rebind :: "view \<Rightarrow> mem \<Rightarrow> nat \<Rightarrow> mem \<times> msg_class option" where
  "BarMsg_rebind v m a = (m, Some BarC)"

text \<open>The struct at an address of a mapped buffer.\<close>

definition BarMsg_at :: "msg_class option \<Rightarrow> mem \<Rightarrow> nat \<Rightarrow> BarMsg" where
  "BarMsg_at ms m a =
     \<lparr>tag = load32 m (a + offset_of BarMsg_struct ''tag''),
      tid = load32 m (a + offset_of BarMsg_struct ''tid''),
      msg_size = load32 m (a + offset_of BarMsg_struct ''msg_size''), methods = ms,
      bar_value = load32 m (a + offset_of BarMsg_struct ''value'')\<rparr>"

section \<open>TextMsg\<close>

definition TextMsg_create :: "TextMsg option \<Rightarrow> cint \<Rightarrow> TextMsg res" where
  "TextMsg_create blk t =
     (case blk of None \<Rightarrow> Inl (ExitCall 1)
      | Some newRec \<Rightarrow> Inr (newRec\<lparr>tag := t, tid := class_id TextC,
          msg_size := of_nat (sizeof TextMsg_struct), methods := Some TextC\<rparr>))"

definition TextMsg_clone :: "TextMsg option \<Rightarrow> TextMsg \<Rightarrow> TextMsg res" where
  "TextMsg_clone blk this =
     bindR (TextMsg_create blk 0) (\<lambda>tmp.
     bindR (strcpy (text_msg tmp) (text_msg this)) (\<lambda>s.
       Inr (tmp\<lparr>tag := tag this, tid := tid this, msg_size := msg_size this, text_msg := s\<rparr>)))"

definition TextMsg_writeAt :: "TextMsg \<Rightarrow> mem \<Rightarrow> nat \<Rightarrow> (TextMsg \<times> mem \<times> cint) res" where
  "TextMsg_writeAt this m a =
     (let p = a + offset_of TextMsg_struct ''msg'';
          m1 = write_header this m a in
      bindR (strcpy (load_bytes m1 p 100) (text_msg this)) (\<lambda>s.
        Inr (this, store_bytes m1 p s, of_nat (sizeof TextMsg_struct))))"

definition TextMsg_getMsg :: "TextMsg \<Rightarrow> byte list" where
  "TextMsg_getMsg this = text_msg this"

definition TextMsg_setMsg :: "TextMsg \<Rightarrow> byte list \<Rightarrow> TextMsg res" where
  "TextMsg_setMsg this s = bindR (strcpy (text_msg this) s) (\<lambda>s'. Inr (this\<lparr>text_msg := s'\<rparr>))"

definition TextMsg_rebind :: "view \<Rightarrow> mem \<Rightarrow> nat \<Rightarrow> mem \<times> msg_class option" where
  "TextMsg_rebind v m a = (m, Some TextC)"

definition TextMsg_at :: "msg_class option \<Rightarrow> mem \<Rightarrow> nat \<Rightarrow> TextMsg" where
  "TextMsg_at ms m a =
     \<lparr>tag = load32 m (a + offset_of TextMsg_struct ''tag''),
      tid = load32 m (a + offset_of TextMsg_struct ''tid''),
      msg_size = load32 m (a + offset_of TextMsg_struct ''msg_size''), methods = ms,
      text_msg = load_bytes m (a + offset_of TextMsg_struct ''msg'') 100\<rparr>"

section \<open>RefIntArrayMsg\<close>

definition RefIntArrayMsg_create :: "RefIntArrayMsg option \<Rightarrow> cint \<Rightarrow> RefIntArrayMsg res" where
  "RefIntArrayMsg_create blk t =
     (case blk of None \<Rightarrow> Inl (ExitCall 1)
      | Some newRec \<Rightarrow> Inr (newRec\<lparr>tag := t, tid := class_id RefIntArrayC,
          msg_size := of_nat (sizeof RefIntArrayMsg_struct), methods := Some RefIntArrayC\<rparr>))"

definition RefIntArrayMsg_clone ::
  "RefIntArrayMsg option \<Rightarrow> RefIntArrayMsg \<Rightarrow> RefIntArrayMsg res" where
  "RefIntArrayMsg_clone blk this =
     bindR (RefIntArrayMsg_create blk (tag this)) (\<lambda>tmp.
       Inr (tmp\<lparr>tag := tag this, tid := tid this, msg_size := msg_size this,
                ria_size := ria_size this, ria_values := ria_values this\<rparr>))"

definition RefIntArrayMsg_writeAt ::
  "RefIntArrayMsg \<Rightarrow> mem \<Rightarrow> nat \<Rightarrow> (RefIntArrayMsg \<times> mem \<times> cint) res" where
  "RefIntArrayMsg_writeAt this m a =
     Inr (this,
          store64 (store32 (write_header this m a)
            (a + offset_of RefIntArrayMsg_struct ''size'') (ria_size this))
            (a + offset_of RefIntArrayMsg_struct ''values'') (ria_values this),
          msg_size this)"

definition RefIntArrayMsg_setValues :: "RefIntArrayMsg \<Rightarrow> cint \<Rightarrow> ptr \<Rightarrow> RefIntArrayMsg" where
  "RefIntArrayMsg_setValues this cnt p = this\<lparr>ria_size := cnt, ria_values := p\<rparr>"

definition RefIntArrayMsg_getSize :: "RefIntArrayMsg \<Rightarrow> cint" where
  "RefIntArrayMsg_getSize this = ria_size this"

definition RefIntArrayMsg_rebind :: "view \<Rightarrow> mem \<Rightarrow> nat \<Rightarrow> mem \<times> msg_class option" where
  "RefIntArrayMsg_rebind v m a = (m, Some RefIntArrayC)"

definition RefIntArrayMsg_at :: "msg_class option \<Rightarrow> mem \<Rightarrow> nat \<Rightarrow> RefIntArrayMsg" where
  "RefIntArrayMsg_at ms m a =
     \<lparr>tag = load32 m (a + offset_of RefIntArrayMsg_struct ''tag''),
      tid = load32 m (a + offset_of RefIntArrayMsg_struct ''tid''),
      msg_size = load32 m (a + offset_of RefIntArrayMsg_struct ''msg_size''), methods = ms,
      ria_size = load32 m (a + offset_of RefIntArrayMsg_struct ''size''),
      ria_values = load64 m (a + offset_of RefIntArrayMsg_struct ''values'')\<rparr>"

section \<open>TopologyMsg\<close>

definition TopologyMsg_create :: "TopologyMsg option \<Rightarrow> cint \<Rightarrow> TopologyMsg res" where
  "TopologyMsg_create blk t =
     (case blk of None \<Rightarrow> Inl (ExitCall 1)
      | Some newRec \<Rightarrow> Inr (newRec\<lparr>tag := t, tid := class_id TopologyC,
          msg_size := of_nat (sizeof TopologyMsg_struct), methods := Some TopologyC\<rparr>))"

definition TopologyMsg_clone :: "TopologyMsg option \<Rightarrow> TopologyMsg \<Rightarrow> TopologyMsg res" where
  "TopologyMsg_clone blk this =
     bindR (TopologyMsg_create blk (tag this)) (\<lambda>tmp.
     bindR (copy_elems (bucket_ids this) (sint (bucket_count this))) (\<lambda>ids.
       Inr (tmp\<lparr>tag := tag this, tid := tid this, msg_size := msg_size this,
                bucket_count := bucket_count this, root_id := root_id this,
                sample_size := sample_size this, topo_data_size := topo_data_size this,
                bucket_ids := ids\<rparr>)))"

definition TopologyMsg_writeAt ::
  "view \<Rightarrow> TopologyMsg \<Rightarrow> mem \<Rightarrow> nat \<Rightarrow> (TopologyMsg \<times> mem \<times> cint) res" where
  "TopologyMsg_writeAt v this m a =
     (let m1 = write_header this m a;
          m2 = store32 m1 (a + offset_of TopologyMsg_struct ''bucket_count'') (bucket_count this);
          m3 = store32 m2 (a + offset_of TopologyMsg_struct ''root_id'') (root_id this);
          m4 = store32 m3 (a + offset_of TopologyMsg_struct ''sample_size'') (sample_size this);
          m5 = store32 m4 (a + offset_of TopologyMsg_struct ''data_size'') (topo_data_size this)
      in bindR (copy_out (ints_to_bytes (bucket_ids this)) (4 * sint (bucket_count this))) (\<lambda>bs.
           let m6 = store_bytes m5 (a + sizeof TopologyMsg_struct) bs;
               m7 = store64 m6 (a + offset_of TopologyMsg_struct ''bucket_ids'')
                      (of_nat (vbase v + a + sizeof TopologyMsg_struct));
               this' = this\<lparr>msg_size := msg_size this + bucket_count this * 4\<rparr>
           in Inr (this', m7, msg_size this')))"

definition TopologyMsg_setBucketIds ::
  "TopologyMsg \<Rightarrow> cint \<Rightarrow> cint list \<Rightarrow> TopologyMsg res" where
  "TopologyMsg_setBucketIds this cnt ids =
     bindR (copy_elems ids (sint cnt)) (\<lambda>ids'.
       Inr (this\<lparr>bucket_count := cnt,
                 msg_size := of_nat (sizeof TopologyMsg_struct) + cnt * 4,
                 bucket_ids := ids'\<rparr>))"

definition TopologyMsg_getBucketId :: "TopologyMsg \<Rightarrow> cint \<Rightarrow> cint res" where
  "TopologyMsg_getBucketId this i = array_get (bucket_ids this) i"

definition TopologyMsg_setRootId :: "TopologyMsg \<Rightarrow> cint \<Rightarrow> TopologyMsg" where
  "TopologyMsg_setRootId this i = this\<lparr>root_id := i\<rparr>"

definition TopologyMsg_getRootId :: "TopologyMsg \<Rightarrow> cint" where
  "TopologyMsg_getRootId this = root_id this"

definition TopologyMsg_rebind :: "view \<Rightarrow> mem \<Rightarrow> nat \<Rightarrow> mem \<times> msg_class option" where
  "TopologyMsg_rebind v m a =
     (store64 m (a + offset_of TopologyMsg_struct ''bucket_ids'')
        (of_nat (vbase v + a + sizeof TopologyMsg_struct)), Some TopologyC)"

definition TopologyMsg_at ::
  "view \<Rightarrow> msg_class option \<Rightarrow> mem \<Rightarrow> nat \<Rightarrow> TopologyMsg res" where
  "TopologyMsg_at v ms m a =
     bindR (deref_ints v m (load64 m (a + offset_of TopologyMsg_struct ''bucket_ids''))
              (sint (load32 m (a + offset_of TopologyMsg_struct ''bucket_count'')))) (\<lambda>ids.
       Inr \<lparr>tag = load32 m (a + offset_of TopologyMsg_struct ''tag''),
            tid = load32 m (a + offset_of TopologyMsg_struct ''tid''),
            msg_size = load32 m (a + offset_of TopologyMsg_struct ''msg_size''), methods = ms,
            bucket_count = load32 m (a + offset_of TopologyMsg_struct ''bucket_count''),
            root_id = load32 m (a + offset_of TopologyMsg_struct ''root_id''),
            sample_size = load32 m (a + offset_of TopologyMsg_struct ''sample_size''),
            topo_data_size = load32 m (a + offset_of TopologyMsg_struct ''data_size''),
            bucket_ids = ids\<rparr>)"

section \<open>IntArrayMsg\<close>

definition IntArrayMsg_create :: "IntArrayMsg option \<Rightarrow> cint \<Rightarrow> IntArrayMsg res" where
  "IntArrayMsg_create blk t =
     (case blk of None \<Rightarrow> Inl (ExitCall 1)
      | Some newRec \<Rightarrow> Inr (newRec\<lparr>tag := t, tid := class_id IntArrayC,
          msg_size := of_nat (sizeof IntArrayMsg_struct), methods := Some IntArrayC\<rparr>))"

definition IntArrayMsg_clone :: "IntArrayMsg option \<Rightarrow> IntArrayMsg \<Rightarrow> IntArrayMsg res" where
  "IntArrayMsg_clone blk this =
     bindR (IntArrayMsg_create blk (tag this)) (\<lambda>tmp.
     bindR (copy_elems (ia_values this) (sint (ia_size this))) (\<lambda>vs.
       Inr (tmp\<lparr>tag := tag this, tid := tid this, msg_size := msg_size this,
                ia_size := ia_size this, ia_values := vs\<rparr>)))"

definition IntArrayMsg_writeAt ::
  "view \<Rightarrow> IntArrayMsg \<Rightarrow> mem \<Rightarrow> nat \<Rightarrow> (IntArrayMsg \<times> mem \<times> cint) res" where
  "IntArrayMsg_writeAt v this m a =
     (let m1 = write_header this m a;
          m2 = store32 m1 (a + offset_of IntArrayMsg_struct ''size'') (ia_size this)
      in bindR (copy_out (ints_to_bytes (ia_values this)) (4 * sint (ia_size this))) (\<lambda>bs.
           let m3 = store_bytes m2 (a + sizeof IntArrayMsg_struct) bs;
               m4 = store64 m3 (a + offset_of IntArrayMsg_struct ''values'')
                      (of_nat (vbase v + a + sizeof IntArrayMsg_struct))
           in Inr (this, m4, msg_size this)))"

definition IntArrayMsg_setValues ::
  "IntArrayMsg \<Rightarrow> cint \<Rightarrow> cint list \<Rightarrow> IntArrayMsg res" where
  "IntArrayMsg_setValues this cnt val =
     bindR (copy_elems val (sint cnt)) (\<lambda>vs.
       Inr (this\<lparr>ia_size := cnt,
                 msg_size := of_nat (sizeof IntArrayMsg_struct) + cnt * 4,
                 ia_values := vs\<rparr>))"

definition IntArrayMsg_getSize :: "IntArrayMsg \<Rightarrow> cint" where
  "IntArrayMsg_getSize this = ia_size this"

definition IntArrayMsg_getValue :: "IntArrayMsg \<Rightarrow> cint \<Rightarrow> cint res" where
  "IntArrayMsg_getValue this i = array_get (ia_values this) i"

definition IntArrayMsg_rebind :: "view \<Rightarrow> mem \<Rightarrow> nat \<Rightarrow> mem \<times> msg_class option" where
  "IntArrayMsg_rebind v m a =
     (store64 m (a + offset_of IntArrayMsg_struct ''values'')
        (of_nat (vbase v + a + sizeof IntArrayMsg_struct)), Some IntArrayC)"

definition IntArrayMsg_at ::
  "view \<Rightarrow> msg_class option \<Rightarrow> mem \<Rightarrow> nat \<Rightarrow> IntArrayMsg res" where
  "IntArrayMsg_at v ms m a =
     bindR (deref_ints v m (load64 m (a + offset_of IntArrayMsg_struct ''values''))
              (sint (load32 m (a + offset_of IntArrayMsg_struct ''size'')))) (\<lambda>vs.
       Inr \<lparr>tag = load32 m (a + offset_of IntArrayMsg_struct ''tag''),
            tid = load32 m (a + offset_of IntArrayMsg_struct ''tid''),
            msg_size = load32 m (a + offset_of IntArrayMsg_struct ''msg_size''), methods = ms,
            ia_size = load32 m (a + offset_of IntArrayMsg_struct ''size''),
            ia_values = vs\<rparr>)"

section \<open>DoneMsg\<close>

definition DoneMsg_create :: "DoneMsg option \<Rightarrow> cint \<Rightarrow> DoneMsg res" where
  "DoneMsg_create blk t =
     (case blk of None \<Rightarrow> Inl (ExitCall 1)
      | Some newRec \<Rightarrow> Inr (newRec\<lparr>tag := t, tid := class_id DoneC,
          msg_size := of_nat (sizeof DoneMsg_struct), methods := Some DoneC\<rparr>))"

definition DoneMsg_clone :: "DoneMsg option \<Rightarrow> DoneMsg \<Rightarrow> DoneMsg res" where
  "DoneMsg_clone blk this =
     bindR (DoneMsg_create blk (tag this)) (\<lambda>tmp.
       Inr (tmp\<lparr>tag := tag this, tid := tid this, msg_size := msg_size this,
                success := success this\<rparr>))"

definition DoneMsg_writeAt :: "DoneMsg \<Rightarrow> mem \<Rightarrow> nat \<Rightarrow> (DoneMsg \<times> mem \<times> cint) res" where
  "DoneMsg_writeAt this m a =
     Inr (this,
          store32 (write_header this m a) (a + offset_of DoneMsg_struct ''success'')
            (success this),
          msg_size this)"

definition DoneMsg_rebind :: "view \<Rightarrow> mem \<Rightarrow> nat \<Rightarrow> mem \<times> msg_class option" where
  "DoneMsg_rebind v m a = (m, Some DoneC)"

definition DoneMsg_at :: "msg_class option \<Rightarrow> mem \<Rightarrow> nat \<Rightarrow> DoneMsg" where
  "DoneMsg_at ms m a =
     \<lparr>tag = load32 m (a + offset_of DoneMsg_struct ''tag''),
      tid = load32 m (a + offset_of DoneMsg_struct ''tid''),
      msg_size = load32 m (a + offset_of DoneMsg_struct ''msg_size''), methods = ms,
      success = load32 m (a + offset_of DoneMsg_struct ''success'')\<rparr>"

section \<open>RefTwoDimIntArrayMsg\<close>

definition RefTwoDimIntArrayMsg_create ::
  "RefTwoDimIntArrayMsg option \<Rightarrow> cint \<Rightarrow> RefTwoDimIntArrayMsg res" where
  "RefTwoDimIntArrayMsg_create blk t =
     (case blk of None \<Rightarrow> Inl (ExitCall 1)
      | Some newRec \<Rightarrow> Inr (newRec\<lparr>tag := t, tid := class_id RefTwoDimC,
          msg_size := of_nat (sizeof RefTwoDimIntArrayMsg_struct), methods := Some RefTwoDimC\<rparr>))"

definition RefTwoDimIntArrayMsg_clone ::
  "RefTwoDimIntArrayMsg option \<Rightarrow> RefTwoDimIntArrayMsg \<Rightarrow> RefTwoDimIntArrayMsg res" where
  "RefTwoDimIntArrayMsg_clone blk this =
     bindR (RefTwoDimIntArrayMsg_create blk (tag this)) (\<lambda>tmp.
       Inr (tmp\<lparr>tag := tag this, tid := tid this, msg_size := msg_size this,
                rtd_size := rtd_size this, rtd_counts := rtd_counts this,
                rtd_values := rtd_values this\<rparr>))"

definition RefTwoDimIntArrayMsg_writeAt ::
  "RefTwoDimIntArrayMsg \<Rightarrow> mem \<Rightarrow> nat \<Rightarrow> (RefTwoDimIntArrayMsg \<times> mem \<times> cint) res" where
  "RefTwoDimIntArrayMsg_writeAt this m a =
     Inr (this,
          store64 (store64 (store32 (write_header this m a)
            (a + offset_of RefTwoDimIntArrayMsg_struct ''size'') (rtd_size this))
            (a + offset_of RefTwoDimIntArrayMsg_struct ''counts'') (rtd_counts this))
            (a + offset_of RefTwoDimIntArrayMsg_struct ''values'') (rtd_values this),
          msg_size this)"

definition RefTwoDimIntArrayMsg_rebind :: "view \<Rightarrow> mem \<Rightarrow> nat \<Rightarrow> mem \<times> msg_class option" where
  "RefTwoDimIntArrayMsg_rebind v m a = (m, Some RefTwoDimC)"

definition RefTwoDimIntArrayMsg_at ::
  "msg_class option \<Rightarrow> mem \<Rightarrow> nat \<Rightarrow> RefTwoDimIntArrayMsg" where
  "RefTwoDimIntArrayMsg_at ms m a =
     \<lparr>tag = load32 m (a + offset_of RefTwoDimIntArrayMsg_struct ''tag''),
      tid = load32 m (a + offset_of RefTwoDimIntArrayMsg_struct ''tid''),
      msg_size = load32 m (a + offset_of RefTwoDimIntArrayMsg_struct ''msg_size''), methods = ms,
      rtd_size = load32 m (a + offset_of RefTwoDimIntArrayMsg_struct ''size''),
      rtd_counts = load64 m (a + offset_of RefTwoDimIntArrayMsg_struct ''counts''),
      rtd_values = load64 m (a + offset_of RefTwoDimIntArrayMsg_struct ''values'')\<rparr>"

section \<open>RequestMsg\<close>

definition RequestMsg_create :: "RequestMsg option \<Rightarrow> cint \<Rightarrow> RequestMsg res" where
  "RequestMsg_create blk t =
     (case blk of None \<Rightarrow> Inl (ExitCall 1)
      | Some newRec \<Rightarrow> Inr (newRec\<lparr>tag := t, tid := class_id RequestC,
          msg_size := of_nat (sizeof RequestMsg_struct), methods := Some RequestC,
          req_data_size := 0, req_data := [], sender_task_id := - 1, request_type := - 1\<rparr>))"

definition RequestMsg_clone :: "RequestMsg option \<Rightarrow> RequestMsg \<Rightarrow> RequestMsg res" where
  "RequestMsg_clone blk this =
     bindR (RequestMsg_create blk 0) (\<lambda>tmp.
     bindR (copy_elems (req_data this) (sint (req_data_size this))) (\<lambda>d.
       Inr (tmp\<lparr>tag := tag this, tid := tid this, msg_size := msg_size this,
                sender_task_id := sender_task_id this, request_type := request_type this,
                req_data_size := req_data_size this, req_data := d\<rparr>)))"

definition RequestMsg_writeAt ::
  "view \<Rightarrow> RequestMsg \<Rightarrow> mem \<Rightarrow> nat \<Rightarrow> (RequestMsg \<times> mem \<times> cint) res" where
  "RequestMsg_writeAt v this m a =
     (let m1 = write_header this m a;
          m2 = store32 m1 (a + offset_of RequestMsg_struct ''sender_task_id'')
                 (sender_task_id this);
          m3 = store32 m2 (a + offset_of RequestMsg_struct ''request_type'') (request_type this);
          m4 = store32 m3 (a + offset_of RequestMsg_struct ''data_size'') (req_data_size this)
      in bindR (copy_out (req_data this) (sint (req_data_size this))) (\<lambda>bs.
           let m5 = store_bytes m4 (a + sizeof RequestMsg_struct) bs;
               m6 = store64 m5 (a + offset_of RequestMsg_struct ''data'')
                      (of_nat (vbase v + a + sizeof RequestMsg_struct))
           in Inr (this, m6, msg_size this)))"

definition RequestMsg_getData :: "RequestMsg \<Rightarrow> byte list" where
  "RequestMsg_getData this = req_data this"

definition RequestMsg_setData :: "RequestMsg \<Rightarrow> byte list \<Rightarrow> cint \<Rightarrow> RequestMsg res" where
  "RequestMsg_setData this d n =
     bindR (copy_elems d (sint n)) (\<lambda>d'.
       Inr (this\<lparr>req_data := d', req_data_size := n, msg_size := msg_size this + n\<rparr>))"

definition RequestMsg_rebind :: "view \<Rightarrow> mem \<Rightarrow> nat \<Rightarrow> mem \<times> msg_class option" where
  "RequestMsg_rebind v m a =
     (store64 m (a + offset_of RequestMsg_struct ''data'')
        (of_nat (vbase v + a + sizeof RequestMsg_struct)), Some RequestC)"

definition RequestMsg_at ::
  "view \<Rightarrow> msg_class option \<Rightarrow> mem \<Rightarrow> nat \<Rightarrow> RequestMsg res" where
  "RequestMsg_at v ms m a =
     bindR (deref_bytes v m (load64 m (a + offset_of RequestMsg_struct ''data''))
              (sint (load32 m (a + offset_of RequestMsg_struct ''data_size'')))) (\<lambda>d.
       Inr \<lparr>tag = load32 m (a + offset_of RequestMsg_struct ''tag''),
            tid = load32 m (a + offset_of RequestMsg_struct ''tid''),
            msg_size = load32 m (a + offset_of RequestMsg_struct ''msg_size''), methods = ms,
            sender_task_id = load32 m (a + offset_of RequestMsg_struct ''sender_task_id''),
            request_type = load32 m (a + offset_of RequestMsg_struct ''request_type''),
            req_data_size = load32 m (a + offset_of RequestMsg_struct ''data_size''),
            req_data = d\<rparr>)"

section \<open>ResponseMsg\<close>

definition ResponseMsg_create :: "ResponseMsg option \<Rightarrow> cint \<Rightarrow> ResponseMsg res" where
  "ResponseMsg_create blk t =
     (case blk of None \<Rightarrow> Inl (ExitCall 1)
      | Some newRec \<Rightarrow> Inr (newRec\<lparr>tag := t, tid := class_id ResponseC,
          msg_size := of_nat (sizeof ResponseMsg_struct), methods := Some ResponseC,
          resp_data_size := 0, resp_data := [], resp_code := - 1\<rparr>))"

definition ResponseMsg_clone :: "ResponseMsg option \<Rightarrow> ResponseMsg \<Rightarrow> ResponseMsg res" where
  "ResponseMsg_clone blk this =
     bindR (ResponseMsg_create blk 0) (\<lambda>tmp.
     bindR (copy_elems (resp_data this) (sint (resp_data_size this))) (\<lambda>d.
       Inr (tmp\<lparr>tag := tag this, tid := tid this, msg_size := msg_size this,
                resp_code := resp_code this, resp_data_size := resp_data_size this,
                resp_data := d\<rparr>)))"

definition ResponseMsg_writeAt ::
  "view \<Rightarrow> ResponseMsg \<Rightarrow> mem \<Rightarrow> nat \<Rightarrow> (ResponseMsg \<times> mem \<times> cint) res" where
  "ResponseMsg_writeAt v this m a =
     (let m1 = write_header this m a;
          m2 = store32 m1 (a + offset_of ResponseMsg_struct ''code'') (resp_code this);
          m3 = store32 m2 (a + offset_of ResponseMsg_struct ''data_size'') (resp_data_size this)
      in bindR (copy_out (resp_data this) (sint (resp_data_size this))) (\<lambda>bs.
           let m4 = store_bytes m3 (a + sizeof ResponseMsg_struct) bs;
               m5 = store64 m4 (a + offset_of ResponseMsg_struct ''data'')
                      (of_nat (vbase v + a + sizeof ResponseMsg_struct))
           in Inr (this, m5, msg_size this)))"

definition ResponseMsg_getData :: "ResponseMsg \<Rightarrow> byte list" where
  "ResponseMsg_getData this = resp_data this"

definition ResponseMsg_setData :: "ResponseMsg \<Rightarrow> byte list \<Rightarrow> cint \<Rightarrow> ResponseMsg res" where
  "ResponseMsg_setData this d n =
     bindR (copy_elems d (sint n)) (\<lambda>d'.
       Inr (this\<lparr>resp_data := d', resp_data_size := n, msg_size := msg_size this + n\<rparr>))"

definition ResponseMsg_rebind :: "view \<Rightarrow> mem \<Rightarrow> nat \<Rightarrow> mem \<times> msg_class option" where
  "ResponseMsg_rebind v m a =
     (store64 m (a + offset_of ResponseMsg_struct ''data'')
        (of_nat (vbase v + a + sizeof ResponseMsg_struct)), Some ResponseC)"

definition ResponseMsg_at ::
  "view \<Rightarrow> msg_class option \<Rightarrow> mem \<Rightarrow> nat \<Rightarrow> ResponseMsg res" where
  "ResponseMsg_at v ms m a =
     bindR (deref_bytes v m (load64 m (a + offset_of ResponseMsg_struct ''data''))
              (sint (load32 m (a + offset_of ResponseMsg_struct ''data_size'')))) (\<lambda>d.
       Inr \<lparr>tag = load32 m (a + offset_of ResponseMsg_struct ''tag''),
            tid = load32 m (a + offset_of ResponseMsg_struct ''tid''),
            msg_size = load32 m (a + offset_of ResponseMsg_struct ''msg_size''), methods = ms,
            resp_code = load32 m (a + offset_of ResponseMsg_struct ''code''),
            resp_data_size = load32 m (a + offset_of ResponseMsg_struct ''data_size''),
            resp_data = d\<rparr>)"

section \<open>The dispatch table\<close>

text \<open>
  \<open>build_mapping\<close> (\<open>SystemGenerated.c\<close>) fills the array \<open>rebinder\<close> of \<open>MAX_MESSAGE_TYPE\<close> slots: null
  everywhere, then one rebind function per class at the index of its \<open>tid\<close>.
\<close>

definition MAX_MESSAGE_TYPE :: nat where
  "MAX_MESSAGE_TYPE = 20"

definition build_mapping :: "msg_class option list" where
  "build_mapping =
     (replicate MAX_MESSAGE_TYPE None)
       [1 := Some BarC, 2 := Some TextC, 3 := Some RefIntArrayC, 4 := Some TopologyC,
        5 := Some IntArrayC, 6 := Some DoneC, 7 := Some RefTwoDimC, 8 := Some RequestC,
        9 := Some ResponseC]"

fun rebind :: "msg_class \<Rightarrow> view \<Rightarrow> mem \<Rightarrow> nat \<Rightarrow> mem \<times> msg_class option" where
  "rebind BarC = BarMsg_rebind"
| "rebind TextC = TextMsg_rebind"
| "rebind RefIntArrayC = RefIntArrayMsg_rebind"
| "rebind TopologyC = TopologyMsg_rebind"
| "rebind IntArrayC = IntArrayMsg_rebind"
| "rebind DoneC = DoneMsg_rebind"
| "rebind RefTwoDimC = RefTwoDimIntArrayMsg_rebind"
| "rebind RequestC = RequestMsg_rebind"
| "rebind ResponseC = ResponseMsg_rebind"

section \<open>Virtual calls\<close>

fun class_of :: "message \<Rightarrow> msg_class" where
  "class_of (MBar _) = BarC"
| "class_of (MText _) = TextC"
| "class_of (MRefIntArray _) = RefIntArrayC"
| "class_of (MTopology _) = TopologyC"
| "class_of (MIntArray _) = IntArrayC"
| "class_of (MDone _) = DoneC"
| "class_of (MRefTwoDim _) = RefTwoDimC"
| "class_of (MRequest _) = RequestC"
| "class_of (MResponse _) = ResponseC"

text \<open>The cast \<open>(Message) msg\<close>: the members every class shares.\<close>

fun header_of :: "message \<Rightarrow> Message" where
  "header_of (MBar x) = Message.truncate x"
| "header_of (MText x) = Message.truncate x"
| "header_of (MRefIntArray x) = Message.truncate x"
| "header_of (MTopology x) = Message.truncate x"
| "header_of (MIntArray x) = Message.truncate x"
| "header_of (MDone x) = Message.truncate x"
| "header_of (MRefTwoDim x) = Message.truncate x"
| "header_of (MRequest x) = Message.truncate x"
| "header_of (MResponse x) = Message.truncate x"

text \<open>\<open>msg->getTag (msg)\<close>: every class has the same body.\<close>

definition getTag :: "message \<Rightarrow> cint res" where
  "getTag msg = (if methods (header_of msg) = Some (class_of msg)
                 then Inr (tag (header_of msg)) else Inl UnboundMethod)"

definition as_msg :: "('x \<Rightarrow> message) \<Rightarrow> ('x \<times> mem \<times> cint) res \<Rightarrow> (message \<times> mem \<times> cint) res" where
  "as_msg C r = bindR r (\<lambda>(x, m, n). Inr (C x, m, n))"

fun writeAt_body :: "view \<Rightarrow> message \<Rightarrow> mem \<Rightarrow> nat \<Rightarrow> (message \<times> mem \<times> cint) res" where
  "writeAt_body v (MBar x) m a = as_msg MBar (BarMsg_writeAt x m a)"
| "writeAt_body v (MText x) m a = as_msg MText (TextMsg_writeAt x m a)"
| "writeAt_body v (MRefIntArray x) m a = as_msg MRefIntArray (RefIntArrayMsg_writeAt x m a)"
| "writeAt_body v (MTopology x) m a = as_msg MTopology (TopologyMsg_writeAt v x m a)"
| "writeAt_body v (MIntArray x) m a = as_msg MIntArray (IntArrayMsg_writeAt v x m a)"
| "writeAt_body v (MDone x) m a = as_msg MDone (DoneMsg_writeAt x m a)"
| "writeAt_body v (MRefTwoDim x) m a = as_msg MRefTwoDim (RefTwoDimIntArrayMsg_writeAt x m a)"
| "writeAt_body v (MRequest x) m a = as_msg MRequest (RequestMsg_writeAt v x m a)"
| "writeAt_body v (MResponse x) m a = as_msg MResponse (ResponseMsg_writeAt v x m a)"

text \<open>\<open>item->writeAt (item, addr)\<close>, with \<open>addr\<close> the offset in the mapped segment.\<close>

definition writeAt :: "view \<Rightarrow> message \<Rightarrow> mem \<Rightarrow> nat \<Rightarrow> (message \<times> mem \<times> cint) res" where
  "writeAt v msg m a =
     (if methods (header_of msg) = Some (class_of msg) then writeAt_body v msg m a
      else Inl UnboundMethod)"

text \<open>What \<open>malloc\<close> hands to the constructor of each class.\<close>

record blocks =
  blk_bar :: "BarMsg option"
  blk_text :: "TextMsg option"
  blk_refint :: "RefIntArrayMsg option"
  blk_topo :: "TopologyMsg option"
  blk_int :: "IntArrayMsg option"
  blk_done :: "DoneMsg option"
  blk_reftwo :: "RefTwoDimIntArrayMsg option"
  blk_req :: "RequestMsg option"
  blk_resp :: "ResponseMsg option"

text \<open>
  \<open>msg->clone (msg)\<close> for a struct at offset \<open>a\<close> of a mapped segment whose method slots hold \<open>ms\<close>.
\<close>

definition clone_at ::
  "blocks \<Rightarrow> view \<Rightarrow> msg_class option \<Rightarrow> mem \<Rightarrow> nat \<Rightarrow> message res" where
  "clone_at b v ms m a =
     (case ms of
        None \<Rightarrow> Inl UnboundMethod
      | Some BarC \<Rightarrow> map_sum id MBar (BarMsg_clone (blk_bar b) (BarMsg_at ms m a))
      | Some TextC \<Rightarrow> map_sum id MText (TextMsg_clone (blk_text b) (TextMsg_at ms m a))
      | Some RefIntArrayC \<Rightarrow>
          map_sum id MRefIntArray (RefIntArrayMsg_clone (blk_refint b) (RefIntArrayMsg_at ms m a))
      | Some TopologyC \<Rightarrow>
          map_sum id MTopology (bindR (TopologyMsg_at v ms m a) (TopologyMsg_clone (blk_topo b)))
      | Some IntArrayC \<Rightarrow>
          map_sum id MIntArray (bindR (IntArrayMsg_at v ms m a) (IntArrayMsg_clone (blk_int b)))
      | Some DoneC \<Rightarrow> map_sum id MDone (DoneMsg_clone (blk_done b) (DoneMsg_at ms m a))
      | Some RefTwoDimC \<Rightarrow>
          map_sum id MRefTwoDim
            (RefTwoDimIntArrayMsg_clone (blk_reftwo b) (RefTwoDimIntArrayMsg_at ms m a))
      | Some RequestC \<Rightarrow>
          map_sum id MRequest (bindR (RequestMsg_at v ms m a) (RequestMsg_clone (blk_req b)))
      | Some ResponseC \<Rightarrow>
          map_sum id MResponse (bindR (ResponseMsg_at v ms m a) (ResponseMsg_clone (blk_resp b))))"

end
