(* ===== verification/MessageCodec.thy ===== *)
theory MessageCodec
  imports Messages
begin

text \<open>
  The contract of the message classes: a message written into a buffer by \<open>writeAt\<close>, possibly by
  another process that maps the buffer elsewhere, and then re-bound and cloned by the receiver,
  is the message that was sent; and \<open>writeAt\<close> touches no byte outside the \<open>msg_size\<close> bytes it was
  given.  The queue relies on these facts through the locale \<open>item_codec\<close> of \<open>RingBuffer\<close>.
\<close>

section \<open>Well-formed messages\<close>

definition wf_header :: "msg_class \<Rightarrow> nat \<Rightarrow> 'a Message_scheme \<Rightarrow> bool" where
  "wf_header c n x \<longleftrightarrow>
     methods x = Some c \<and> tid x = class_id c \<and>
     n \<le> unat (msg_size x) \<and> unat (msg_size x) < 2 ^ 31"

definition wf_array :: "'a list \<Rightarrow> cint \<Rightarrow> bool" where
  "wf_array xs n \<longleftrightarrow> 0 \<le> sint n \<and> length xs = nat (sint n)"

fun wf_msg :: "message \<Rightarrow> bool" where
  "wf_msg (MBar x) = wf_header BarC (sizeof BarMsg_struct) x"
| "wf_msg (MText x) =
     (wf_header TextC (sizeof TextMsg_struct) x \<and>
      length (text_msg x) = 100 \<and> 0 \<in> set (text_msg x))"
| "wf_msg (MRefIntArray x) = wf_header RefIntArrayC (sizeof RefIntArrayMsg_struct) x"
| "wf_msg (MTopology x) =
     (wf_array (bucket_ids x) (bucket_count x) \<and>
      wf_header TopologyC (sizeof TopologyMsg_struct + 4 * length (bucket_ids x)) x)"
| "wf_msg (MIntArray x) =
     (wf_array (ia_values x) (ia_size x) \<and>
      wf_header IntArrayC (sizeof IntArrayMsg_struct + 4 * length (ia_values x)) x)"
| "wf_msg (MDone x) = wf_header DoneC (sizeof DoneMsg_struct) x"
| "wf_msg (MRefTwoDim x) = wf_header RefTwoDimC (sizeof RefTwoDimIntArrayMsg_struct) x"
| "wf_msg (MRequest x) =
     (wf_array (req_data x) (req_data_size x) \<and>
      wf_header RequestC (sizeof RequestMsg_struct + length (req_data x)) x)"
| "wf_msg (MResponse x) =
     (wf_array (resp_data x) (resp_data_size x) \<and>
      wf_header ResponseC (sizeof ResponseMsg_struct + length (resp_data x)) x)"

definition msg_len :: "message \<Rightarrow> nat" where
  "msg_len x = unat (msg_size (header_of x))"

text \<open>
  A message up to what its readers can see: of a \<open>TextMsg\<close> only the C string counts, since
  \<open>strcpy\<close> leaves the rest of the array as it was.
\<close>

fun norm_msg :: "message \<Rightarrow> message" where
  "norm_msg (MText x) = MText (x\<lparr>text_msg := cstr (text_msg x)\<rparr>)"
| "norm_msg x = x"

text \<open>\<open>malloc\<close> succeeded, and the block for a \<open>TextMsg\<close> has its 100 characters.\<close>

definition blocks_ok :: "blocks \<Rightarrow> bool" where
  "blocks_ok b \<longleftrightarrow>
     blk_bar b \<noteq> None \<and> (\<exists>u. blk_text b = Some u \<and> length (text_msg u) = 100) \<and>
     blk_refint b \<noteq> None \<and> blk_topo b \<noteq> None \<and> blk_int b \<noteq> None \<and> blk_done b \<noteq> None \<and>
     blk_reftwo b \<noteq> None \<and> blk_req b \<noteq> None \<and> blk_resp b \<noteq> None"

text \<open>A mapping whose addresses fit a pointer.\<close>

definition wf_view :: "view \<Rightarrow> bool" where
  "wf_view v \<longleftrightarrow> vbase v + vlen v < 2 ^ 64"

text \<open>The memory after \<open>writeAt\<close>, and the message the receiver gets from an address.\<close>

definition write_mem :: "view \<Rightarrow> message \<Rightarrow> mem \<Rightarrow> nat \<Rightarrow> mem" where
  "write_mem v x m a = (case writeAt v x m a of Inl _ \<Rightarrow> m | Inr (_, m', _) \<Rightarrow> m')"

definition read_msg :: "blocks \<Rightarrow> view \<Rightarrow> mem \<Rightarrow> nat \<Rightarrow> message res" where
  "read_msg b v m a =
     (let t = unat (load32 m (a + offset_of Message_struct ''tid'')) in
      if t < MAX_MESSAGE_TYPE then
        (case build_mapping ! t of
           None \<Rightarrow> Inl NullDeref
         | Some c \<Rightarrow> (let (m', ms) = rebind c v m a in clone_at b v ms m' a))
      else Inl OutOfBounds)"

section \<open>Layout facts\<close>

lemma Message_layout [layout, simp]:
  "offset_of Message_struct ''tag'' = 0"
  "offset_of Message_struct ''tid'' = 4"
  "offset_of Message_struct ''msg_size'' = 8"
  by code_simp+

lemma BarMsg_layout [layout, simp]:
  "sizeof BarMsg_struct = 72"
  "offset_of BarMsg_struct ''tag'' = 0"
  "offset_of BarMsg_struct ''tid'' = 4"
  "offset_of BarMsg_struct ''msg_size'' = 8"
  "offset_of BarMsg_struct ''value'' = 48"
  by code_simp+

lemma TextMsg_layout [layout, simp]:
  "sizeof TextMsg_struct = 168"
  "offset_of TextMsg_struct ''tag'' = 0"
  "offset_of TextMsg_struct ''tid'' = 4"
  "offset_of TextMsg_struct ''msg_size'' = 8"
  "offset_of TextMsg_struct ''msg'' = 48"
  by code_simp+

lemma RefIntArrayMsg_layout [layout, simp]:
  "sizeof RefIntArrayMsg_struct = 88"
  "offset_of RefIntArrayMsg_struct ''tag'' = 0"
  "offset_of RefIntArrayMsg_struct ''tid'' = 4"
  "offset_of RefIntArrayMsg_struct ''msg_size'' = 8"
  "offset_of RefIntArrayMsg_struct ''size'' = 48"
  "offset_of RefIntArrayMsg_struct ''values'' = 56"
  by code_simp+

lemma TopologyMsg_layout [layout, simp]:
  "sizeof TopologyMsg_struct = 104"
  "offset_of TopologyMsg_struct ''tag'' = 0"
  "offset_of TopologyMsg_struct ''tid'' = 4"
  "offset_of TopologyMsg_struct ''msg_size'' = 8"
  "offset_of TopologyMsg_struct ''bucket_count'' = 48"
  "offset_of TopologyMsg_struct ''root_id'' = 52"
  "offset_of TopologyMsg_struct ''sample_size'' = 56"
  "offset_of TopologyMsg_struct ''data_size'' = 60"
  "offset_of TopologyMsg_struct ''bucket_ids'' = 64"
  by code_simp+

lemma IntArrayMsg_layout [layout, simp]:
  "sizeof IntArrayMsg_struct = 88"
  "offset_of IntArrayMsg_struct ''tag'' = 0"
  "offset_of IntArrayMsg_struct ''tid'' = 4"
  "offset_of IntArrayMsg_struct ''msg_size'' = 8"
  "offset_of IntArrayMsg_struct ''size'' = 48"
  "offset_of IntArrayMsg_struct ''values'' = 56"
  by code_simp+

lemma DoneMsg_layout [layout, simp]:
  "sizeof DoneMsg_struct = 56"
  "offset_of DoneMsg_struct ''tag'' = 0"
  "offset_of DoneMsg_struct ''tid'' = 4"
  "offset_of DoneMsg_struct ''msg_size'' = 8"
  "offset_of DoneMsg_struct ''success'' = 48"
  by code_simp+

lemma RefTwoDimIntArrayMsg_layout [layout, simp]:
  "sizeof RefTwoDimIntArrayMsg_struct = 72"
  "offset_of RefTwoDimIntArrayMsg_struct ''tag'' = 0"
  "offset_of RefTwoDimIntArrayMsg_struct ''tid'' = 4"
  "offset_of RefTwoDimIntArrayMsg_struct ''msg_size'' = 8"
  "offset_of RefTwoDimIntArrayMsg_struct ''size'' = 48"
  "offset_of RefTwoDimIntArrayMsg_struct ''counts'' = 56"
  "offset_of RefTwoDimIntArrayMsg_struct ''values'' = 64"
  by code_simp+

lemma RequestMsg_layout [layout, simp]:
  "sizeof RequestMsg_struct = 88"
  "offset_of RequestMsg_struct ''tag'' = 0"
  "offset_of RequestMsg_struct ''tid'' = 4"
  "offset_of RequestMsg_struct ''msg_size'' = 8"
  "offset_of RequestMsg_struct ''sender_task_id'' = 48"
  "offset_of RequestMsg_struct ''request_type'' = 52"
  "offset_of RequestMsg_struct ''data_size'' = 56"
  "offset_of RequestMsg_struct ''data'' = 64"
  by code_simp+

lemma ResponseMsg_layout [layout, simp]:
  "sizeof ResponseMsg_struct = 80"
  "offset_of ResponseMsg_struct ''tag'' = 0"
  "offset_of ResponseMsg_struct ''tid'' = 4"
  "offset_of ResponseMsg_struct ''msg_size'' = 8"
  "offset_of ResponseMsg_struct ''code'' = 48"
  "offset_of ResponseMsg_struct ''data_size'' = 52"
  "offset_of ResponseMsg_struct ''data'' = 56"
  by code_simp+

section \<open>Headers\<close>

lemma write_header_loads [mem_simps]:
  "load32 (write_header x m a) a = tag x"
  "load32 (write_header x m a) (a + 4) = tid x"
  "load32 (write_header x m a) (a + 8) = msg_size x"
  by (simp_all add: write_header_def mem_simps)

lemma write_header_outside: "i < a \<or> a + 12 \<le> i \<Longrightarrow> write_header x m a i = m i"
  by (auto simp: write_header_def store32_outside)

lemma truncate_sel [simp]:
  "tag (Message.truncate x) = tag x"
  "tid (Message.truncate x) = tid x"
  "msg_size (Message.truncate x) = msg_size x"
  "methods (Message.truncate x) = methods x"
  by (simp_all add: Message.truncate_def)

lemma wf_msg_header:
  assumes "wf_msg x"
  shows "methods (header_of x) = Some (class_of x)"
    and "tid (header_of x) = class_id (class_of x)"
    and "12 \<le> msg_len x" and "msg_len x < 2 ^ 31"
  using assms by (cases x; simp add: wf_header_def msg_len_def)+

lemma norm_msg_header [simp]: "header_of (norm_msg x) = header_of x"
  by (cases x) (simp_all add: Message.truncate_def)

lemma copy_out_wf: "wf_array xs n \<Longrightarrow> copy_out xs (sint n) = Inr xs"
  by (simp add: copy_out_def wf_array_def)

lemma copy_out_wf_ints:
  "wf_array xs n \<Longrightarrow> copy_out (ints_to_bytes xs) (4 * sint n) = Inr (ints_to_bytes xs)"
  by (simp add: copy_out_def wf_array_def nat_mult_distrib)

lemma copy_elems_wf: "wf_array xs n \<Longrightarrow> copy_elems xs (sint n) = Inr xs"
  by (simp add: copy_elems_def wf_array_def)

section \<open>Reading back\<close>

lemma agree_load32:
  assumes "agree_on a n m m'"
  shows "k + 4 \<le> n \<Longrightarrow> load32 m' (a + k) = load32 m (a + k)"
    and "4 \<le> n \<Longrightarrow> load32 m' a = load32 m a"
  using assms by (auto intro!: load32_agree [OF agree_on_sym])

lemma agree_load64:
  "agree_on a n m m' \<Longrightarrow> k + 8 \<le> n \<Longrightarrow> load64 m' (a + k) = load64 m (a + k)"
  by (rule load64_agree [OF agree_on_sym]) auto

lemma agree_load_bytes:
  "agree_on a n m m' \<Longrightarrow> k + j \<le> n \<Longrightarrow> load_bytes m' (a + k) j = load_bytes m (a + k) j"
  by (rule load_bytes_agree [OF agree_on_sym]) auto

lemma agree_load_ints:
  "agree_on a n m m' \<Longrightarrow> k + 4 * j \<le> n \<Longrightarrow> load_ints m' (a + k) j = load_ints m (a + k) j"
  by (rule load_ints_agree [OF agree_on_sym]) auto

lemma view_pointer:
  assumes "wf_view v" "a + h \<le> vlen v"
  shows "unat (of_nat (vbase v + a + h) :: ptr) = vbase v + a + h"
  using assms by (simp add: unat_of_nat wf_view_def del: of_nat_add)

lemma deref_ints_own:
  assumes "wf_view v" "a + h + 4 * nat n \<le> vlen v"
  shows "deref_ints v m (of_nat (vbase v + a + h)) n = Inr (load_ints m (a + h) (nat n))"
  using assms view_pointer [of v a h]
  by (auto simp: deref_ints_def in_view_def load_ints_def)

lemma deref_bytes_own:
  assumes "wf_view v" "a + h + nat n \<le> vlen v"
  shows "deref_bytes v m (of_nat (vbase v + a + h)) n = Inr (load_bytes m (a + h) (nat n))"
  using assms view_pointer [of v a h]
  by (auto simp: deref_bytes_def in_view_def)

lemma mapping_class_id:
  "unat (class_id c) < MAX_MESSAGE_TYPE"
  "build_mapping ! unat (class_id c) = Some c"
  by (cases c; simp add: MAX_MESSAGE_TYPE_def build_mapping_def)+

text \<open>
  What \<open>writeAt\<close> leaves in the buffer for each class, as the struct the receiver sees there.
\<close>

lemma read_msg_of_class:
  assumes "load32 m (a + 4) = class_id c" "rebind c v m a = (m', ms)"
  shows "read_msg b v m a = clone_at b v ms m' a"
  using assms by (simp add: read_msg_def mapping_class_id)

lemma BarMsg_roundtrip:
  assumes wf: "wf_msg (MBar x)" and b: "blocks_ok b"
    and w: "writeAt w0 (MBar x) m a = Inr (x', m1, r)"
    and ag: "agree_on a (msg_len (MBar x)) m1 m2"
  shows "read_msg b v m2 a = Inr (MBar x)"
proof -
  from wf have len: "72 \<le> msg_len (MBar x)" and hd: "methods x = Some BarC" "tid x = class_id BarC"
    by (simp_all add: wf_header_def msg_len_def)
  from w hd have m1: "m1 = store32 (write_header x m a) (a + 48) (bar_value x)"
    by (simp add: writeAt_def BarMsg_writeAt_def as_msg_def)
  have at: "BarMsg_at (Some BarC) m2 a = x" and t: "load32 m2 (a + 4) = class_id BarC"
    using len hd by (simp_all add: BarMsg_at_def agree_load32 [OF ag] m1 mem_simps)
  show ?thesis
    using b hd by (subst read_msg_of_class [OF t])
      (auto simp: clone_at_def at BarMsg_rebind_def BarMsg_clone_def BarMsg_create_def blocks_ok_def)
qed

lemma DoneMsg_roundtrip:
  assumes wf: "wf_msg (MDone x)" and b: "blocks_ok b"
    and w: "writeAt w0 (MDone x) m a = Inr (x', m1, r)"
    and ag: "agree_on a (msg_len (MDone x)) m1 m2"
  shows "read_msg b v m2 a = Inr (MDone x)"
proof -
  from wf have len: "56 \<le> msg_len (MDone x)"
    and hd: "methods x = Some DoneC" "tid x = class_id DoneC"
    by (simp_all add: wf_header_def msg_len_def)
  from w hd have m1: "m1 = store32 (write_header x m a) (a + 48) (success x)"
    by (simp add: writeAt_def DoneMsg_writeAt_def as_msg_def)
  have at: "DoneMsg_at (Some DoneC) m2 a = x" and t: "load32 m2 (a + 4) = class_id DoneC"
    using len hd by (simp_all add: DoneMsg_at_def agree_load32 [OF ag] m1 mem_simps)
  show ?thesis
    using b hd by (subst read_msg_of_class [OF t])
      (auto simp: clone_at_def at DoneMsg_rebind_def DoneMsg_clone_def DoneMsg_create_def
        blocks_ok_def)
qed

lemma RefIntArrayMsg_roundtrip:
  assumes wf: "wf_msg (MRefIntArray x)" and b: "blocks_ok b"
    and w: "writeAt w0 (MRefIntArray x) m a = Inr (x', m1, r)"
    and ag: "agree_on a (msg_len (MRefIntArray x)) m1 m2"
  shows "read_msg b v m2 a = Inr (MRefIntArray x)"
proof -
  from wf have len: "88 \<le> msg_len (MRefIntArray x)"
    and hd: "methods x = Some RefIntArrayC" "tid x = class_id RefIntArrayC"
    by (simp_all add: wf_header_def msg_len_def)
  from w hd have m1: "m1 = store64 (store32 (write_header x m a) (a + 48) (ria_size x))
                       (a + 56) (ria_values x)"
    by (simp add: writeAt_def RefIntArrayMsg_writeAt_def as_msg_def)
  have at: "RefIntArrayMsg_at (Some RefIntArrayC) m2 a = x"
    and t: "load32 m2 (a + 4) = class_id RefIntArrayC"
    using len hd
    by (simp_all add: RefIntArrayMsg_at_def agree_load32 [OF ag] agree_load64 [OF ag] m1 mem_simps)
  show ?thesis
    using b hd by (subst read_msg_of_class [OF t])
      (auto simp: clone_at_def at RefIntArrayMsg_rebind_def RefIntArrayMsg_clone_def
        RefIntArrayMsg_create_def blocks_ok_def)
qed

lemma RefTwoDimIntArrayMsg_roundtrip:
  assumes wf: "wf_msg (MRefTwoDim x)" and b: "blocks_ok b"
    and w: "writeAt w0 (MRefTwoDim x) m a = Inr (x', m1, r)"
    and ag: "agree_on a (msg_len (MRefTwoDim x)) m1 m2"
  shows "read_msg b v m2 a = Inr (MRefTwoDim x)"
proof -
  from wf have len: "72 \<le> msg_len (MRefTwoDim x)"
    and hd: "methods x = Some RefTwoDimC" "tid x = class_id RefTwoDimC"
    by (simp_all add: wf_header_def msg_len_def)
  from w hd have m1: "m1 = store64 (store64 (store32 (write_header x m a) (a + 48) (rtd_size x))
                       (a + 56) (rtd_counts x)) (a + 64) (rtd_values x)"
    by (simp add: writeAt_def RefTwoDimIntArrayMsg_writeAt_def as_msg_def)
  have at: "RefTwoDimIntArrayMsg_at (Some RefTwoDimC) m2 a = x"
    and t: "load32 m2 (a + 4) = class_id RefTwoDimC"
    using len hd by (simp_all add: RefTwoDimIntArrayMsg_at_def agree_load32 [OF ag]
        agree_load64 [OF ag] m1 mem_simps)
  show ?thesis
    using b hd by (subst read_msg_of_class [OF t])
      (auto simp: clone_at_def at RefTwoDimIntArrayMsg_rebind_def RefTwoDimIntArrayMsg_clone_def
        RefTwoDimIntArrayMsg_create_def blocks_ok_def)
qed

lemma TextMsg_roundtrip:
  assumes wf: "wf_msg (MText x)" and b: "blocks_ok b"
    and w: "writeAt w0 (MText x) m a = Inr (x', m1, r)"
    and ag: "agree_on a (msg_len (MText x)) m1 m2"
  shows "\<exists>y. read_msg b v m2 a = Inr y \<and> norm_msg y = norm_msg (MText x)"
proof -
  from wf have len: "168 \<le> msg_len (MText x)"
    and hd: "methods x = Some TextC" "tid x = class_id TextC"
    by (simp_all add: wf_header_def msg_len_def)
  from w hd obtain s where s: "strcpy (load_bytes (write_header x m a) (a + 48) 100) (text_msg x) = Inr s"
    and m1: "m1 = store_bytes (write_header x m a) (a + 48) s"
    by (auto simp: writeAt_def TextMsg_writeAt_def as_msg_def Let_def bindR_eq_Inr)
  from strcpy_length [OF s] have ls: "length s = 100"
    by simp
  from b obtain u where u: "blk_text b = Some u" "length (text_msg u) = 100"
    by (auto simp: blocks_ok_def)
  have at: "TextMsg_at (Some TextC) m2 a = x\<lparr>text_msg := s\<rparr>"
    and t: "load32 m2 (a + 4) = class_id TextC"
    using len hd ls
    by (simp_all add: TextMsg_at_def agree_load32 [OF ag] agree_load_bytes [OF ag] m1 mem_simps
        load_store_bytes_same)
  have z: "0 \<in> set s" and cs: "cstr s = cstr (text_msg x)" and short: "length (cstr s) < 100"
    using s strcpy_cstr [OF s] by (auto simp: strcpy_Inr)
  then obtain s' where s': "strcpy (text_msg u) s = Inr s'"
    using u by (auto simp: strcpy_Inr)
  then have "cstr s' = cstr (text_msg x)"
    using strcpy_cstr cs by metis
  with s' hd u show ?thesis
    by (subst read_msg_of_class [OF t])
      (auto simp: clone_at_def at TextMsg_rebind_def TextMsg_clone_def TextMsg_create_def)
qed

lemma IntArrayMsg_roundtrip:
  assumes wf: "wf_msg (MIntArray x)" and b: "blocks_ok b"
    and w: "writeAt w0 (MIntArray x) m a = Inr (x', m1, r)"
    and ag: "agree_on a (msg_len (MIntArray x)) m1 m2"
    and v: "wf_view v" "a + msg_len (MIntArray x) \<le> vlen v"
  shows "read_msg b v m2 a = Inr (MIntArray x)"
proof -
  let ?n = "length (ia_values x)"
  from wf have len: "88 + 4 * ?n \<le> msg_len (MIntArray x)"
    and hd: "methods x = Some IntArrayC" "tid x = class_id IntArrayC"
    and arr: "wf_array (ia_values x) (ia_size x)"
    by (simp_all add: wf_header_def msg_len_def)
  from arr have n: "nat (sint (ia_size x)) = ?n"
    by (simp add: wf_array_def)
  define p where "p = (of_nat (vbase v + a + 88) :: ptr)"
  from w hd have m1: "m1 = store64 (store_bytes (store32 (write_header x m a) (a + 48) (ia_size x))
                       (a + 88) (ints_to_bytes (ia_values x))) (a + 56) (of_nat (vbase w0 + a + 88))"
    by (simp add: writeAt_def IntArrayMsg_writeAt_def as_msg_def Let_def copy_out_wf_ints [OF arr])
  have t: "load32 m2 (a + 4) = class_id IntArrayC"
    using len hd by (simp add: agree_load32 [OF ag] m1 mem_simps)
  let ?m3 = "store64 m2 (a + 56) p"
  have "load_ints m2 (a + 88) ?n = ia_values x"
    using len by (simp add: agree_load_ints [OF ag] m1 mem_simps load_ints_store_same)
  then have "deref_ints v ?m3 p (sint (ia_size x)) = Inr (ia_values x)"
    using v len n unfolding p_def by (subst deref_ints_own) (auto simp: mem_simps)
  then have at: "IntArrayMsg_at v (Some IntArrayC) ?m3 a = Inr x"
    using len hd by (simp add: IntArrayMsg_at_def mem_simps agree_load32 [OF ag] m1)
  have rb: "rebind IntArrayC v m2 a = (?m3, Some IntArrayC)"
    by (simp add: IntArrayMsg_rebind_def p_def)
  show ?thesis
    using b hd copy_elems_wf [OF arr]
    by (subst read_msg_of_class [OF t rb])
      (auto simp: clone_at_def at IntArrayMsg_clone_def
        IntArrayMsg_create_def blocks_ok_def)
qed

lemma TopologyMsg_roundtrip:
  assumes wf: "wf_msg (MTopology x)" and b: "blocks_ok b"
    and w: "writeAt w0 (MTopology x) m a = Inr (x', m1, r)"
    and ag: "agree_on a (msg_len (MTopology x)) m1 m2"
    and v: "wf_view v" "a + msg_len (MTopology x) \<le> vlen v"
  shows "read_msg b v m2 a = Inr (MTopology x)"
proof -
  let ?n = "length (bucket_ids x)"
  from wf have len: "104 + 4 * ?n \<le> msg_len (MTopology x)"
    and hd: "methods x = Some TopologyC" "tid x = class_id TopologyC"
    and arr: "wf_array (bucket_ids x) (bucket_count x)"
    by (simp_all add: wf_header_def msg_len_def)
  from arr have n: "nat (sint (bucket_count x)) = ?n"
    by (simp add: wf_array_def)
  define p where "p = (of_nat (vbase v + a + 104) :: ptr)"
  from w hd have m1: "m1 = store64 (store_bytes (store32 (store32 (store32 (store32
        (write_header x m a) (a + 48) (bucket_count x)) (a + 52) (root_id x))
        (a + 56) (sample_size x)) (a + 60) (topo_data_size x))
        (a + 104) (ints_to_bytes (bucket_ids x))) (a + 64) (of_nat (vbase w0 + a + 104))"
    by (simp add: writeAt_def TopologyMsg_writeAt_def as_msg_def Let_def copy_out_wf_ints [OF arr])
  have t: "load32 m2 (a + 4) = class_id TopologyC"
    using len hd by (simp add: agree_load32 [OF ag] m1 mem_simps)
  let ?m3 = "store64 m2 (a + 64) p"
  have "load_ints m2 (a + 104) ?n = bucket_ids x"
    using len by (simp add: agree_load_ints [OF ag] m1 mem_simps load_ints_store_same)
  then have "deref_ints v ?m3 p (sint (bucket_count x)) = Inr (bucket_ids x)"
    using v len n unfolding p_def by (subst deref_ints_own) (auto simp: mem_simps)
  then have at: "TopologyMsg_at v (Some TopologyC) ?m3 a = Inr x"
    using len hd by (simp add: TopologyMsg_at_def mem_simps agree_load32 [OF ag] m1)
  have rb: "rebind TopologyC v m2 a = (?m3, Some TopologyC)"
    by (simp add: TopologyMsg_rebind_def p_def)
  show ?thesis
    using b hd copy_elems_wf [OF arr]
    by (subst read_msg_of_class [OF t rb])
      (auto simp: clone_at_def at TopologyMsg_clone_def
        TopologyMsg_create_def blocks_ok_def)
qed

lemma RequestMsg_roundtrip:
  assumes wf: "wf_msg (MRequest x)" and b: "blocks_ok b"
    and w: "writeAt w0 (MRequest x) m a = Inr (x', m1, r)"
    and ag: "agree_on a (msg_len (MRequest x)) m1 m2"
    and v: "wf_view v" "a + msg_len (MRequest x) \<le> vlen v"
  shows "read_msg b v m2 a = Inr (MRequest x)"
proof -
  let ?n = "length (req_data x)"
  from wf have len: "88 + ?n \<le> msg_len (MRequest x)"
    and hd: "methods x = Some RequestC" "tid x = class_id RequestC"
    and arr: "wf_array (req_data x) (req_data_size x)"
    by (simp_all add: wf_header_def msg_len_def)
  from arr have n: "nat (sint (req_data_size x)) = ?n"
    by (simp add: wf_array_def)
  define p where "p = (of_nat (vbase v + a + 88) :: ptr)"
  from w hd have m1: "m1 = store64 (store_bytes (store32 (store32 (store32
        (write_header x m a) (a + 48) (sender_task_id x)) (a + 52) (request_type x))
        (a + 56) (req_data_size x)) (a + 88) (req_data x)) (a + 64) (of_nat (vbase w0 + a + 88))"
    by (simp add: writeAt_def RequestMsg_writeAt_def as_msg_def Let_def copy_out_wf [OF arr])
  have t: "load32 m2 (a + 4) = class_id RequestC"
    using len hd by (simp add: agree_load32 [OF ag] m1 mem_simps)
  let ?m3 = "store64 m2 (a + 64) p"
  have "load_bytes m2 (a + 88) ?n = req_data x"
    using len by (simp add: agree_load_bytes [OF ag] m1 mem_simps load_store_bytes_same)
  then have "deref_bytes v ?m3 p (sint (req_data_size x)) = Inr (req_data x)"
    using v len n unfolding p_def by (subst deref_bytes_own) (auto simp: mem_simps)
  then have at: "RequestMsg_at v (Some RequestC) ?m3 a = Inr x"
    using len hd by (simp add: RequestMsg_at_def mem_simps agree_load32 [OF ag] m1)
  have rb: "rebind RequestC v m2 a = (?m3, Some RequestC)"
    by (simp add: RequestMsg_rebind_def p_def)
  show ?thesis
    using b hd copy_elems_wf [OF arr]
    by (subst read_msg_of_class [OF t rb])
      (auto simp: clone_at_def at RequestMsg_clone_def
        RequestMsg_create_def blocks_ok_def)
qed

lemma ResponseMsg_roundtrip:
  assumes wf: "wf_msg (MResponse x)" and b: "blocks_ok b"
    and w: "writeAt w0 (MResponse x) m a = Inr (x', m1, r)"
    and ag: "agree_on a (msg_len (MResponse x)) m1 m2"
    and v: "wf_view v" "a + msg_len (MResponse x) \<le> vlen v"
  shows "read_msg b v m2 a = Inr (MResponse x)"
proof -
  let ?n = "length (resp_data x)"
  from wf have len: "80 + ?n \<le> msg_len (MResponse x)"
    and hd: "methods x = Some ResponseC" "tid x = class_id ResponseC"
    and arr: "wf_array (resp_data x) (resp_data_size x)"
    by (simp_all add: wf_header_def msg_len_def)
  from arr have n: "nat (sint (resp_data_size x)) = ?n"
    by (simp add: wf_array_def)
  define p where "p = (of_nat (vbase v + a + 80) :: ptr)"
  from w hd have m1: "m1 = store64 (store_bytes (store32 (store32
        (write_header x m a) (a + 48) (resp_code x)) (a + 52) (resp_data_size x))
        (a + 80) (resp_data x)) (a + 56) (of_nat (vbase w0 + a + 80))"
    by (simp add: writeAt_def ResponseMsg_writeAt_def as_msg_def Let_def copy_out_wf [OF arr])
  have t: "load32 m2 (a + 4) = class_id ResponseC"
    using len hd by (simp add: agree_load32 [OF ag] m1 mem_simps)
  let ?m3 = "store64 m2 (a + 56) p"
  have "load_bytes m2 (a + 80) ?n = resp_data x"
    using len by (simp add: agree_load_bytes [OF ag] m1 mem_simps load_store_bytes_same)
  then have "deref_bytes v ?m3 p (sint (resp_data_size x)) = Inr (resp_data x)"
    using v len n unfolding p_def by (subst deref_bytes_own) (auto simp: mem_simps)
  then have at: "ResponseMsg_at v (Some ResponseC) ?m3 a = Inr x"
    using len hd by (simp add: ResponseMsg_at_def mem_simps agree_load32 [OF ag] m1)
  have rb: "rebind ResponseC v m2 a = (?m3, Some ResponseC)"
    by (simp add: ResponseMsg_rebind_def p_def)
  show ?thesis
    using b hd copy_elems_wf [OF arr]
    by (subst read_msg_of_class [OF t rb])
      (auto simp: clone_at_def at ResponseMsg_clone_def
        ResponseMsg_create_def blocks_ok_def)
qed

section \<open>All classes at once\<close>

text \<open>The sender's object after \<open>writeAt\<close>: a topology message grows its \<open>msg_size\<close>.\<close>

fun after_write :: "message \<Rightarrow> message" where
  "after_write (MTopology x) = MTopology (x\<lparr>msg_size := msg_size x + bucket_count x * 4\<rparr>)"
| "after_write x = x"

lemma strcpy_full:
  "length dst = 100 \<Longrightarrow> length src = 100 \<Longrightarrow> 0 \<in> set src \<Longrightarrow>
     strcpy dst src = Inr (cstr src @ [0] @ drop (length (cstr src) + 1) dst)"
  using cstr_shorter [of src] by (simp add: strcpy_Inr)

lemma writeAt_total:
  assumes "wf_msg x"
  shows "\<exists>r. writeAt v x m a = Inr (after_write x, write_mem v x m a, r)"
proof -
  have "\<exists>m' r. writeAt v x m a = Inr (after_write x, m', r)"
  proof (cases x)
    case (MText y)
    with assms strcpy_full [of "load_bytes (write_header y m a) (a + 48) 100" "text_msg y"]
    show ?thesis
      by (auto simp: writeAt_def wf_header_def as_msg_def TextMsg_writeAt_def Let_def)
  qed (use assms in \<open>auto simp: writeAt_def wf_header_def as_msg_def Let_def
      copy_out_wf copy_out_wf_ints BarMsg_writeAt_def RefIntArrayMsg_writeAt_def
      TopologyMsg_writeAt_def IntArrayMsg_writeAt_def DoneMsg_writeAt_def
      RefTwoDimIntArrayMsg_writeAt_def RequestMsg_writeAt_def ResponseMsg_writeAt_def\<close>)
  then show ?thesis
    by (auto simp: write_mem_def)
qed

lemma writeAt_frame:
  assumes wf: "wf_msg x" and i: "i < a \<or> a + msg_len x \<le> i"
  shows "write_mem v x m a i = m i"
proof (cases x)
  case (MText y)
  have ls: "length (cstr (text_msg y)) < 100"
    using wf MText cstr_shorter [of "text_msg y"] by simp
  show ?thesis
    using wf i MText ls strcpy_full [of "load_bytes (write_header y m a) (a + 48) 100" "text_msg y"]
    by (auto simp: write_mem_def writeAt_def wf_header_def as_msg_def TextMsg_writeAt_def Let_def
        msg_len_def store_bytes_outside write_header_outside)
qed (use wf i in \<open>auto simp: write_mem_def writeAt_def wf_header_def as_msg_def Let_def msg_len_def
    copy_out_wf copy_out_wf_ints BarMsg_writeAt_def RefIntArrayMsg_writeAt_def
    TopologyMsg_writeAt_def IntArrayMsg_writeAt_def DoneMsg_writeAt_def
    RefTwoDimIntArrayMsg_writeAt_def RequestMsg_writeAt_def ResponseMsg_writeAt_def
    store_bytes_outside store32_outside store64_outside write_header_outside\<close>)

text \<open>Re-binding writes the data pointer of the struct and nothing else.\<close>

lemma rebind_frame:
  assumes "wf_msg x" "rebind (class_of x) v m a = (m', ms)" "i < a \<or> a + msg_len x \<le> i"
  shows "m' i = m i"
  using assms
  by (cases x) (auto simp: BarMsg_rebind_def TextMsg_rebind_def RefIntArrayMsg_rebind_def
      TopologyMsg_rebind_def IntArrayMsg_rebind_def DoneMsg_rebind_def msg_len_def wf_header_def
      RefTwoDimIntArrayMsg_rebind_def RequestMsg_rebind_def ResponseMsg_rebind_def store64_outside)

lemma write_header_truncate [simp]: "write_header (Message.truncate x) m a = write_header x m a"
  by (simp add: write_header_def)

lemma write_mem_agrees_header:
  assumes wf: "wf_msg x"
  shows "agree_on a 12 (write_header (header_of x) m a) (write_mem v x m a)"
proof (cases x)
  case (MText y)
  show ?thesis
    using wf MText strcpy_full [of "load_bytes (write_header y m a) (a + 48) 100" "text_msg y"]
    by (auto simp: agree_on_def write_mem_def writeAt_def wf_header_def as_msg_def
        TextMsg_writeAt_def Let_def store_bytes_outside)
qed (use wf in \<open>auto simp: agree_on_def write_mem_def writeAt_def wf_header_def as_msg_def Let_def
    copy_out_wf copy_out_wf_ints BarMsg_writeAt_def RefIntArrayMsg_writeAt_def
    TopologyMsg_writeAt_def IntArrayMsg_writeAt_def DoneMsg_writeAt_def
    RefTwoDimIntArrayMsg_writeAt_def RequestMsg_writeAt_def ResponseMsg_writeAt_def
    store_bytes_outside store32_outside store64_outside\<close>)

lemma stored_header:
  assumes wf: "wf_msg x" and ag: "agree_on a (msg_len x) (write_mem v x m a) m'"
  shows "load32 m' a = tag (header_of x)"
    and "load32 m' (a + 4) = tid (header_of x)"
    and "load32 m' (a + 8) = msg_size (header_of x)"
proof -
  have "agree_on a 12 (write_header (header_of x) m a) m'"
    using write_mem_agrees_header [OF wf] ag wf_msg_header(3) [OF wf]
    by (blast intro: agree_on_trans agree_on_sub [of a "msg_len x"] add_left_mono order_refl)
  from agree_load32 [OF this]
  show "load32 m' a = tag (header_of x)" "load32 m' (a + 4) = tid (header_of x)"
    "load32 m' (a + 8) = msg_size (header_of x)"
    by (simp_all add: mem_simps)
qed

theorem codec_roundtrip:
  assumes wf: "wf_msg x" and b: "blocks_ok b"
    and v: "wf_view v" "a + msg_len x \<le> vlen v"
    and ag: "agree_on a (msg_len x) (write_mem w x m a) m'"
  shows "map_sum id norm_msg (read_msg b v m' a) = Inr (norm_msg x)"
proof -
  obtain r where w: "writeAt w x m a = Inr (after_write x, write_mem w x m a, r)"
    using writeAt_total [OF wf] by blast
  note facts = wf b w ag
  show ?thesis
  proof (cases x)
    case (MText y)
    with TextMsg_roundtrip facts obtain z where "read_msg b v m' a = Inr z" "norm_msg z = norm_msg x"
      by blast
    then show ?thesis by simp
  qed (use facts v BarMsg_roundtrip DoneMsg_roundtrip RefIntArrayMsg_roundtrip
      RefTwoDimIntArrayMsg_roundtrip IntArrayMsg_roundtrip TopologyMsg_roundtrip
      RequestMsg_roundtrip ResponseMsg_roundtrip in auto)
qed

end
