(* ===== verification/RingBuffer.thy ===== *)
theory RingBuffer
  imports Prelude "HOL-Library.Sublist"
begin

text \<open>
  The algorithm of \<open>CircularMsgQ.c\<close> on natural numbers, with the item type left open: variable-size
  items are laid end to end in a byte buffer, and when the next one does not fit before the end it
  is written at the start and the old tail is remembered as the roll-over position.

  Two interfaces are stated as locales.  \<open>item_codec\<close> is what the ring needs of its items (they can
  be read back as long as their bytes are untouched, and writing one touches no other byte).
  \<open>bounded_fifo\<close> is what the ring promises its clients: a bounded first-in first-out queue.  The
  sublocale \<open>ring\<close> proves that every codec gives such a queue.
\<close>

section \<open>The ring\<close>

record ring =
  rhead :: nat
  rtail :: nat
  rsize :: nat
  rroll :: "nat option"
  rmem :: mem

text \<open>
  \<open>lo\<close> is the first usable offset and \<open>hi\<close> the end of the buffer; \<open>put\<close> writes an item, \<open>len\<close> is its
  size, \<open>slen\<close> reads the size of the item stored at an offset, and \<open>touch\<close> is what taking an item
  out does to its own bytes.
\<close>

definition ring_enq ::
  "nat \<Rightarrow> nat \<Rightarrow> ('m \<Rightarrow> nat) \<Rightarrow> ('m \<Rightarrow> mem \<Rightarrow> nat \<Rightarrow> mem) \<Rightarrow> 'm \<Rightarrow> ring \<Rightarrow> ring option" where
  "ring_enq lo hi len put x r =
     (case rroll r of
        None \<Rightarrow>
          (if rtail r + len x > hi then
             (if lo + len x > rhead r then None
              else Some (r\<lparr>rmem := put x (rmem r) lo, rtail := lo + len x,
                           rroll := Some (rtail r), rsize := Suc (rsize r)\<rparr>))
           else Some (r\<lparr>rmem := put x (rmem r) (rtail r), rtail := rtail r + len x,
                        rsize := Suc (rsize r)\<rparr>))
      | Some q \<Rightarrow>
          (if rtail r + len x > rhead r then None
           else Some (r\<lparr>rmem := put x (rmem r) (rtail r), rtail := rtail r + len x,
                        rsize := Suc (rsize r)\<rparr>)))"

definition ring_pos :: "nat \<Rightarrow> ring \<Rightarrow> nat" where
  "ring_pos lo r = (if rroll r = Some (rhead r) then lo else rhead r)"

definition ring_deq ::
  "nat \<Rightarrow> (mem \<Rightarrow> nat \<Rightarrow> nat) \<Rightarrow> (mem \<Rightarrow> nat \<Rightarrow> mem) \<Rightarrow> ring \<Rightarrow> (nat \<times> ring) option" where
  "ring_deq lo slen touch r =
     (if rsize r = 0 then None
      else let p = ring_pos lo r in
        Some (p, r\<lparr>rhead := p + slen (rmem r) p,
                   rroll := (if rroll r = Some (rhead r) then None else rroll r),
                   rsize := rsize r - 1, rmem := touch (rmem r) p\<rparr>))"

text \<open>The offsets of the stored items, oldest first.\<close>

fun ring_walk :: "nat \<Rightarrow> (mem \<Rightarrow> nat \<Rightarrow> nat) \<Rightarrow> mem \<Rightarrow> nat \<Rightarrow> nat \<Rightarrow> nat option \<Rightarrow> nat list" where
  "ring_walk lo slen m 0 h q = []"
| "ring_walk lo slen m (Suc n) h q =
     (let p = (if q = Some h then lo else h);
          q' = (if q = Some h then None else q)
      in p # ring_walk lo slen m n (p + slen m p) q')"

definition ring_abs ::
  "nat \<Rightarrow> (mem \<Rightarrow> nat \<Rightarrow> nat) \<Rightarrow> (mem \<Rightarrow> nat \<Rightarrow> 'v option) \<Rightarrow> ring \<Rightarrow> 'v list" where
  "ring_abs lo slen get r =
     map (\<lambda>p. the (get (rmem r) p)) (ring_walk lo slen (rmem r) (rsize r) (rhead r) (rroll r))"

text \<open>Items laid end to end from one offset to another.\<close>

fun chain :: "('m \<Rightarrow> nat) \<Rightarrow> nat \<Rightarrow> (nat \<times> 'm) list \<Rightarrow> nat \<Rightarrow> bool" where
  "chain len a [] b = (a = b)"
| "chain len a ((p, x) # bs) b = (p = a \<and> chain len (a + len x) bs b)"

section \<open>Clients of a bounded queue\<close>

datatype 'm client_op = Put 'm | Take

text \<open>
  A run of operations from any clients in any order: the queue at the end, what the takers got,
  and the items that were accepted.
\<close>

fun run_ops ::
  "('m \<Rightarrow> 'q \<Rightarrow> 'q option) \<Rightarrow> ('q \<Rightarrow> ('v \<times> 'q) option) \<Rightarrow> 'q \<Rightarrow> 'm client_op list \<Rightarrow>
     'q \<times> 'v list \<times> 'm list" where
  "run_ops enq deq q [] = (q, [], [])"
| "run_ops enq deq q (Put x # ops) =
     (case enq x q of
        None \<Rightarrow> run_ops enq deq q ops
      | Some q' \<Rightarrow> (let (r, out, acc) = run_ops enq deq q' ops in (r, out, x # acc)))"
| "run_ops enq deq q (Take # ops) =
     (case deq q of
        None \<Rightarrow> run_ops enq deq q ops
      | Some (y, q') \<Rightarrow> (let (r, out, acc) = run_ops enq deq q' ops in (r, y # out, acc)))"

definition puts :: "'m client_op list \<Rightarrow> 'm list" where
  "puts ops = concat (map (\<lambda>c. case c of Put x \<Rightarrow> [x] | Take \<Rightarrow> []) ops)"

section \<open>The interfaces\<close>

lemma ring_deq_sel:
  assumes "ring_deq lo slen touch r = Some (p, r')"
  shows "rhead r' = p + slen (rmem r) p" "rtail r' = rtail r" "rmem r' = touch (rmem r) p"
    "rroll r' = (if rroll r = Some (rhead r) then None else rroll r)"
  using assms by (auto simp: ring_deq_def Let_def split: if_splits)

lemma run_ops_subseq: "run_ops enq deq q ops = (q', out, acc) \<Longrightarrow> subseq acc (puts ops)"
  by (induction enq deq q ops arbitrary: q' out acc rule: run_ops.induct)
    (auto simp: puts_def split: option.splits prod.splits)

locale bounded_fifo =
  fixes enq :: "'m \<Rightarrow> 'q \<Rightarrow> 'q option"
    and deq :: "'q \<Rightarrow> ('v \<times> 'q) option"
    and absl :: "'q \<Rightarrow> 'v list"
    and invar :: "'q \<Rightarrow> bool"
    and wfm :: "'m \<Rightarrow> bool"
    and nrm :: "'m \<Rightarrow> 'v"
  assumes enq_invar: "invar q \<Longrightarrow> wfm x \<Longrightarrow> enq x q = Some q' \<Longrightarrow> invar q'"
    and enq_absl: "invar q \<Longrightarrow> wfm x \<Longrightarrow> enq x q = Some q' \<Longrightarrow> absl q' = absl q @ [nrm x]"
    and deq_None: "invar q \<Longrightarrow> deq q = None \<longleftrightarrow> absl q = []"
    and deq_invar: "invar q \<Longrightarrow> deq q = Some (y, q') \<Longrightarrow> invar q'"
    and deq_absl: "invar q \<Longrightarrow> deq q = Some (y, q') \<Longrightarrow> absl q = y # absl q'"
begin

text \<open>
  Nothing is lost, duplicated or reordered: what was taken, followed by what is still inside, is
  what was inside at the start followed by what was accepted.
\<close>

lemma run_fifo:
  assumes "invar q" "\<forall>x \<in> set (puts ops). wfm x" "run_ops enq deq q ops = (q', out, acc)"
  shows "invar q' \<and> out @ absl q' = absl q @ map nrm acc"
  using assms
proof (induction ops arbitrary: q q' out acc)
  case Nil
  then show ?case by simp
next
  case (Cons c ops)
  show ?case
  proof (cases c)
    case (Put x)
    then have wf: "wfm x" "\<forall>x \<in> set (puts ops). wfm x"
      using Cons.prems(2) by (auto simp: puts_def)
    show ?thesis
    proof (cases "enq x q")
      case None
      with Put Cons wf show ?thesis by auto
    next
      case (Some q1)
      obtain acc' where r: "run_ops enq deq q1 ops = (q', out, acc')" "acc = x # acc'"
        using Cons.prems(3) Put Some by (auto split: prod.splits)
      have "invar q' \<and> out @ absl q' = absl q1 @ map nrm acc'"
        using Cons.IH [OF enq_invar [OF Cons.prems(1) wf(1) Some] wf(2) r(1)] .
      then show ?thesis
        using enq_absl [OF Cons.prems(1) wf(1) Some] r(2) by simp
    qed
  next
    case Take
    then have wf: "\<forall>x \<in> set (puts ops). wfm x"
      using Cons.prems(2) by (auto simp: puts_def)
    show ?thesis
    proof (cases "deq q")
      case None
      with Take Cons wf show ?thesis by auto
    next
      case (Some yq)
      obtain y q1 where yq: "yq = (y, q1)" by fastforce
      obtain out' where r: "run_ops enq deq q1 ops = (q', out', acc)" "out = y # out'"
        using Cons.prems(3) Take Some yq by (auto split: prod.splits)
      have "invar q' \<and> out' @ absl q' = absl q1 @ map nrm acc"
        using Cons.IH [OF deq_invar [OF Cons.prems(1)] wf r(1)] Some yq by blast
      then show ?thesis
        using deq_absl [OF Cons.prems(1)] Some yq r(2) by auto
    qed
  qed
qed

end

locale item_codec =
  fixes wfm :: "'m \<Rightarrow> bool"
    and len :: "'m \<Rightarrow> nat"
    and put :: "'m \<Rightarrow> mem \<Rightarrow> nat \<Rightarrow> mem"
    and get :: "mem \<Rightarrow> nat \<Rightarrow> 'v option"
    and slen :: "mem \<Rightarrow> nat \<Rightarrow> nat"
    and touch :: "mem \<Rightarrow> nat \<Rightarrow> mem"
    and nrm :: "'m \<Rightarrow> 'v"
    and lo :: nat
    and hi :: nat
  assumes len_pos: "wfm x \<Longrightarrow> 0 < len x"
    and put_frame: "wfm x \<Longrightarrow> i < a \<or> a + len x \<le> i \<Longrightarrow> put x m a i = m i"
    and get_put: "wfm x \<Longrightarrow> a + len x \<le> hi \<Longrightarrow> agree_on a (len x) (put x m a) m' \<Longrightarrow>
      get m' a = Some (nrm x)"
    and slen_put: "wfm x \<Longrightarrow> agree_on a (len x) (put x m a) m' \<Longrightarrow> slen m' a = len x"
    and touch_frame: "wfm x \<Longrightarrow> agree_on a (len x) (put x m a) m' \<Longrightarrow>
      i < a \<or> a + len x \<le> i \<Longrightarrow> touch m' a i = m' i"
begin

text \<open>An item stored at an offset, its bytes still as \<open>put\<close> left them.\<close>

definition stored :: "mem \<Rightarrow> nat \<times> 'm \<Rightarrow> bool" where
  "stored m px \<longleftrightarrow> (case px of (p, x) \<Rightarrow>
     wfm x \<and> p + len x \<le> hi \<and> (\<exists>m0. agree_on p (len x) (put x m0 p) m))"

definition rep :: "ring \<Rightarrow> (nat \<times> 'm) list \<Rightarrow> bool" where
  "rep r bs \<longleftrightarrow>
     length bs = rsize r \<and> (\<forall>px \<in> set bs. stored (rmem r) px) \<and> lo \<le> rhead r \<and>
     (case rroll r of
        None \<Rightarrow> chain len (rhead r) bs (rtail r) \<and> rtail r \<le> hi
      | Some q \<Rightarrow> (\<exists>xs ys. bs = xs @ ys \<and> ys \<noteq> [] \<and> chain len (rhead r) xs q \<and>
                     chain len lo ys (rtail r) \<and> rtail r \<le> rhead r \<and> q \<le> hi))"

lemma chain_le: "chain len a bs b \<Longrightarrow> a \<le> b"
  by (induction bs arbitrary: a) fastforce+

lemma chain_snoc: "chain len a bs b \<Longrightarrow> chain len a (bs @ [(b, x)]) (b + len x)"
  by (induction bs arbitrary: a) auto

lemma chain_end: "chain len a (bs @ [(p, x)]) b \<Longrightarrow> p + len x = b"
  by (induction bs arbitrary: a) auto

lemma chain_member:
  "chain len a bs b \<Longrightarrow> (p, x) \<in> set bs \<Longrightarrow> a \<le> p \<and> p + len x \<le> b"
  by (induction bs arbitrary: a) (auto dest: chain_le, fastforce)

lemma stored_agree:
  "stored m (p, x) \<Longrightarrow> agree_on p (len x) m m' \<Longrightarrow> stored m' (p, x)"
  by (auto simp: stored_def intro: agree_on_trans)

lemma stored_after_put:
  assumes "stored m (p, x)" "wfm y" "p + len x \<le> a \<or> a + len y \<le> p"
  shows "stored (put y m a) (p, x)"
  using assms by (intro stored_agree [OF assms(1)]) (auto simp: agree_on_def put_frame)

lemma stored_new: "wfm x \<Longrightarrow> a + len x \<le> hi \<Longrightarrow> stored (put x m a) (a, x)"
  by (auto simp: stored_def intro!: exI [of _ m])

lemma stored_get: "stored m (p, x) \<Longrightarrow> get m p = Some (nrm x)"
  by (auto simp: stored_def intro: get_put)

lemma stored_slen: "stored m (p, x) \<Longrightarrow> slen m p = len x"
  by (auto simp: stored_def intro: slen_put)

lemma stored_len_pos: "stored m (p, x) \<Longrightarrow> 0 < len x"
  by (auto simp: stored_def intro: len_pos)

text \<open>A chain of stored items is what the walk finds.\<close>

lemma walk_chain:
  "chain len h bs b \<Longrightarrow> \<forall>px \<in> set bs. stored m px \<Longrightarrow>
     ring_walk lo slen m (length bs) h None = map fst bs"
  by (induction bs arbitrary: h) (auto simp: Let_def stored_slen)

lemma walk_two_chains:
  assumes "chain len h xs q" "chain len lo ys t" "ys \<noteq> []"
    "\<forall>px \<in> set (xs @ ys). stored m px"
  shows "ring_walk lo slen m (length (xs @ ys)) h (Some q) = map fst (xs @ ys)"
  using assms
proof (induction xs arbitrary: h)
  case Nil
  then obtain p y ys' where ys: "ys = (p, y) # ys'"
    by (cases ys) auto
  with Nil show ?case
    by (auto simp: Let_def stored_slen walk_chain)
next
  case (Cons px xs)
  obtain p x where px: "px = (p, x)" by fastforce
  from Cons.prems(1) px have p: "p = h" and rest: "chain len (h + len x) xs q"
    by auto
  have "stored m (h, x)"
    using Cons.prems(4) px p by simp
  then have "h < q"
    using chain_le [OF rest] stored_len_pos by fastforce
  then show ?case
    using Cons.IH [OF rest Cons.prems(2,3)] Cons.prems(4) px p \<open>stored m (h, x)\<close>
    by (simp add: Let_def stored_slen)
qed

lemma rep_walk:
  assumes "rep r bs"
  shows "ring_walk lo slen (rmem r) (rsize r) (rhead r) (rroll r) = map fst bs"
proof (cases "rroll r")
  case None
  with assms walk_chain [of "rhead r" bs "rtail r" "rmem r"] show ?thesis
    by (simp add: rep_def)
next
  case (Some q)
  with assms obtain xs ys where "bs = xs @ ys" "ys \<noteq> []" "chain len (rhead r) xs q"
    "chain len lo ys (rtail r)" "\<forall>px \<in> set bs. stored (rmem r) px" "length bs = rsize r"
    by (auto simp: rep_def)
  with walk_two_chains [of "rhead r" xs q ys "rtail r" "rmem r"] Some show ?thesis
    by simp
qed

lemma rep_abs: "rep r bs \<Longrightarrow> ring_abs lo slen get r = map (nrm \<circ> snd) bs"
proof -
  assume rep: "rep r bs"
  then have "get (rmem r) (fst px) = Some (nrm (snd px))" if "px \<in> set bs" for px
    using that stored_get [of "rmem r" "fst px" "snd px"] by (simp add: rep_def)
  then show ?thesis
    by (simp add: ring_abs_def rep_walk [OF rep])
qed

lemma rep_empty:
  "lo \<le> hi \<Longrightarrow> rhead r = lo \<Longrightarrow> rtail r = lo \<Longrightarrow> rsize r = 0 \<Longrightarrow> rroll r = None \<Longrightarrow> rep r []"
  by (simp add: rep_def)

text \<open>Enqueueing appends one block and disturbs none.\<close>

lemma rep_enq:
  assumes rep: "rep r bs" and wf: "wfm x" and enq: "ring_enq lo hi len put x r = Some r'"
  shows "\<exists>p. rep r' (bs @ [(p, x)])"
proof (cases "rroll r")
  case None
  with rep have c: "chain len (rhead r) bs (rtail r)" "rtail r \<le> hi"
    and st: "\<And>p y. (p, y) \<in> set bs \<Longrightarrow> stored (rmem r) (p, y)"
    and n: "length bs = rsize r" and lo: "lo \<le> rhead r"
    by (auto simp: rep_def)
  show ?thesis
  proof (cases "rtail r + len x > hi")
    case True
    with None enq have fit: "lo + len x \<le> rhead r"
      and r': "r' = r\<lparr>rmem := put x (rmem r) lo, rtail := lo + len x,
                      rroll := Some (rtail r), rsize := Suc (rsize r)\<rparr>"
      by (auto simp: ring_enq_def split: if_splits)
    have "lo + len x \<le> hi"
      using fit chain_le [OF c(1)] c(2) by simp
    moreover have "stored (rmem r') (p, y)" if "(p, y) \<in> set bs" for p y
      using stored_after_put [OF st [OF that] wf, of lo] chain_member [OF c(1) that] fit
      by (simp add: r')
    moreover have "\<exists>xs ys. bs @ [(lo, x)] = xs @ ys \<and> ys \<noteq> [] \<and>
        chain len (rhead r) xs (rtail r) \<and> chain len lo ys (lo + len x)"
      using c by (intro exI [of _ bs] exI [of _ "[(lo, x)]"]) simp
    ultimately have "rep r' (bs @ [(lo, x)])"
      using c fit n lo wf stored_new [OF wf, of lo "rmem r"] by (auto simp: rep_def r')
    then show ?thesis ..
  next
    case False
    with None enq have r': "r' = r\<lparr>rmem := put x (rmem r) (rtail r), rtail := rtail r + len x,
                                   rsize := Suc (rsize r)\<rparr>"
      by (auto simp: ring_enq_def)
    have "stored (rmem r') (p, y)" if "(p, y) \<in> set bs" for p y
      using stored_after_put [OF st [OF that] wf, of "rtail r"] chain_member [OF c(1) that]
      by (simp add: r')
    then have "rep r' (bs @ [(rtail r, x)])"
      using c False n lo None wf stored_new [OF wf, of "rtail r" "rmem r"]
      by (auto simp: rep_def r' intro: chain_snoc)
    then show ?thesis ..
  qed
next
  case (Some q)
  with rep obtain xs ys where bs: "bs = xs @ ys" "ys \<noteq> []"
    and cx: "chain len (rhead r) xs q" and cy: "chain len lo ys (rtail r)"
    and le: "rtail r \<le> rhead r" "q \<le> hi"
    and st: "\<And>p y. (p, y) \<in> set bs \<Longrightarrow> stored (rmem r) (p, y)"
    and n: "length bs = rsize r" and lo: "lo \<le> rhead r"
    by (auto simp: rep_def)
  from Some enq have fit: "rtail r + len x \<le> rhead r"
    and r': "r' = r\<lparr>rmem := put x (rmem r) (rtail r), rtail := rtail r + len x,
                    rsize := Suc (rsize r)\<rparr>"
    by (auto simp: ring_enq_def split: if_splits)
  have "rtail r + len x \<le> hi"
    using fit chain_le [OF cx] le by simp
  moreover have "stored (rmem r') (p, y)" if "(p, y) \<in> set bs" for p y
  proof -
    have "p + len y \<le> rtail r \<or> rtail r + len x \<le> p"
      using that bs(1) chain_member [OF cx, of p y] chain_member [OF cy, of p y] fit by fastforce
    then show ?thesis
      using stored_after_put [OF st [OF that] wf] by (simp add: r')
  qed
  moreover have "bs @ [(rtail r, x)] = xs @ (ys @ [(rtail r, x)])"
    using bs(1) by simp
  ultimately have "rep r' (bs @ [(rtail r, x)])"
    using cx chain_snoc [OF cy, of x] fit le n lo Some wf stored_new [OF wf, of "rtail r" "rmem r"]
    unfolding rep_def r' by auto
  then show ?thesis ..
qed

text \<open>Taking out removes the oldest block.\<close>

lemma ring_pos_rep:
  assumes rep: "rep r ((p, x) # bs)"
  shows "ring_pos lo r = p"
  using rep_walk [OF rep] rep
  by (cases "rsize r") (auto simp: ring_pos_def rep_def Let_def split: if_splits)

lemma rep_deq:
  assumes rep: "rep r ((p, x) # bs)"
  shows "\<exists>r'. ring_deq lo slen touch r = Some (p, r') \<and> rep r' bs \<and>
           rmem r' = touch (rmem r) p"
proof -
  from rep have st: "stored (rmem r) (p, x)" and rest: "\<And>q y. (q, y) \<in> set bs \<Longrightarrow> stored (rmem r) (q, y)"
    and n: "rsize r = Suc (length bs)" and lo: "lo \<le> rhead r"
    by (auto simp: rep_def)
  note pos = ring_pos_rep [OF rep] and sl = stored_slen [OF st] and lpos = stored_len_pos [OF st]
  define r' where "r' = r\<lparr>rhead := p + len x,
      rroll := (if rroll r = Some (rhead r) then None else rroll r),
      rsize := rsize r - 1, rmem := touch (rmem r) p\<rparr>"
  have deq: "ring_deq lo slen touch r = Some (p, r')"
    using n pos sl by (simp add: ring_deq_def Let_def r'_def)
  from st obtain m0 where ag: "agree_on p (len x) (put x m0 p) (rmem r)" and wf: "wfm x"
    by (auto simp: stored_def)
  have keep: "stored (rmem r') (q, y)"
    if "(q, y) \<in> set bs" "q + len y \<le> p \<or> p + len x \<le> q" for q y
  proof -
    have "touch (rmem r) p i = rmem r i" if "q \<le> i" "i < q + len y" for i
      using that \<open>q + len y \<le> p \<or> p + len x \<le> q\<close> by (intro touch_frame [OF wf ag]) auto
    then have "agree_on q (len y) (rmem r) (rmem r')"
      by (simp add: agree_on_def r'_def)
    with rest [OF that(1)] show ?thesis
      by (rule stored_agree)
  qed
  have "rep r' bs"
  proof (cases "rroll r")
    case None
    with rep have c: "p = rhead r" "chain len (p + len x) bs (rtail r)" "rtail r \<le> hi"
      by (auto simp: rep_def)
    with None n lo keep chain_member [OF c(2)] show ?thesis
      by (auto simp: rep_def r'_def)
  next
    case (Some q)
    with rep obtain xs ys where bs: "(p, x) # bs = xs @ ys" "ys \<noteq> []"
      and cx: "chain len (rhead r) xs q" and cy: "chain len lo ys (rtail r)"
      and le: "rtail r \<le> rhead r" "q \<le> hi"
      by (auto simp: rep_def)
    show ?thesis
    proof (cases xs)
      case Nil
      with bs cx cy have eq: "q = rhead r" "p = lo" "ys = (p, x) # bs"
        and c: "chain len (p + len x) bs (rtail r)"
        by auto
      have "rtail r \<le> hi"
        using le eq by simp
      with Some n eq keep chain_member [OF c] c show ?thesis
        by (auto simp: rep_def r'_def)
    next
      case (Cons px xs')
      with bs cx have eq: "p = rhead r" "bs = xs' @ ys" and c: "chain len (p + len x) xs' q"
        by auto
      have "q \<noteq> rhead r"
        using chain_le [OF c] lpos eq by auto
      moreover have "stored (rmem r') (a, y)" if "(a, y) \<in> set bs" for a y
        using that eq le chain_member [OF c, of a y] chain_member [OF cy, of a y]
        by (intro keep [OF that]) fastforce
      ultimately show ?thesis
        using Some n eq c cy le bs(2) lo by (auto simp: rep_def r'_def)
    qed
  qed
  with deq show ?thesis
    by (auto simp: r'_def)
qed

lemma chain_length:
  "chain len a bs b \<Longrightarrow> \<forall>px \<in> set bs. stored m px \<Longrightarrow> a + length bs \<le> b"
proof (induction bs arbitrary: a)
  case (Cons px bs)
  obtain p x where px: "px = (p, x)" by fastforce
  with Cons have "a + len x + length bs \<le> b" "0 < len x"
    by (auto intro: stored_len_pos)
  then show ?case by simp
qed simp

lemma rep_bounds:
  assumes "rep r bs"
  shows "lo \<le> rhead r" "rhead r \<le> hi" "lo \<le> rtail r" "rtail r \<le> hi" "rsize r \<le> hi"
    and "rroll r = Some q \<Longrightarrow> lo \<le> q \<and> q \<le> hi"
proof -
  have n: "length bs = rsize r" and st: "\<forall>px \<in> set bs. stored (rmem r) px" and lo: "lo \<le> rhead r"
    using assms by (auto simp: rep_def)
  have "rhead r \<le> hi \<and> lo \<le> rtail r \<and> rtail r \<le> hi \<and> rsize r \<le> hi \<and>
    (rroll r = Some q \<longrightarrow> lo \<le> q \<and> q \<le> hi)"
  proof (cases "rroll r")
    case None
    then have c: "chain len (rhead r) bs (rtail r)" "rtail r \<le> hi"
      using assms by (auto simp: rep_def)
    with None chain_le [OF c(1)] chain_length [OF c(1) st] n lo show ?thesis
      by simp
  next
    case (Some z)
    then obtain xs ys where bs: "bs = xs @ ys" and cx: "chain len (rhead r) xs z"
      and cy: "chain len lo ys (rtail r)" and le: "rtail r \<le> rhead r" "z \<le> hi"
      using assms by (auto simp: rep_def)
    have "rhead r + length xs \<le> z" "lo + length ys \<le> rtail r"
      using chain_length [OF cx, of "rmem r"] chain_length [OF cy, of "rmem r"] st bs by auto
    with Some bs n le lo chain_le [OF cx] chain_le [OF cy] show ?thesis
      by simp
  qed
  with lo show "lo \<le> rhead r" "rhead r \<le> hi" "lo \<le> rtail r" "rtail r \<le> hi" "rsize r \<le> hi"
    "rroll r = Some q \<Longrightarrow> lo \<le> q \<and> q \<le> hi"
    by blast+
qed

text \<open>Enqueueing writes inside the buffer, and not into a stored item.\<close>

lemma rep_enq_frame:
  assumes rep: "rep r bs" and wf: "wfm x" and enq: "ring_enq lo hi len put x r = Some r'"
    and i: "i < lo \<or> hi \<le> i \<or> (\<exists>(p, y) \<in> set bs. p \<le> i \<and> i < p + len y)"
  shows "rmem r' i = rmem r i"
proof -
  note bd = rep_bounds [OF rep]
  obtain a where r': "rmem r' = put x (rmem r) a" and a: "lo \<le> a" "a + len x \<le> hi"
    and free: "\<And>p y. (p, y) \<in> set bs \<Longrightarrow> p + len y \<le> a \<or> a + len x \<le> p"
  proof (cases "rroll r")
    case None
    then have c: "chain len (rhead r) bs (rtail r)"
      using rep by (auto simp: rep_def)
    with None enq bd that [of lo] that [of "rtail r"] chain_member [OF c] show ?thesis
      by (fastforce simp: ring_enq_def split: if_splits)
  next
    case (Some z)
    then obtain xs ys where bs: "bs = xs @ ys" and c: "chain len (rhead r) xs z"
      "chain len lo ys (rtail r)"
      using rep by (auto simp: rep_def)
    with Some enq bd that [of "rtail r"] chain_member [OF c(1)] chain_member [OF c(2)] show ?thesis
      by (fastforce simp: ring_enq_def split: if_splits)
  qed
  have "i < a \<or> a + len x \<le> i"
    using i a free by fastforce
  then show ?thesis
    by (simp add: r' put_frame [OF wf])
qed

lemma rep_unique_size: "rep r bs \<Longrightarrow> rsize r = 0 \<longleftrightarrow> bs = []"
  by (auto simp: rep_def)

end

text \<open>
  Every codec gives a bounded queue: the ring operations with the abstraction \<open>ring_abs\<close>.
\<close>

definition ring_take ::
  "nat \<Rightarrow> (mem \<Rightarrow> nat \<Rightarrow> nat) \<Rightarrow> (mem \<Rightarrow> nat \<Rightarrow> mem) \<Rightarrow> (mem \<Rightarrow> nat \<Rightarrow> 'v option) \<Rightarrow> ring \<Rightarrow>
     ('v \<times> ring) option" where
  "ring_take lo slen touch get r =
     map_option (\<lambda>(p, r'). (the (get (rmem r) p), r')) (ring_deq lo slen touch r)"

sublocale item_codec \<subseteq> ring: bounded_fifo
    "ring_enq lo hi len put" "ring_take lo slen touch get" "ring_abs lo slen get"
    "\<lambda>r. \<exists>bs. rep r bs" wfm nrm
proof (unfold_locales, goal_cases)
  case (1 q x q')
  then show ?case using rep_enq by blast
next
  case (2 q x q')
  then obtain bs p where "rep q bs" "rep q' (bs @ [(p, x)])"
    using rep_enq by blast
  then show ?case by (simp add: rep_abs)
next
  case (3 q)
  then obtain bs where bs: "rep q bs" by blast
  then have "rsize q = 0 \<longleftrightarrow> bs = []"
    by (auto simp: rep_def)
  then show ?case
    by (simp add: rep_abs [OF bs] ring_take_def ring_deq_def Let_def)
next
  case (4 q y q')
  then obtain bs where bs: "rep q bs" by blast
  with 4(2) obtain p x bs' where "bs = (p, x) # bs'"
    by (cases bs) (auto simp: ring_take_def ring_deq_def rep_def)
  with rep_deq bs 4(2) show ?case
    by (fastforce simp: ring_take_def)
next
  case (5 q y q')
  then obtain bs where bs: "rep q bs" by blast
  with 5(2) obtain p x bs' where b: "bs = (p, x) # bs'"
    by (cases bs) (auto simp: ring_take_def ring_deq_def rep_def)
  with rep_deq bs obtain r' where r': "ring_deq lo slen touch q = Some (p, r')" "rep r' bs'"
    by blast
  have "stored (rmem q) (p, x)"
    using bs b by (simp add: rep_def)
  with 5(2) r' bs b show ?case
    by (auto simp: ring_take_def rep_abs stored_get)
qed

end
