(* ===== verification/CircularMsgQ.thy ===== *)
theory CircularMsgQ
  imports MessageCodec RingBuffer
begin

text \<open>
  The message queue (\<open>TaskSystem/src/MsgQueue/CircularMsgQ.c\<close>): a ring of variable-size messages in
  a named shared-memory segment of \<open>Q_SIZE\<close> bytes, which starts with the \<open>struct Queue\<close> header.  The
  bodies below are what the operations do while they hold \<open>QLock\<close>; offsets are kept at their 32 bit
  width and compared as signed or unsigned exactly where the source does.

  The first part is the translation.  The second part shows that, as long as the messages are
  well-formed, every operation is the one of the ring of \<open>RingBuffer\<close> on natural numbers (no
  wrap-around takes place), and that the queue is a bounded first-in first-out queue.
\<close>

section \<open>Definitions\<close>

definition Q_SIZE :: nat where
  "Q_SIZE = 1000000"

definition Queue_struct :: struct where
  "Queue_struct =
     [(''QLock'', CMutex), (''head'', CUInt), (''tail'', CUInt), (''size'', CUInt),
      (''rollover_position'', CInt)]"

record Queue =
  qhead :: cint
  qtail :: cint
  qsize :: cint
  rollover_position :: cint
  qmem :: mem

text \<open>
  Named shared-memory objects: a name refers to a segment, segments outlive their names, and a new
  segment is all zeros.  \<open>os\<close> is what the system calls return for one invocation.
\<close>

record shm =
  shm_names :: "string \<Rightarrow> nat option"
  shm_segs :: "nat \<Rightarrow> Queue"
  shm_next :: nat

record os =
  shm_open_ok :: bool
  ftruncate_ok :: bool
  mmap_addr :: "nat option"

text \<open>A non-null \<open>Queue\<close> pointer of a process: the segment and where the process maps it.\<close>

record qref =
  qr_seg :: nat
  qr_view :: view

definition zero_segment :: Queue where
  "zero_segment =
     \<lparr>qhead = 0, qtail = 0, qsize = 0, rollover_position = 0, qmem = (\<lambda>_. 0)\<rparr>"

text \<open>\<open>shm_open\<close> with \<open>O_CREAT\<close>: the existing object, or a new one.\<close>

definition shm_open_create :: "shm \<Rightarrow> string \<Rightarrow> shm \<times> nat" where
  "shm_open_create s name =
     (case shm_names s name of
        Some g \<Rightarrow> (s, g)
      | None \<Rightarrow> (s\<lparr>shm_names := (shm_names s)(name := Some (shm_next s)),
                   shm_segs := (shm_segs s)(shm_next s := zero_segment),
                   shm_next := Suc (shm_next s)\<rparr>, shm_next s))"

text \<open>The assignments \<open>CreateQueue\<close> makes to the mapped header.\<close>

definition init_queue :: "Queue \<Rightarrow> Queue" where
  "init_queue Q =
     Q\<lparr>qsize := 0, qhead := of_nat (sizeof Queue_struct), qtail := of_nat (sizeof Queue_struct),
       rollover_position := - 1\<rparr>"

definition CreateQueue :: "os \<Rightarrow> shm \<Rightarrow> string \<Rightarrow> (shm \<times> qref) res" where
  "CreateQueue e s name =
     (if \<not> shm_open_ok e then Inl (ExitCall (-1))
      else let (s1, g) = shm_open_create s name in
        if \<not> ftruncate_ok e then Inl (ExitCall (-1))
        else case mmap_addr e of
               None \<Rightarrow> Inl (ExitCall (-1))
             | Some base \<Rightarrow>
                 Inr (s1\<lparr>shm_segs := (shm_segs s1)(g := init_queue (shm_segs s1 g))\<rparr>,
                      \<lparr>qr_seg = g, qr_view = \<lparr>vbase = base, vlen = Q_SIZE\<rparr>\<rparr>))"

definition AcquireQueue :: "os \<Rightarrow> shm \<Rightarrow> string \<Rightarrow> qref option" where
  "AcquireQueue e s name =
     (if \<not> shm_open_ok e then None
      else case shm_names s name of
             None \<Rightarrow> None
           | Some g \<Rightarrow> (case mmap_addr e of
                          None \<Rightarrow> None
                        | Some base \<Rightarrow>
                            Some \<lparr>qr_seg = g, qr_view = \<lparr>vbase = base, vlen = Q_SIZE\<rparr>\<rparr>))"

definition DeleteQueue :: "shm \<Rightarrow> string \<Rightarrow> shm" where
  "DeleteQueue s name = s\<lparr>shm_names := (shm_names s)(name := None)\<rparr>"

definition IsEmpty_not_safe :: "Queue \<Rightarrow> bool" where
  "IsEmpty_not_safe Q = (qsize Q = 0)"

definition IsEmpty :: "shm \<Rightarrow> qref option \<Rightarrow> cint" where
  "IsEmpty s Q =
     (case Q of None \<Rightarrow> 0
      | Some q \<Rightarrow> if qsize (shm_segs s (qr_seg q)) = 0 then 1 else 0)"

text \<open>\<open>Peek\<close>: the offset of the oldest message; locking a null queue is a fault.\<close>

definition Peek_body :: "Queue \<Rightarrow> nat option" where
  "Peek_body Q =
     (if IsEmpty_not_safe Q then None
      else let read_pos = (if qhead Q = rollover_position Q
                           then of_nat (sizeof Queue_struct) else qhead Q)
           in Some (nat (sint read_pos)))"

definition Peek :: "shm \<Rightarrow> qref option \<Rightarrow> nat option res" where
  "Peek s Q =
     (case Q of None \<Rightarrow> Inl NullDeref
      | Some q \<Rightarrow> Inr (Peek_body (shm_segs s (qr_seg q))))"

text \<open>The end of \<open>Enqueue\<close>, once the new tail and the roll-over decision are known.\<close>

definition Enqueue_write ::
  "view \<Rightarrow> Queue \<Rightarrow> message \<Rightarrow> cint \<Rightarrow> cint \<Rightarrow> (Queue \<times> message \<times> cint) res" where
  "Enqueue_write v Q item future_tail has_to_rollover =
     (let at = sint future_tail - sint (msg_size (header_of item)) in
      if at < 0 then Inl OutOfBounds
      else bindR (writeAt v item (qmem Q) (nat at)) (\<lambda>(item', m, written).
        let Q1 = Q\<lparr>qmem := m, qtail := future_tail\<rparr>;
            Q2 = (if sint has_to_rollover > 0
                  then Q1\<lparr>rollover_position := has_to_rollover\<rparr> else Q1)
        in Inr (Q2\<lparr>qsize := qsize Q2 + 1\<rparr>, item', 1)))"

definition Enqueue_body :: "view \<Rightarrow> Queue \<Rightarrow> message \<Rightarrow> (Queue \<times> message \<times> cint) res" where
  "Enqueue_body v Q item =
     (let sz = msg_size (header_of item);
          future_tail = qtail Q + sz in
      if rollover_position Q = - 1 then
        (if sint future_tail > int Q_SIZE then
           (let future_tail = of_nat (sizeof Queue_struct) + sz;
                has_to_rollover = qtail Q in
            if has_to_rollover \<noteq> - 1 \<and> future_tail > qhead Q then Inr (Q, item, 0)
            else Enqueue_write v Q item future_tail has_to_rollover)
         else Enqueue_write v Q item future_tail (- 1))
      else if future_tail > qhead Q then Inr (Q, item, 0)
      else Enqueue_write v Q item future_tail (- 1))"

definition Enqueue ::
  "shm \<Rightarrow> qref option \<Rightarrow> message option \<Rightarrow> (shm \<times> message option \<times> cint) res" where
  "Enqueue s Q item =
     (case (Q, item) of
        (Some q, Some x) \<Rightarrow>
          bindR (Enqueue_body (qr_view q) (shm_segs s (qr_seg q)) x) (\<lambda>(Q', x', r).
            Inr (s\<lparr>shm_segs := (shm_segs s)(qr_seg q := Q')\<rparr>, Some x', r))
      | _ \<Rightarrow> Inr (s, item, 0))"

text \<open>
  \<open>Dequeue\<close> returns a pointer into the segment (an offset here) whose method slots it has re-bound;
  a message of a class without a rebind function is consumed and null is returned.
\<close>

definition Dequeue_body :: "view \<Rightarrow> Queue \<Rightarrow> (Queue \<times> (nat \<times> msg_class option) option) res" where
  "Dequeue_body v Q =
     (if IsEmpty_not_safe Q then Inr (Q, None)
      else
        let wraps = (qhead Q = rollover_position Q);
            read_pos = (if wraps then of_nat (sizeof Queue_struct) else qhead Q);
            p = nat (sint read_pos);
            Q1 = Q\<lparr>rollover_position := (if wraps then - 1 else rollover_position Q),
                   qhead := read_pos + load32 (qmem Q) (p + offset_of Message_struct ''msg_size''),
                   qsize := qsize Q - 1\<rparr>;
            t = sint (load32 (qmem Q) (p + offset_of Message_struct ''tid''))
        in if t < 0 \<or> int MAX_MESSAGE_TYPE \<le> t then Inl OutOfBounds
           else case build_mapping ! nat t of
                  None \<Rightarrow> Inr (Q1, None)
                | Some c \<Rightarrow> (let (m, ms) = rebind c v (qmem Q) p
                             in Inr (Q1\<lparr>qmem := m\<rparr>, Some (p, ms))))"

definition Dequeue ::
  "shm \<Rightarrow> qref option \<Rightarrow> (shm \<times> (nat \<times> msg_class option) option) res" where
  "Dequeue s Q =
     (case Q of None \<Rightarrow> Inl NullDeref
      | Some q \<Rightarrow>
          bindR (Dequeue_body (qr_view q) (shm_segs s (qr_seg q))) (\<lambda>(Q', r).
            Inr (s\<lparr>shm_segs := (shm_segs s)(qr_seg q := Q')\<rparr>, r)))"

section \<open>The abstract queue\<close>

text \<open>
  The queue as a ring on natural numbers, the messages it can carry, and the list of messages it
  holds.  An item is a message with the mapping of the process that sends it.  The bound on the
  size keeps the signed comparison of \<open>Enqueue\<close> away from overflow.
\<close>

definition ring_of :: "Queue \<Rightarrow> ring" where
  "ring_of Q =
     \<lparr>rhead = unat (qhead Q), rtail = unat (qtail Q), rsize = unat (qsize Q),
      rroll = (if rollover_position Q = - 1 then None else Some (unat (rollover_position Q))),
      rmem = qmem Q\<rparr>"

definition receiver_ok :: "blocks \<Rightarrow> view \<Rightarrow> bool" where
  "receiver_ok b v \<longleftrightarrow> blocks_ok b \<and> wf_view v \<and> vlen v = Q_SIZE"

definition wf_item :: "blocks \<Rightarrow> view \<Rightarrow> view \<times> message \<Rightarrow> bool" where
  "wf_item b v wx \<longleftrightarrow>
     receiver_ok b v \<and> wf_msg (snd wx) \<and> msg_len (snd wx) < 2 ^ 31 - Q_SIZE"

definition get_msg :: "blocks \<Rightarrow> view \<Rightarrow> mem \<Rightarrow> nat \<Rightarrow> message option" where
  "get_msg b v m a =
     (case read_msg b v m a of Inl _ \<Rightarrow> None | Inr y \<Rightarrow> Some (norm_msg y))"

definition stored_len :: "mem \<Rightarrow> nat \<Rightarrow> nat" where
  "stored_len m a = unat (load32 m (a + offset_of Message_struct ''msg_size''))"

text \<open>What \<open>Dequeue\<close> does to the bytes of the message it takes out.\<close>

definition touch_msg :: "view \<Rightarrow> mem \<Rightarrow> nat \<Rightarrow> mem" where
  "touch_msg v m a =
     (let t = sint (load32 m (a + offset_of Message_struct ''tid'')) in
      if t < 0 \<or> int MAX_MESSAGE_TYPE \<le> t then m
      else case build_mapping ! nat t of None \<Rightarrow> m | Some c \<Rightarrow> fst (rebind c v m a))"

definition q_abs :: "blocks \<Rightarrow> view \<Rightarrow> Queue \<Rightarrow> message list" where
  "q_abs b v Q = ring_abs (sizeof Queue_struct) stored_len (get_msg b v) (ring_of Q)"

text \<open>The bytes of the messages that are in the queue.\<close>

definition queued_byte :: "Queue \<Rightarrow> nat \<Rightarrow> bool" where
  "queued_byte Q i \<longleftrightarrow>
     (\<exists>p \<in> set (ring_walk (sizeof Queue_struct) stored_len (qmem Q) (unat (qsize Q)) (unat (qhead Q))
                (rroll (ring_of Q))). p \<le> i \<and> i < p + stored_len (qmem Q) p)"

text \<open>One send and one receive as the clients see them.\<close>

definition q_send :: "view \<times> message \<Rightarrow> Queue \<Rightarrow> Queue option" where
  "q_send wx Q =
     (case Enqueue_body (fst wx) Q (snd wx) of
        Inr (Q', _, r) \<Rightarrow> if r = 1 then Some Q' else None
      | Inl _ \<Rightarrow> None)"

definition q_receive :: "blocks \<Rightarrow> view \<Rightarrow> Queue \<Rightarrow> (message \<times> Queue) option" where
  "q_receive b v Q =
     (case Dequeue_body v Q of
        Inr (Q', Some (p, ms)) \<Rightarrow>
          (case clone_at b v ms (qmem Q') p of
             Inr y \<Rightarrow> Some (norm_msg y, Q')
           | Inl _ \<Rightarrow> None)
      | _ \<Rightarrow> None)"

section \<open>The codec of messages\<close>

lemma Queue_layout [layout, simp]: "sizeof Queue_struct = 56"
  by code_simp

lemma class_id_index:
  "\<not> sint (class_id c) < 0" "\<not> int MAX_MESSAGE_TYPE \<le> sint (class_id c)"
  "build_mapping ! nat (sint (class_id c)) = Some c"
  by (cases c; simp add: MAX_MESSAGE_TYPE_def build_mapping_def)+

lemma touch_msg_class:
  "load32 m (a + 4) = class_id c \<Longrightarrow> touch_msg v m a = fst (rebind c v m a)"
  using class_id_index [of c] by (simp add: touch_msg_def Let_def)

interpretation mq: item_codec
    "wf_item b v" "\<lambda>wx. msg_len (snd wx)" "\<lambda>wx. write_mem (fst wx) (snd wx)" "get_msg b v"
    stored_len "touch_msg v" "\<lambda>wx. norm_msg (snd wx)" "sizeof Queue_struct" Q_SIZE
    for b v
proof (unfold_locales, goal_cases)
  case (1 x)
  then show ?case
    using wf_msg_header(3) [of "snd x"] by (simp add: wf_item_def)
next
  case (2 x i a m)
  then show ?case
    by (simp add: wf_item_def writeAt_frame)
next
  case (3 x a m m')
  then have "map_sum id norm_msg (read_msg b v m' a) = Inr (norm_msg (snd x))"
    by (intro codec_roundtrip [where w = "fst x" and m = m])
      (simp_all add: wf_item_def receiver_ok_def)
  then show ?case
    by (cases "read_msg b v m' a") (auto simp: get_msg_def)
next
  case (4 x a m m')
  then show ?case
    using stored_header(3) [of "snd x" a "fst x" m m']
    by (simp add: wf_item_def stored_len_def msg_len_def)
next
  case (5 x a m m' i)
  then have wf: "wf_msg (snd x)"
    by (simp add: wf_item_def)
  have "load32 m' (a + 4) = class_id (class_of (snd x))"
    using stored_header(2) [OF wf 5(2)] wf_msg_header(2) [OF wf] by simp
  then have "touch_msg v m' a = fst (rebind (class_of (snd x)) v m' a)"
    by (rule touch_msg_class)
  with rebind_frame [OF wf, of v m' a] 5(3) show ?case
    by (metis prod.collapse)
qed

section \<open>Refinement of the ring\<close>

lemma Q_SIZE_bounds [simp]: "Q_SIZE < 2 ^ 31" "sizeof Queue_struct \<le> Q_SIZE"
  by (simp_all add: Q_SIZE_def)

lemma rep_Queue_bounds:
  assumes "mq.rep b v (ring_of Q) bs"
  shows "56 \<le> unat (qhead Q)" "unat (qhead Q) \<le> Q_SIZE" "56 \<le> unat (qtail Q)"
    "unat (qtail Q) \<le> Q_SIZE" "unat (qsize Q) \<le> Q_SIZE"
    "rollover_position Q \<noteq> - 1 \<Longrightarrow>
       56 \<le> unat (rollover_position Q) \<and> unat (rollover_position Q) \<le> Q_SIZE"
  using mq.rep_bounds [OF assms] by (auto simp: ring_of_def)

text \<open>Sums of an offset and a message size neither wrap nor turn negative.\<close>

lemma offset_plus_size:
  fixes off sz :: cint
  assumes "unat off \<le> Q_SIZE" "n < 2 ^ 31 - Q_SIZE" "unat sz = n"
  shows "unat (off + sz) = unat off + n" "sint (off + sz) = int (unat off + n)"
    "sint (off + sz) - sint sz = int (unat off)"
proof -
  have sum: "unat off + n < 2 ^ 31"
    using assms by (simp add: Q_SIZE_def)
  then show u: "unat (off + sz) = unat off + n"
    using unat_plus_small [of off sz] assms by simp
  from sum u show s: "sint (off + sz) = int (unat off + n)"
    using sint_small [of "off + sz"] by simp
  show "sint (off + sz) - sint sz = int (unat off)"
    using s sint_small [of sz] assms by (simp add: Q_SIZE_def)
qed

lemma Enqueue_write_wf:
  assumes wf: "wf_msg x" and pos: "0 \<le> sint ft - sint (msg_size (header_of x))"
    and roll: "has = - 1 \<or> 0 < sint has"
  shows "Enqueue_write w Q x ft has =
     Inr (Q\<lparr>qmem := write_mem w x (qmem Q) (nat (sint ft - sint (msg_size (header_of x)))),
            qtail := ft,
            rollover_position := (if has = - 1 then rollover_position Q else has),
            qsize := qsize Q + 1\<rparr>, after_write x, 1)"
proof -
  obtain r where "writeAt w x (qmem Q) (nat (sint ft - sint (msg_size (header_of x)))) =
      Inr (after_write x, write_mem w x (qmem Q) (nat (sint ft - sint (msg_size (header_of x)))), r)"
    using writeAt_total [OF wf] by blast
  with pos roll show ?thesis
    by (auto simp: Enqueue_write_def Let_def)
qed

lemma Enqueue_refines:
  assumes rep: "mq.rep b v (ring_of Q) bs" and wf: "wf_item b v (w, x)"
  shows "case ring_enq (sizeof Queue_struct) Q_SIZE (\<lambda>wx. msg_len (snd wx))
            (\<lambda>wx. write_mem (fst wx) (snd wx)) (w, x) (ring_of Q) of
           None \<Rightarrow> Enqueue_body w Q x = Inr (Q, x, 0)
         | Some r \<Rightarrow> \<exists>Q'. Enqueue_body w Q x = Inr (Q', after_write x, 1) \<and> ring_of Q' = r"
proof -
  let ?sz = "msg_size (header_of x)" and ?hdr = "of_nat (sizeof Queue_struct) :: cint"
  note bd = rep_Queue_bounds [OF rep]
  from wf have wfx: "wf_msg x" and small: "msg_len x < 2 ^ 31 - Q_SIZE"
    by (simp_all add: wf_item_def)
  have sz: "unat ?sz = msg_len x"
    by (simp add: msg_len_def)
  note tail = offset_plus_size [OF bd(4) small sz]
  have hdr: "unat ?hdr \<le> Q_SIZE" "unat ?hdr = 56"
    by (simp_all add: Q_SIZE_def)
  note start = offset_plus_size [OF hdr(1) small sz]
  have qs: "unat (qsize Q + 1) = Suc (unat (qsize Q))"
    using bd(5) unat_plus_small [of "qsize Q" 1] by (simp add: Q_SIZE_def)
  have t1: "qtail Q \<noteq> - 1"
    using bd(4) not_neg_one [of "qtail Q"] by (simp add: Q_SIZE_def)
  have "sint (qtail Q) = int (unat (qtail Q))"
    using bd(4) by (intro sint_small) (simp add: Q_SIZE_def)
  with bd(3) have tpos: "0 < sint (qtail Q)"
    by linarith
  have big: "int Q_SIZE < sint (qtail Q + ?sz) \<longleftrightarrow> Q_SIZE < unat (qtail Q) + msg_len x"
    by (simp only: tail(2) of_nat_less_iff)
  show ?thesis
  proof (cases "rollover_position Q = - 1")
    case True
    then show ?thesis
      using t1 tpos qs hdr(2) tail(1,3) start(1,3) big
      by (auto simp: ring_enq_def ring_of_def Enqueue_body_def Let_def Enqueue_write_wf [OF wfx]
          word_less_nat_alt)
  next
    case False
    then show ?thesis
      using qs tail(1,3)
      by (auto simp: ring_enq_def ring_of_def Enqueue_body_def Let_def Enqueue_write_wf [OF wfx]
          word_less_nat_alt)
  qed
qed


text \<open>What the receiver finds at the offset of a stored message.\<close>

lemma stored_msg:
  assumes "mq.stored b v m (p, w, x)"
  shows "load32 m (p + 4) = class_id (class_of x)" "unat (load32 m (p + 8)) = msg_len x"
    "\<exists>y. read_msg b v m p = Inr y \<and> norm_msg y = norm_msg x"
    "wf_msg x" "p + msg_len x \<le> Q_SIZE" "load32 m p = tag (header_of x)"
proof -
  obtain m0 where wf: "wf_item b v (w, x)" and ag: "agree_on p (msg_len x) (write_mem w x m0 p) m"
    and fit: "p + msg_len x \<le> Q_SIZE"
    using assms by (auto simp: mq.stored_def)
  then show wfx: "wf_msg x" and "p + msg_len x \<le> Q_SIZE"
    by (simp_all add: wf_item_def)
  show "load32 m (p + 4) = class_id (class_of x)"
    using stored_header(2) [OF wfx ag] wf_msg_header(2) [OF wfx] by simp
  show "load32 m p = tag (header_of x)"
    using stored_header(1) [OF wfx ag] .
  show "unat (load32 m (p + 8)) = msg_len x"
    using stored_header(3) [OF wfx ag] by (simp add: msg_len_def)
  have "map_sum id norm_msg (read_msg b v m p) = Inr (norm_msg x)"
    using wf fit by (intro codec_roundtrip [OF wfx _ _ _ ag]) (simp_all add: wf_item_def receiver_ok_def)
  then show "\<exists>y. read_msg b v m p = Inr y \<and> norm_msg y = norm_msg x"
    by (cases "read_msg b v m p") auto
qed

lemma read_msg_at_class:
  assumes "load32 m (p + 4) = class_id c"
  shows "read_msg b v m p = clone_at b v (snd (rebind c v m p)) (fst (rebind c v m p)) p"
  using read_msg_of_class [OF assms] by (simp add: case_prod_beta)

lemma Dequeue_refines:
  assumes rep: "mq.rep b v (ring_of Q) ((p, w, x) # bs)"
  shows "\<exists>Q' ms y. Dequeue_body v Q = Inr (Q', Some (p, ms)) \<and>
           ring_deq (sizeof Queue_struct) stored_len (touch_msg v) (ring_of Q) = Some (p, ring_of Q') \<and>
           clone_at b v ms (qmem Q') p = Inr y \<and> norm_msg y = norm_msg x \<and>
           ms = snd (rebind (class_of x) v (qmem Q) p)"
proof -
  let ?r = "if qhead Q = rollover_position Q then of_nat (sizeof Queue_struct) else qhead Q"
  note bd = rep_Queue_bounds [OF rep]
  have h1: "qhead Q \<noteq> - 1"
    using bd(2) not_neg_one [of "qhead Q"] by (simp add: Q_SIZE_def)
  have n: "unat (qsize Q) = Suc (length bs)" and st: "mq.stored b v (qmem Q) (p, w, x)"
    using rep unfolding mq.rep_def by (simp_all add: ring_of_def)
  note sm = stored_msg [OF st]
  have roll: "rroll (ring_of Q) = Some (rhead (ring_of Q)) \<longleftrightarrow> qhead Q = rollover_position Q"
    using h1 by (auto simp: ring_of_def intro: word_unat_eq_iff [THEN iffD2])
  have r: "unat ?r = p"
    using mq.ring_pos_rep [OF rep] roll by (auto simp: ring_pos_def ring_of_def)
  then have r': "nat (sint ?r) = p"
    using sm(5) sint_small [of ?r] by (simp add: Q_SIZE_def)
  have hd: "unat (?r + load32 (qmem Q) (p + 8)) = p + msg_len x"
    using unat_plus_small [of ?r "load32 (qmem Q) (p + 8)"] r sm(2,5) by (simp add: Q_SIZE_def)
  have sz: "unat (qsize Q - 1) = unat (qsize Q) - 1"
    using n by (simp add: unat_sub word_le_nat_alt)
  have ne: "\<not> IsEmpty_not_safe Q"
    using n by (auto simp: IsEmpty_not_safe_def)
  let ?c = "class_of x"
  define Q' where "Q' = Q\<lparr>
      rollover_position := (if qhead Q = rollover_position Q then - 1 else rollover_position Q),
      qhead := ?r + load32 (qmem Q) (p + 8), qsize := qsize Q - 1,
      qmem := fst (rebind ?c v (qmem Q) p)\<rparr>"
  have deq: "Dequeue_body v Q = Inr (Q', Some (p, snd (rebind ?c v (qmem Q) p)))"
    using ne r' sm(1) class_id_index [of ?c]
    by (simp add: Dequeue_body_def Let_def case_prod_beta Q'_def)
  have "ring_deq (sizeof Queue_struct) stored_len (touch_msg v) (ring_of Q) = Some (p, ring_of Q')"
    using n roll mq.ring_pos_rep [OF rep] hd sz sm(2) touch_msg_class [OF sm(1), of v]
    by (auto simp: ring_deq_def Let_def stored_len_def ring_of_def Q'_def)
  moreover obtain y where "read_msg b v (qmem Q) p = Inr y" "norm_msg y = norm_msg x"
    using sm(3) by blast
  ultimately show ?thesis
    using deq read_msg_at_class [OF sm(1), of b v] by (auto simp: Q'_def)
qed


section \<open>The queue is a bounded first-in first-out queue\<close>

text \<open>The invariant of the queue: the ring holds some list of well-formed messages.\<close>

definition queue_inv :: "blocks \<Rightarrow> view \<Rightarrow> Queue \<Rightarrow> bool" where
  "queue_inv b v Q \<longleftrightarrow> (\<exists>bs. mq.rep b v (ring_of Q) bs)"

lemma queue_invI [intro]: "mq.rep b v (ring_of Q) bs \<Longrightarrow> queue_inv b v Q"
  by (auto simp: queue_inv_def)

lemma q_abs_rep: "mq.rep b v (ring_of Q) bs \<Longrightarrow> q_abs b v Q = map (\<lambda>px. norm_msg (snd (snd px))) bs"
  unfolding q_abs_def by (simp only: mq.rep_abs o_def)

lemma Enqueue_cases:
  assumes rep: "mq.rep b v (ring_of Q) bs" and wf: "wf_item b v (w, x)"
  obtains (refused) "Enqueue_body w Q x = Inr (Q, x, 0)"
  | (accepted) Q' p where "Enqueue_body w Q x = Inr (Q', after_write x, 1)"
      "mq.rep b v (ring_of Q') (bs @ [(p, w, x)])"
proof (cases "ring_enq (sizeof Queue_struct) Q_SIZE (\<lambda>wx. msg_len (snd wx))
    (\<lambda>wx. write_mem (fst wx) (snd wx)) (w, x) (ring_of Q)")
  case None
  with Enqueue_refines [OF rep wf] refused show ?thesis by simp
next
  case (Some r)
  with Enqueue_refines [OF rep wf] obtain Q' where
    "Enqueue_body w Q x = Inr (Q', after_write x, 1)" "ring_of Q' = r" by auto
  with mq.rep_enq [OF rep wf Some] accepted show ?thesis by auto
qed

lemma Dequeue_empty: "mq.rep b v (ring_of Q) [] \<Longrightarrow> Dequeue_body v Q = Inr (Q, None)"
  using mq.rep_unique_size [of b v "ring_of Q" "[]"]
  by (simp add: Dequeue_body_def IsEmpty_not_safe_def ring_of_def unat_eq_0)

lemma Dequeue_first:
  assumes rep: "mq.rep b v (ring_of Q) ((p, w, x) # bs)"
  obtains Q' ms y where "Dequeue_body v Q = Inr (Q', Some (p, ms))"
    "mq.rep b v (ring_of Q') bs" "clone_at b v ms (qmem Q') p = Inr y" "norm_msg y = norm_msg x"
  using Dequeue_refines [OF rep] mq.rep_deq [OF rep] by fastforce

lemma Peek_of_Dequeue: "Dequeue_body v Q = Inr (Q', Some (p, ms)) \<Longrightarrow> Peek_body Q = Some p"
  by (auto simp: Peek_body_def Dequeue_body_def Let_def split: if_splits option.splits prod.splits)

lemma queued_byte_rep:
  assumes rep: "mq.rep b v (ring_of Q) bs"
  shows "queued_byte Q i \<longleftrightarrow> (\<exists>(p, y) \<in> set bs. p \<le> i \<and> i < p + msg_len (snd y))"
proof -
  have "stored_len (qmem Q) (fst px) = msg_len (snd (snd px))" if "px \<in> set bs" for px
    using rep that mq.stored_slen [of b v "qmem Q" "fst px" "snd px"]
    unfolding mq.rep_def by (simp add: ring_of_def)
  with mq.rep_walk [OF rep] show ?thesis
    unfolding queued_byte_def by (force simp: ring_of_def)
qed

lemma q_receive_empty: "mq.rep b v (ring_of Q) [] \<Longrightarrow> q_receive b v Q = None"
  by (simp add: q_receive_def Dequeue_empty)

lemma q_receive_first:
  assumes rep: "mq.rep b v (ring_of Q) ((p, w, x) # bs)"
  shows "\<exists>Q'. q_receive b v Q = Some (norm_msg x, Q') \<and> mq.rep b v (ring_of Q') bs"
  using Dequeue_first [OF rep] by (fastforce simp: q_receive_def)

interpretation cq: bounded_fifo
    q_send "q_receive b v" "q_abs b v" "queue_inv b v" "wf_item b v" "\<lambda>wx. norm_msg (snd wx)"
    for b v
proof -
  have send: "\<exists>bs p. mq.rep b v (ring_of Q) bs \<and> mq.rep b v (ring_of Q') (bs @ [(p, wx)])"
    if "queue_inv b v Q" "wf_item b v wx" "q_send wx Q = Some Q'" for Q wx Q'
  proof -
    from that(1) obtain bs where rep: "mq.rep b v (ring_of Q) bs"
      by (auto simp: queue_inv_def)
    obtain w x where wx: "wx = (w, x)" by fastforce
    from rep that(2) [unfolded wx] show ?thesis
    proof (cases rule: Enqueue_cases)
      case refused
      with that(3) wx show ?thesis by (simp add: q_send_def)
    next
      case (accepted Q1 p)
      with that(3) wx have "Q1 = Q'" by (simp add: q_send_def)
      with rep accepted(2) wx show ?thesis by blast
    qed
  qed
  have recv: "\<exists>p w x bs. mq.rep b v (ring_of Q) ((p, w, x) # bs) \<and> y = norm_msg x \<and>
        mq.rep b v (ring_of Q') bs"
    if "queue_inv b v Q" "q_receive b v Q = Some (y, Q')" for Q y Q'
  proof -
    from that(1) obtain bs where rep: "mq.rep b v (ring_of Q) bs"
      by (auto simp: queue_inv_def)
    with that(2) q_receive_empty obtain p w x bs' where "bs = (p, w, x) # bs'"
      by (cases bs) auto
    with rep q_receive_first [of b v Q p w x bs'] that(2) show ?thesis
      by auto
  qed
  show "bounded_fifo q_send (q_receive b v) (q_abs b v) (queue_inv b v) (wf_item b v)
      (\<lambda>wx. norm_msg (snd wx))"
  proof (unfold_locales, goal_cases)
    case (1 Q wx Q')
    then show ?case using send by blast
  next
    case (2 Q wx Q')
    then show ?case using send [OF 2] by (auto simp: q_abs_rep)
  next
    case (3 Q)
    then obtain bs where rep: "mq.rep b v (ring_of Q) bs" by (auto simp: queue_inv_def)
    show ?case
    proof (cases bs)
      case Nil
      with rep have "mq.rep b v (ring_of Q) []" by simp
      then show ?thesis using q_receive_empty q_abs_rep by fastforce
    next
      case (Cons px bs')
      obtain p w x where "px = (p, w, x)" by (cases px)
      with rep Cons have "mq.rep b v (ring_of Q) ((p, w, x) # bs')" by simp
      then show ?thesis using q_receive_first q_abs_rep by fastforce
    qed
  next
    case (4 Q y Q')
    then show ?case using recv by blast
  next
    case (5 Q y Q')
    then show ?case using recv [OF 5] by (auto simp: q_abs_rep)
  qed
qed


section \<open>Creation\<close>

lemma rep_init_queue: "mq.rep b v (ring_of (init_queue Q)) []"
  by (rule mq.rep_empty) (simp_all add: init_queue_def ring_of_def Q_SIZE_def)

lemma queue_inv_init [simp]: "queue_inv b v (init_queue Q)"
  using rep_init_queue by blast

lemma q_abs_init_queue [simp]: "q_abs b v (init_queue Q) = []"
  using q_abs_rep [OF rep_init_queue, of b v Q] by simp

lemma init_queue_sel [simp]:
  "qhead (init_queue Q) = 56" "qtail (init_queue Q) = 56" "qsize (init_queue Q) = 0"
  "rollover_position (init_queue Q) = - 1" "qmem (init_queue Q) = qmem Q"
  by (simp_all add: init_queue_def)

lemma CreateQueue_seg:
  "CreateQueue e s name = Inr (s', q) \<Longrightarrow> \<exists>Q. shm_segs s' (qr_seg q) = init_queue Q"
  by (auto simp: CreateQueue_def shm_open_create_def Let_def split: if_splits option.splits)

section \<open>Concrete messages\<close>

definition sample_bar :: "cint \<Rightarrow> cint \<Rightarrow> message" where
  "sample_bar t n =
     MBar \<lparr>tag = t, tid = 1, msg_size = 72, methods = Some BarC, bar_value = n\<rparr>"

definition sample_ints :: "nat \<Rightarrow> message" where
  "sample_ints n =
     MIntArray \<lparr>tag = 5, tid = 5, msg_size = of_nat (88 + 4 * n), methods = Some IntArrayC,
       ia_size = of_nat n, ia_values = replicate n 0\<rparr>"

definition sample_blocks :: blocks where
  "sample_blocks =
     \<lparr>blk_bar = Some \<lparr>tag = 0, tid = 0, msg_size = 0, methods = None, bar_value = 0\<rparr>,
      blk_text = Some \<lparr>tag = 0, tid = 0, msg_size = 0, methods = None,
        text_msg = replicate 100 7\<rparr>,
      blk_refint = Some \<lparr>tag = 0, tid = 0, msg_size = 0, methods = None, ria_size = 0,
        ria_values = 0\<rparr>,
      blk_topo = Some \<lparr>tag = 0, tid = 0, msg_size = 0, methods = None, bucket_count = 0,
        root_id = 0, sample_size = 0, topo_data_size = 0, bucket_ids = []\<rparr>,
      blk_int = Some \<lparr>tag = 0, tid = 0, msg_size = 0, methods = None, ia_size = 0,
        ia_values = []\<rparr>,
      blk_done = Some \<lparr>tag = 0, tid = 0, msg_size = 0, methods = None, success = 0\<rparr>,
      blk_reftwo = Some \<lparr>tag = 0, tid = 0, msg_size = 0, methods = None, rtd_size = 0,
        rtd_counts = 0, rtd_values = 0\<rparr>,
      blk_req = Some \<lparr>tag = 0, tid = 0, msg_size = 0, methods = None, sender_task_id = 0,
        request_type = 0, req_data_size = 0, req_data = []\<rparr>,
      blk_resp = Some \<lparr>tag = 0, tid = 0, msg_size = 0, methods = None, resp_code = 0,
        resp_data_size = 0, resp_data = []\<rparr>\<rparr>"

definition sample_view :: view where
  "sample_view = \<lparr>vbase = 4096, vlen = Q_SIZE\<rparr>"

definition sample_shm :: shm where
  "sample_shm = \<lparr>shm_names = (\<lambda>_. None), shm_segs = (\<lambda>_. zero_segment), shm_next = 0\<rparr>"

definition sample_os :: os where
  "sample_os = \<lparr>shm_open_ok = True, ftruncate_ok = True, mmap_addr = Some 4096\<rparr>"

lemma sample_receiver [simp]: "receiver_ok sample_blocks sample_view"
  by (simp add: receiver_ok_def blocks_ok_def sample_blocks_def wf_view_def sample_view_def
      Q_SIZE_def)

lemma sample_bar_wf [simp]:
  "wf_msg (sample_bar t n)" "msg_len (sample_bar t n) = 72"
  "norm_msg (sample_bar t n) = sample_bar t n" "class_of (sample_bar t n) = BarC"
  "receiver_ok b v \<Longrightarrow> wf_item b v (w, sample_bar t n)"
  by (simp_all add: sample_bar_def wf_item_def wf_header_def msg_len_def Q_SIZE_def)

lemma sample_ints_wf:
  assumes "n \<le> 250000"
  shows "wf_msg (sample_ints n)" "msg_len (sample_ints n) = 88 + 4 * n"
    "receiver_ok b v \<Longrightarrow> wf_item b v (w, sample_ints n)"
proof -
  have n: "unat (of_nat n :: cint) = n" and len: "unat (of_nat (88 + 4 * n) :: cint) = 88 + 4 * n"
    by (rule unat_of_nat_small, use assms in simp)+
  have "sint (of_nat n :: cint) = int n"
    using sint_small [of "of_nat n"] n assms by simp
  with n len assms show wf: "wf_msg (sample_ints n)"
    unfolding sample_ints_def by (simp add: wf_header_def wf_array_def)
  show l: "msg_len (sample_ints n) = 88 + 4 * n"
    using len by (simp add: sample_ints_def msg_len_def)
  show "receiver_ok b v \<Longrightarrow> wf_item b v (w, sample_ints n)"
    using wf l assms by (simp add: wf_item_def Q_SIZE_def)
qed

lemma sample_queue_created:
  "CreateQueue sample_os sample_shm name =
     Inr (sample_shm\<lparr>shm_names := [name \<mapsto> 0], shm_next := 1,
            shm_segs := (\<lambda>_. zero_segment)(0 := init_queue zero_segment)\<rparr>,
          \<lparr>qr_seg = 0, qr_view = sample_view\<rparr>)"
  by (simp add: CreateQueue_def shm_open_create_def sample_os_def sample_shm_def sample_view_def)


lemma peek_body_tag:
  assumes "queue_inv b v Q"
  shows "(case Peek_body Q of Some p \<Rightarrow> load32 (qmem Q) p | None \<Rightarrow> - 1) =
     (case q_abs b v Q of [] \<Rightarrow> - 1 | y # _ \<Rightarrow> tag (header_of y))"
proof -
  obtain bs where rep: "mq.rep b v (ring_of Q) bs"
    using assms by (auto simp: queue_inv_def)
  show ?thesis
  proof (cases bs)
    case Nil
    with rep have rep': "mq.rep b v (ring_of Q) []" by simp
    then have "unat (qsize Q) = 0"
      by (simp add: mq.rep_def ring_of_def del: Queue_layout)
    with q_abs_rep [OF rep'] show ?thesis
      by (simp add: Peek_body_def IsEmpty_not_safe_def unat_eq_0)
  next
    case (Cons px bs')
    obtain p w x where "px = (p, w, x)" by (cases px)
    with rep Cons have rep': "mq.rep b v (ring_of Q) ((p, w, x) # bs')" by simp
    then have "mq.stored b v (qmem Q) (p, w, x)"
      by (simp add: mq.rep_def ring_of_def del: Queue_layout)
    then have "load32 (qmem Q) p = tag (header_of x)"
      by (rule stored_msg(6))
    moreover have "Peek_body Q = Some p"
      using rep' by (rule Dequeue_first) (rule Peek_of_Dequeue)
    ultimately show ?thesis
      using q_abs_rep [OF rep'] by simp
  qed
qed

lemma Dequeue_tl:
  assumes "queue_inv b v Q"
  shows "\<exists>Q' r. Dequeue_body v Q = Inr (Q', r) \<and> queue_inv b v Q' \<and>
     q_abs b v Q' = tl (q_abs b v Q)"
proof -
  obtain bs where rep: "mq.rep b v (ring_of Q) bs"
    using assms by (auto simp: queue_inv_def)
  show ?thesis
  proof (cases bs)
    case Nil
    with rep have rep': "mq.rep b v (ring_of Q) []" by simp
    from Dequeue_empty [OF this] q_abs_rep [OF this] assms show ?thesis by simp
  next
    case (Cons px bs')
    obtain p w x where "px = (p, w, x)" by (cases px)
    with rep Cons have rep': "mq.rep b v (ring_of Q) ((p, w, x) # bs')" by simp
    from rep' show ?thesis
    proof (cases rule: Dequeue_first)
      case (1 Q' ms y)
      with q_abs_rep [OF rep'] q_abs_rep [OF 1(2)] queue_invI [OF 1(2)] show ?thesis by auto
    qed
  qed
qed

section \<open>Single steps on known offsets\<close>

lemma ring_fresh:
  "ring_of (init_queue Q) =
     \<lparr>rhead = 56, rtail = 56, rsize = 0, rroll = None, rmem = qmem Q\<rparr>"
  by (simp add: ring_of_def)

text \<open>A message that fits behind the tail goes there.\<close>

lemma send_behind_tail:
  assumes rep: "mq.rep b v (ring_of Q) bs" and wf: "wf_item b v (w, x)"
    and fit: "rroll (ring_of Q) = None" "rtail (ring_of Q) + msg_len x \<le> Q_SIZE"
  shows "\<exists>Q'. q_send (w, x) Q = Some Q' \<and> mq.rep b v (ring_of Q') (bs @ [(rtail (ring_of Q), w, x)]) \<and>
     ring_of Q' = (ring_of Q)\<lparr>rtail := rtail (ring_of Q) + msg_len x, rsize := Suc (rsize (ring_of Q)),
       rmem := write_mem w x (qmem Q) (rtail (ring_of Q))\<rparr>"
proof -
  let ?r = "ring_of Q"
  have enq: "ring_enq (sizeof Queue_struct) Q_SIZE (\<lambda>wx. msg_len (snd wx))
      (\<lambda>wx. write_mem (fst wx) (snd wx)) (w, x) ?r = Some (?r\<lparr>rtail := rtail ?r + msg_len x,
        rsize := Suc (rsize ?r), rmem := write_mem w x (qmem Q) (rtail ?r)\<rparr>)"
    using fit by (simp add: ring_enq_def) (simp add: ring_of_def)
  from Enqueue_refines [OF rep wf] enq obtain Q' where
    Q': "Enqueue_body w Q x = Inr (Q', after_write x, 1)"
    "ring_of Q' = ?r\<lparr>rtail := rtail ?r + msg_len x,
        rsize := Suc (rsize ?r), rmem := write_mem w x (qmem Q) (rtail ?r)\<rparr>"
    by auto
  obtain p where p: "mq.rep b v (ring_of Q') (bs @ [(p, w, x)])"
    using mq.rep_enq [OF rep wf enq] Q'(2) by metis
  have "chain (\<lambda>wx. msg_len (snd wx)) (rhead ?r) (bs @ [(p, w, x)]) (rtail ?r + msg_len x)"
    using p fit(1) Q'(2) unfolding mq.rep_def by simp
  then have "p + msg_len x = rtail ?r + msg_len x"
    using mq.chain_end by fastforce
  with Q' p show ?thesis
    by (auto simp: q_send_def)
qed

lemma fresh_send:
  assumes "wf_item b v (w, x)" "sizeof Queue_struct + msg_len x \<le> Q_SIZE"
  shows "\<exists>Q'. q_send (w, x) (init_queue Q) = Some Q' \<and> mq.rep b v (ring_of Q') [(56, w, x)] \<and>
     rhead (ring_of Q') = 56 \<and> rtail (ring_of Q') = 56 + msg_len x \<and> rroll (ring_of Q') = None"
  using send_behind_tail [OF rep_init_queue assms(1)] assms(2) by (fastforce simp: ring_fresh)

text \<open>A message that does not fit behind the tail goes to the start when the head leaves room.\<close>

lemma send_rolls_over:
  assumes rep: "mq.rep b v (ring_of Q) bs" and wf: "wf_item b v (w, x)"
    and fit: "rroll (ring_of Q) = None" "Q_SIZE < rtail (ring_of Q) + msg_len x"
      "56 + msg_len x \<le> rhead (ring_of Q)"
  shows "\<exists>Q'. q_send (w, x) Q = Some Q' \<and> mq.rep b v (ring_of Q') (bs @ [(56, w, x)]) \<and>
     qmem Q' = write_mem w x (qmem Q) 56"
proof -
  let ?r = "ring_of Q"
  have enq: "ring_enq (sizeof Queue_struct) Q_SIZE (\<lambda>wx. msg_len (snd wx))
      (\<lambda>wx. write_mem (fst wx) (snd wx)) (w, x) ?r = Some (?r\<lparr>rmem := write_mem w x (qmem Q) 56,
        rtail := 56 + msg_len x, rroll := Some (rtail ?r), rsize := Suc (rsize ?r)\<rparr>)"
    using fit by (simp add: ring_enq_def) (simp add: ring_of_def)
  from Enqueue_refines [OF rep wf] enq obtain Q' where
    Q': "Enqueue_body w Q x = Inr (Q', after_write x, 1)"
    "ring_of Q' = ?r\<lparr>rmem := write_mem w x (qmem Q) 56,
        rtail := 56 + msg_len x, rroll := Some (rtail ?r), rsize := Suc (rsize ?r)\<rparr>"
    by auto
  obtain p where p: "mq.rep b v (ring_of Q') (bs @ [(p, w, x)])"
    using mq.rep_enq [OF rep wf enq] Q'(2) by metis
  then obtain xs ys where "bs @ [(p, w, x)] = xs @ ys" "ys \<noteq> []"
    "chain (\<lambda>wx. msg_len (snd wx)) 56 ys (56 + msg_len x)"
    using Q'(2) unfolding mq.rep_def by auto
  then have "p + msg_len x = 56 + msg_len x"
    using mq.chain_end by (cases ys rule: rev_cases) fastforce+
  moreover have "qmem Q' = rmem (ring_of Q')"
    by (simp add: ring_of_def)
  ultimately show ?thesis
    using Q' p by (auto simp: q_send_def)
qed

lemma receive_ring:
  assumes "mq.rep b v (ring_of Q) ((p, w, x) # bs)"
  shows "\<exists>Q' ms. q_receive b v Q = Some (norm_msg x, Q') \<and> Dequeue_body v Q = Inr (Q', Some (p, ms)) \<and>
     mq.rep b v (ring_of Q') bs \<and> ms = snd (rebind (class_of x) v (qmem Q) p) \<and>
     rhead (ring_of Q') = p + msg_len x \<and> rtail (ring_of Q') = rtail (ring_of Q) \<and>
     rroll (ring_of Q') =
       (if rroll (ring_of Q) = Some (rhead (ring_of Q)) then None else rroll (ring_of Q))"
proof -
  obtain Q' ms y where d: "Dequeue_body v Q = Inr (Q', Some (p, ms))"
    "ring_deq (sizeof Queue_struct) stored_len (touch_msg v) (ring_of Q) = Some (p, ring_of Q')"
    "clone_at b v ms (qmem Q') p = Inr y" "norm_msg y = norm_msg x"
    "ms = snd (rebind (class_of x) v (qmem Q) p)"
    using Dequeue_refines [OF assms] by blast
  have "mq.stored b v (rmem (ring_of Q)) (p, w, x)"
    using assms unfolding mq.rep_def by simp
  then have "stored_len (rmem (ring_of Q)) p = msg_len x"
    using mq.stored_slen by fastforce
  with d mq.rep_deq [OF assms] ring_deq_sel [OF d(2)] show ?thesis
    by (auto simp: q_receive_def)
qed

section \<open>Properties\<close>

text \<open>
  C13. What \<open>writeAt\<close> makes of a message: it succeeds, touches only the \<open>msg_size\<close> bytes it was given, and
  whoever maps these bytes, at whatever address, re-binds and clones them into the message that was
  sent (of a text, its characters up to the terminator).
\<close>

theorem message_transfer:
  assumes "wf_msg x" "receiver_ok b v" "a + msg_len x \<le> vlen v"
  shows "\<exists>m' r. writeAt w x m a = Inr (after_write x, m', r) \<and>
    (\<forall>i. i < a \<or> a + msg_len x \<le> i \<longrightarrow> m' i = m i) \<and>
    (\<forall>m''. agree_on a (msg_len x) m' m'' \<longrightarrow> map_sum id norm_msg (read_msg b v m'' a) = Inr (norm_msg x))"
proof -
  obtain r where "writeAt w x m a = Inr (after_write x, write_mem w x m a, r)"
    using writeAt_total [OF assms(1)] by blast
  then show ?thesis
    using writeAt_frame [OF assms(1)] codec_roundtrip [OF assms(1) _ _ assms(3)] assms(2)
    by (auto simp: receiver_ok_def)
qed

theorem message_transfer_witness:
  "\<exists>m' r. writeAt \<lparr>vbase = 16384, vlen = Q_SIZE\<rparr> (sample_ints 3) (\<lambda>_. 7) 500 =
       Inr (after_write (sample_ints 3), m', r) \<and> m' 499 = 7 \<and> m' 600 = 7 \<and>
     map_sum id norm_msg (read_msg sample_blocks sample_view m' 500) = Inr (norm_msg (sample_ints 3))"
proof -
  have len: "msg_len (sample_ints 3) = 100" "wf_msg (sample_ints 3)" using sample_ints_wf [of 3] by simp_all
  then have "500 + msg_len (sample_ints 3) \<le> vlen sample_view" by (simp add: sample_view_def Q_SIZE_def)
  from message_transfer [OF len(2) sample_receiver this, of "\<lparr>vbase = 16384, vlen = Q_SIZE\<rparr>" "\<lambda>_. 7"] len(1)
  show ?thesis by (auto simp: agree_on_def)
qed
text \<open>
  C1. First in, first out, for every interleaving: from the queue \<open>CreateQueue\<close> returns, after any
  sequence of sends (each by a process with its own mapping of the segment) and receives, the
  messages received so far followed by those still in the queue are exactly the accepted messages
  in the order they were sent; none is lost, duplicated, reordered or altered.
\<close>

theorem queue_fifo:
  assumes "receiver_ok b v" "CreateQueue e s name = Inr (s', q)"
    "\<forall>wx \<in> set (puts ops). wf_item b v wx"
  shows "case run_ops q_send (q_receive b v) (shm_segs s' (qr_seg q)) ops of (Q', out, acc) \<Rightarrow>
     out @ q_abs b v Q' = map (\<lambda>wx. norm_msg (snd wx)) acc \<and> subseq acc (puts ops) \<and>
     queue_inv b v Q'"
proof -
  obtain Q0 where Q0: "shm_segs s' (qr_seg q) = init_queue Q0"
    using CreateQueue_seg [OF assms(2)] by blast
  obtain Q' out acc where run: "run_ops q_send (q_receive b v) (init_queue Q0) ops = (Q', out, acc)"
    by (cases "run_ops q_send (q_receive b v) (init_queue Q0) ops") blast
  from run_ops_subseq [OF run] cq.run_fifo [OF queue_inv_init assms(3) run] show ?thesis
    by (simp add: Q0 run)
qed

theorem queue_fifo_witness:
  "case run_ops q_send (q_receive sample_blocks sample_view)
       (shm_segs (sample_shm\<lparr>shm_names := [''/TS_T1'' \<mapsto> 0], shm_next := 1,
            shm_segs := (\<lambda>_. zero_segment)(0 := init_queue zero_segment)\<rparr>) 0)
       [Put (sample_view, sample_bar 1 5), Put (sample_view, sample_ints 3), Take] of
     (Q', out, acc) \<Rightarrow>
       out @ q_abs sample_blocks sample_view Q' = map (\<lambda>wx. norm_msg (snd wx)) acc \<and>
       subseq acc (puts [Put (sample_view, sample_bar 1 5), Put (sample_view, sample_ints 3), Take]) \<and>
       queue_inv sample_blocks sample_view Q'"
  using queue_fifo [OF sample_receiver sample_queue_created [of "''/TS_T1''"],
      of "[Put (sample_view, sample_bar 1 5), Put (sample_view, sample_ints 3), Take]"]
  by (simp add: puts_def sample_ints_wf)

text \<open>
  C11. \<open>Enqueue\<close> under the invariant: it never faults; it returns 1 with the message appended, or 0
  with the queue and the message untouched; and it returns 1 exactly when the message fits, either
  behind the tail or, when the queue is not rolled over, at the start in front of the head.
\<close>

theorem Enqueue_spec:
  assumes "queue_inv b v Q" "wf_item b v (w, x)"
  shows "\<exists>Q' x' r. Enqueue_body w Q x = Inr (Q', x', r) \<and> queue_inv b v Q' \<and>
     (if (if rollover_position Q = - 1
          then unat (qtail Q) + msg_len x \<le> Q_SIZE \<or> sizeof Queue_struct + msg_len x \<le> unat (qhead Q)
          else unat (qtail Q) + msg_len x \<le> unat (qhead Q))
      then r = 1 \<and> x' = after_write x \<and> q_abs b v Q' = q_abs b v Q @ [norm_msg x]
      else r = 0 \<and> x' = x \<and> Q' = Q)"
proof -
  let ?enq = "ring_enq (sizeof Queue_struct) Q_SIZE (\<lambda>wx. msg_len (snd wx))
    (\<lambda>wx. write_mem (fst wx) (snd wx)) (w, x) (ring_of Q)"
  obtain bs where rep: "mq.rep b v (ring_of Q) bs"
    using assms(1) by (auto simp: queue_inv_def)
  have fits: "?enq \<noteq> None \<longleftrightarrow>
      (if rollover_position Q = - 1
       then unat (qtail Q) + msg_len x \<le> Q_SIZE \<or> sizeof Queue_struct + msg_len x \<le> unat (qhead Q)
       else unat (qtail Q) + msg_len x \<le> unat (qhead Q))"
    by (auto simp: ring_enq_def ring_of_def)
  show ?thesis
  proof (cases ?enq)
    case None
    with fits Enqueue_refines [OF rep assms(2)] assms(1) show ?thesis
      by auto
  next
    case (Some r)
    with Enqueue_refines [OF rep assms(2)] mq.rep_enq [OF rep assms(2) Some]
    obtain Q' p where enq: "Enqueue_body w Q x = Inr (Q', after_write x, 1)"
      and rep': "mq.rep b v (ring_of Q') (bs @ [(p, w, x)])"
      by auto
    show ?thesis
      using enq queue_invI [OF rep'] q_abs_rep [OF rep] q_abs_rep [OF rep'] fits Some
      by (intro exI [of _ Q'] exI [of _ "after_write x"] exI [of _ 1]) simp
  qed
qed

theorem Enqueue_spec_witness:
  "\<exists>Q' x' r. Enqueue_body sample_view (init_queue zero_segment) (sample_bar 1 5) = Inr (Q', x', r) \<and>
     queue_inv sample_blocks sample_view Q' \<and> r = 1 \<and>
     q_abs sample_blocks sample_view Q' = [sample_bar 1 5]"
proof -
  from Enqueue_spec [OF queue_inv_init [of _ _ zero_segment] sample_bar_wf(5) [OF sample_receiver], of sample_view 1 5] show ?thesis
    by (auto simp: Q_SIZE_def)
qed

text \<open>
  C10. \<open>Dequeue\<close> under the invariant: it never faults; on an empty queue it returns null and changes
  nothing; otherwise it returns the place of the oldest message, which its receiver clones
  unaltered, and removes exactly that message.
\<close>

theorem Dequeue_spec:
  assumes "queue_inv b v Q"
  shows "case q_abs b v Q of
     [] \<Rightarrow> Dequeue_body v Q = Inr (Q, None)
   | y # ys \<Rightarrow> (\<exists>Q' p ms z. Dequeue_body v Q = Inr (Q', Some (p, ms)) \<and>
       clone_at b v ms (qmem Q') p = Inr z \<and> norm_msg z = y \<and>
       queue_inv b v Q' \<and> q_abs b v Q' = ys)"
proof -
  obtain bs where rep: "mq.rep b v (ring_of Q) bs"
    using assms by (auto simp: queue_inv_def)
  show ?thesis
  proof (cases bs)
    case Nil
    with rep have "mq.rep b v (ring_of Q) []" by simp
    from Dequeue_empty [OF this] q_abs_rep [OF this] show ?thesis by simp
  next
    case (Cons px bs')
    obtain p w x where "px = (p, w, x)" by (cases px)
    with rep Cons have rep': "mq.rep b v (ring_of Q) ((p, w, x) # bs')" by simp
    from rep' show ?thesis
    proof (cases rule: Dequeue_first)
      case (1 Q' ms y)
      with q_abs_rep [OF rep'] q_abs_rep [OF 1(2)] queue_invI [OF 1(2)] show ?thesis
        by auto
    qed
  qed
qed

theorem Dequeue_spec_witness:
  "Dequeue_body sample_view (init_queue zero_segment) = Inr (init_queue zero_segment, None)"
  using Dequeue_spec [OF queue_inv_init [of sample_blocks sample_view zero_segment]] by simp

text \<open>
  \<open>Peek\<close> looks at the message the next \<open>Dequeue\<close> takes: both return the same place, where the
  tag of the oldest message is, or both return null.
\<close>

theorem Peek_spec:
  assumes "queue_inv b v Q"
  shows "case q_abs b v Q of
     [] \<Rightarrow> Peek_body Q = None
   | y # ys \<Rightarrow> (\<exists>Q' p ms. Peek_body Q = Some p \<and> Dequeue_body v Q = Inr (Q', Some (p, ms)) \<and>
       load32 (qmem Q) (p + offset_of Message_struct ''tag'') = tag (header_of y))"
proof -
  obtain bs where rep: "mq.rep b v (ring_of Q) bs"
    using assms by (auto simp: queue_inv_def)
  show ?thesis
  proof (cases bs)
    case Nil
    with rep have rep': "mq.rep b v (ring_of Q) []" by simp
    then have "unat (qsize Q) = 0"
      by (simp add: mq.rep_def ring_of_def del: Queue_layout)
    with q_abs_rep [OF rep'] show ?thesis
      by (simp add: Peek_body_def IsEmpty_not_safe_def unat_eq_0)
  next
    case (Cons px bs')
    obtain p w x where "px = (p, w, x)" by (cases px)
    with rep Cons have rep': "mq.rep b v (ring_of Q) ((p, w, x) # bs')" by simp
    then have "mq.stored b v (qmem Q) (p, w, x)"
      by (simp add: mq.rep_def ring_of_def del: Queue_layout)
    then have "load32 (qmem Q) p = tag (header_of x)"
      by (rule stored_msg(6))
    with Dequeue_first [OF rep'] Peek_of_Dequeue q_abs_rep [OF rep'] show ?thesis
      by (cases rule: Dequeue_first [OF rep']) auto
  qed
qed

theorem Peek_spec_witness: "Peek_body (init_queue zero_segment) = None"
  using Peek_spec [OF queue_inv_init [of sample_blocks sample_view zero_segment]] by simp

text \<open>
  Memory safety of \<open>Enqueue\<close>: under the invariant it leaves unchanged every byte of the queue
  header, every byte beyond the segment and every byte of a message that is still queued.
\<close>

theorem Enqueue_frame:
  assumes "queue_inv b v Q" "wf_item b v (w, x)" "Enqueue_body w Q x = Inr (Q', x', r)"
    "i < sizeof Queue_struct \<or> Q_SIZE \<le> i \<or> queued_byte Q i"
  shows "qmem Q' i = qmem Q i"
proof -
  obtain bs where rep: "mq.rep b v (ring_of Q) bs"
    using assms(1) by (auto simp: queue_inv_def)
  have "i < sizeof Queue_struct \<or> Q_SIZE \<le> i \<or>
      (\<exists>(p, y) \<in> set bs. p \<le> i \<and> i < p + msg_len (snd y))"
    using assms(4) queued_byte_rep [OF rep] by blast
  note frame = mq.rep_enq_frame [OF rep assms(2) _ this]
  show ?thesis
    using Enqueue_refines [OF rep assms(2)] frame assms(3)
    by (cases "ring_enq (sizeof Queue_struct) Q_SIZE (\<lambda>wx. msg_len (snd wx))
      (\<lambda>wx. write_mem (fst wx) (snd wx)) (w, x) (ring_of Q)") (auto simp: ring_of_def)
qed


theorem Enqueue_frame_witness:
  "\<exists>Q' x' r. Enqueue_body sample_view (init_queue zero_segment) (sample_bar 1 5) = Inr (Q', x', r) \<and>
     qmem Q' 3 = 0"
proof -
  have wf: "wf_item sample_blocks sample_view (sample_view, sample_bar 1 5)"
    by simp
  obtain Q' x' r where e: "Enqueue_body sample_view (init_queue zero_segment) (sample_bar 1 5) = Inr (Q', x', r)"
    using rep_init_queue wf by (blast elim: Enqueue_cases)
  from Enqueue_frame [OF queue_inv_init wf e, of 3] e show ?thesis
    by (auto simp: zero_segment_def)
qed

text \<open>
  C33. An empty queue can refuse a message that it accepts when it is fresh, and keep refusing it:
  the offsets are not reset when the last message leaves, and the branch that rolls over compares
  with the head even though nothing is stored.  (The free space is one run of \<open>Q_SIZE - 56\<close> bytes,
  of which a message may then use only the larger part before or behind the head.)
\<close>

theorem emptied_queue_refuses:
  assumes "wf_item b v (w, x)" "wf_item b v (u, y)"
    "sizeof Queue_struct + msg_len x \<le> Q_SIZE" "sizeof Queue_struct + msg_len y \<le> Q_SIZE"
    "msg_len x < msg_len y" "Q_SIZE < sizeof Queue_struct + msg_len x + msg_len y"
  shows "\<exists>Q1 Q2. q_send (w, x) (init_queue Q0) = Some Q1 \<and>
     q_receive b v Q1 = Some (norm_msg x, Q2) \<and> q_abs b v Q2 = [] \<and>
     Enqueue_body u Q2 y = Inr (Q2, y, 0) \<and> Dequeue_body v Q2 = Inr (Q2, None) \<and>
     q_send (u, y) (init_queue Q0) \<noteq> None"
proof -
  obtain Q1 where s1: "q_send (w, x) (init_queue Q0) = Some Q1"
    and r1: "mq.rep b v (ring_of Q1) [(56, w, x)]" and t1: "rtail (ring_of Q1) = 56 + msg_len x"
      "rroll (ring_of Q1) = None"
    using fresh_send [OF assms(1,3)] by blast
  obtain Q2 where s2: "q_receive b v Q1 = Some (norm_msg x, Q2)"
    and r2: "mq.rep b v (ring_of Q2) []" and h2: "rhead (ring_of Q2) = 56 + msg_len x"
      "rtail (ring_of Q2) = rtail (ring_of Q1)" "rroll (ring_of Q2) = None"
    using receive_ring [OF r1] t1 by auto
  have "ring_enq (sizeof Queue_struct) Q_SIZE (\<lambda>wx. msg_len (snd wx))
    (\<lambda>wx. write_mem (fst wx) (snd wx)) (u, y) (ring_of Q2) = None"
    using h2 t1 assms(5,6) by (simp add: ring_enq_def)
  with Enqueue_refines [OF r2 assms(2)] have "Enqueue_body u Q2 y = Inr (Q2, y, 0)"
    by simp
  with s1 s2 Dequeue_empty [OF r2] q_abs_rep [OF r2] fresh_send [OF assms(2,4), of Q0]
  show ?thesis by auto
qed

theorem emptied_queue_refuses_witness:
  "\<exists>Q1 Q2. q_send (sample_view, sample_ints 100000) (init_queue zero_segment) = Some Q1 \<and>
     q_receive sample_blocks sample_view Q1 = Some (norm_msg (sample_ints 100000), Q2) \<and>
     q_abs sample_blocks sample_view Q2 = [] \<and>
     Enqueue_body sample_view Q2 (sample_ints 170000) = Inr (Q2, sample_ints 170000, 0) \<and>
     Dequeue_body sample_view Q2 = Inr (Q2, None) \<and>
     q_send (sample_view, sample_ints 170000) (init_queue zero_segment) \<noteq> None"
  using emptied_queue_refuses [of sample_blocks sample_view sample_view "sample_ints 100000"
      sample_view "sample_ints 170000" zero_segment]
  by (simp add: sample_ints_wf Q_SIZE_def)

text \<open>
  C32. The place \<open>Dequeue\<close> returns is used after \<open>QLock\<close> is released.  When another task's \<open>Enqueue\<close>
  comes between \<open>Dequeue\<close> and the \<open>clone\<close> of its result, the receiver can get the later message \<open>y\<close>
  in place of the oldest message \<open>x\<close>: \<open>x\<close> is lost and \<open>y\<close> is received twice.
\<close>

theorem dequeue_clone_race:
  assumes "receiver_ok b v" "wf_item b v (u, z)" "Q_SIZE < 200 + msg_len z" "128 + msg_len z \<le> Q_SIZE"
  shows "\<exists>Q1 Q2 Q3 ms Q4.
     q_send (w, sample_bar t n) (init_queue Q0) = Some Q1 \<and> q_send (u, z) Q1 = Some Q2 \<and>
     Dequeue_body v Q2 = Inr (Q3, Some (56, ms)) \<and>
     q_send (w', sample_bar t' k) Q3 = Some Q4 \<and>
     clone_at b v ms (qmem Q4) 56 = Inr (sample_bar t' k) \<and>
     q_abs b v Q4 = [norm_msg z, sample_bar t' k]"
proof -
  let ?x = "sample_bar t n" and ?y = "sample_bar t' k"
  have wf: "wf_item b v (w, ?x)" "wf_item b v (w', ?y)"
    using assms(1) by simp_all
  obtain Q1 where Q1: "q_send (w, ?x) (init_queue Q0) = Some Q1"
    "mq.rep b v (ring_of Q1) [(56, w, ?x)]" "rtail (ring_of Q1) = 128" "rroll (ring_of Q1) = None"
    using fresh_send [OF wf(1)] by (auto simp: Q_SIZE_def)
  obtain Q2 where Q2: "q_send (u, z) Q1 = Some Q2" "rtail (ring_of Q2) = 128 + msg_len z"
    "mq.rep b v (ring_of Q2) [(56, w, ?x), (128, u, z)]" "rroll (ring_of Q2) = None"
    using send_behind_tail [OF Q1(2) assms(2) Q1(4)] assms(4) Q1(3,4) by auto
  obtain Q3 ms where Q3: "Dequeue_body v Q2 = Inr (Q3, Some (56, ms))" "ms = Some BarC"
    "mq.rep b v (ring_of Q3) [(128, u, z)]" "rhead (ring_of Q3) = 128"
    "rtail (ring_of Q3) = 128 + msg_len z" "rroll (ring_of Q3) = None"
    using receive_ring [OF Q2(3)] Q2(2,4) by (auto simp: BarMsg_rebind_def)
  obtain Q4 where Q4: "q_send (w', ?y) Q3 = Some Q4"
    "mq.rep b v (ring_of Q4) [(128, u, z), (56, w', ?y)]" "qmem Q4 = write_mem w' ?y (qmem Q3) 56"
    using send_rolls_over [OF Q3(3) wf(2)] Q3 assms(3) by auto
  have "clone_at b v ms (qmem Q4) 56 = Inr ?y"
    using assms(1) Q3(2) Q4(3)
    by (auto simp: receiver_ok_def blocks_ok_def clone_at_def write_mem_def writeAt_def as_msg_def
        BarMsg_writeAt_def sample_bar_def BarMsg_clone_def BarMsg_create_def BarMsg_at_def mem_simps
        write_header_def intro!: BarMsg.equality)
  with Q1 Q2 Q3 Q4 q_abs_rep [OF Q4(2)] show ?thesis
    by auto
qed

theorem dequeue_clone_race_witness:
  "\<exists>Q1 Q2 Q3 ms Q4.
     q_send (sample_view, sample_bar 1 5) (init_queue zero_segment) = Some Q1 \<and>
     q_send (sample_view, sample_ints 249940) Q1 = Some Q2 \<and>
     Dequeue_body sample_view Q2 = Inr (Q3, Some (56, ms)) \<and>
     q_send (sample_view, sample_bar 1 6) Q3 = Some Q4 \<and>
     clone_at sample_blocks sample_view ms (qmem Q4) 56 = Inr (sample_bar 1 6) \<and>
     q_abs sample_blocks sample_view Q4 = [norm_msg (sample_ints 249940), sample_bar 1 6]"
  by (rule dequeue_clone_race) (simp_all add: sample_ints_wf Q_SIZE_def)

end
