(* ===== verification/SystemCore.thy ===== *)
theory SystemCore
  imports CircularMsgQ
begin

text \<open>
  The system object (\<open>TaskSystem/src/System/System.c\<close>): task identifiers, the table of message
  queues each process keeps, sending and receiving by task identifier, the repository of task
  names, and the scan that wakes sleeping tasks.

  \<open>struct SystemData\<close> lives in the shared segment \<open>/TS_System\<close>; it is kept here as the bytes of that
  segment, addressed by the struct's layout, because \<open>task_name\<close> is indexed outside its declared
  bounds and the bytes it then reaches matter.  \<open>sextent\<close> is how many bytes from the start of the
  mapping the process can access; an access beyond it is a fault.
\<close>

section \<open>Definitions\<close>

definition MAX_TASK :: nat where
  "MAX_TASK = 100"

definition MAX_NAME_SIZE :: nat where
  "MAX_NAME_SIZE = 30"

definition SystemData_struct :: struct where
  "SystemData_struct =
     [(''nextTaskID'', CUInt), (''TaskIDLock'', CMutex), (''shutdown_signal'', CInt),
      (''threadRef'', CThread), (''sleepers_lock'', CMutex), (''sleepers'', CConds MAX_TASK),
      (''task_name'', CCharRows MAX_NAME_SIZE MAX_TASK), (''task_has_name'', CInts MAX_TASK),
      (''repository_mutex'', CMutex)]"

text \<open>The object of one process.\<close>

record System =
  sdata :: nat
  sextent :: nat
  TaskTable :: "qref option list"

text \<open>The segment \<open>/TS_System\<close>: what the name refers to, and the bytes of every segment.\<close>

record sysshm =
  sys_name :: "nat option"
  sys_segs :: "nat \<Rightarrow> mem"
  sys_next :: nat

text \<open>
  What the remaining system calls of \<open>System_create\<close> return, how much of the mapping is accessible,
  and the bytes that initialisation leaves in a mutex, a condition variable and a thread handle.
\<close>

record sysos = os +
  malloc_ok :: bool
  task_mutex_ok :: bool
  sleepers_mutex_ok :: bool
  repo_mutex_ok :: bool
  thread_ok :: bool
  map_extent :: nat
  mutex_image :: "byte list"
  cond_image :: "byte list"
  thread_image :: "byte list"

definition show_int :: "int \<Rightarrow> string" where
  "show_int n = (if n < 0 then CHR ''-'' # show_dec (nat (- n)) else show_dec (nat n))"

text \<open>\<open>char buf[15]; sprintf (buf, "/TS_T%d", taskID)\<close>\<close>

definition queue_name :: "cint \<Rightarrow> string res" where
  "queue_name taskID =
     (let buf = ''/TS_T'' @ show_int (sint taskID) in
      if length buf + 1 > 15 then Inl OutOfBounds else Inr buf)"

text \<open>\<open>TaskTable[taskID]\<close>, read and written.\<close>

definition table_get :: "System \<Rightarrow> int \<Rightarrow> qref option res" where
  "table_get this i =
     (if 0 \<le> i \<and> i < int (length (TaskTable this)) then Inr (TaskTable this ! nat i)
      else Inl OutOfBounds)"

definition table_set :: "System \<Rightarrow> int \<Rightarrow> qref option \<Rightarrow> System res" where
  "table_set this i q =
     (if 0 \<le> i \<and> i < int (length (TaskTable this))
      then Inr (this\<lparr>TaskTable := (TaskTable this)[nat i := q]\<rparr>) else Inl OutOfBounds)"

definition check_Q_and_acquire :: "os \<Rightarrow> shm \<Rightarrow> System \<Rightarrow> cint \<Rightarrow> System res" where
  "check_Q_and_acquire e s this taskID =
     bindR (table_get this (sint taskID)) (\<lambda>q.
       if q = None then
         bindR (queue_name taskID) (\<lambda>buf. table_set this (sint taskID) (AcquireQueue e s buf))
       else Inr this)"

definition send ::
  "os \<Rightarrow> shm \<Rightarrow> System \<Rightarrow> message option \<Rightarrow> cint \<Rightarrow> (shm \<times> System \<times> message option \<times> cint) res" where
  "send e s this msg_data targetTaskID =
     bindR (check_Q_and_acquire e s this targetTaskID) (\<lambda>this'.
     bindR (table_get this' (sint targetTaskID)) (\<lambda>q.
     bindR (Enqueue s q msg_data) (\<lambda>(s', msg', r). Inr (s', this', msg', r))))"

text \<open>
  The error branch of \<open>receive\<close> reads \<open>msg->tid\<close> of the null pointer before it reaches \<open>exit\<close>.
\<close>

definition receive :: "blocks \<Rightarrow> shm \<Rightarrow> System \<Rightarrow> cint \<Rightarrow> (shm \<times> message) res" where
  "receive b s this targetTaskID =
     bindR (table_get this (sint targetTaskID)) (\<lambda>q.
     bindR (Dequeue s q) (\<lambda>(s', msg).
       case (q, msg) of
         (Some ref, Some (p, ms)) \<Rightarrow>
           bindR (clone_at b (qr_view ref) ms (qmem (shm_segs s' (qr_seg ref))) p)
             (\<lambda>y. Inr (s', y))
       | _ \<Rightarrow> Inl NullDeref))"

definition dropMsg :: "os \<Rightarrow> shm \<Rightarrow> System \<Rightarrow> cint \<Rightarrow> (shm \<times> System) res" where
  "dropMsg e s this targetTaskID =
     bindR (check_Q_and_acquire e s this targetTaskID) (\<lambda>this'.
     bindR (table_get this' (sint targetTaskID)) (\<lambda>q.
     bindR (Dequeue s q) (\<lambda>(s', _). Inr (s', this'))))"

definition getMsgTag :: "os \<Rightarrow> shm \<Rightarrow> System \<Rightarrow> cint \<Rightarrow> (System \<times> cint) res" where
  "getMsgTag e s this targetTaskID =
     bindR (check_Q_and_acquire e s this targetTaskID) (\<lambda>this'.
     bindR (table_get this' (sint targetTaskID)) (\<lambda>q.
     bindR (Peek s q) (\<lambda>msg.
       case (q, msg) of
         (Some ref, Some p) \<Rightarrow>
           Inr (this', load32 (qmem (shm_segs s (qr_seg ref))) (p + offset_of Message_struct ''tag''))
       | _ \<Rightarrow> Inr (this', - 1))))"

definition getNextTaskID :: "mem \<Rightarrow> mem \<times> cint" where
  "getNextTaskID d =
     (let nextID = load32 d (offset_of SystemData_struct ''nextTaskID'')
      in (store32 d (offset_of SystemData_struct ''nextTaskID'') (nextID + 1), nextID))"

definition createMsgQ :: "os \<Rightarrow> shm \<Rightarrow> System \<Rightarrow> cint \<Rightarrow> (shm \<times> System) res" where
  "createMsgQ e s this taskID =
     bindR (queue_name taskID) (\<lambda>buf.
     bindR (CreateQueue e s buf) (\<lambda>(s', q).
     bindR (table_set this (int (unat taskID)) (Some q)) (\<lambda>this'. Inr (s', this'))))"

text \<open>The loop of \<open>destroy\<close> from \<open>i\<close>, with \<open>n\<close> iterations to go.\<close>

fun destroy_loop :: "shm \<Rightarrow> nat \<Rightarrow> nat \<Rightarrow> shm res" where
  "destroy_loop s i 0 = Inr s"
| "destroy_loop s i (Suc n) =
     bindR (queue_name (of_nat i)) (\<lambda>buf. destroy_loop (DeleteQueue s buf) (Suc i) n)"

definition destroy :: "sysshm \<Rightarrow> shm \<Rightarrow> System \<Rightarrow> (sysshm \<times> shm) res" where
  "destroy w s this =
     (let d = store32 (sys_segs w (sdata this)) (offset_of SystemData_struct ''shutdown_signal'') 1;
          next = unat (load32 d (offset_of SystemData_struct ''nextTaskID''))
      in bindR (destroy_loop s 1 (next - 1)) (\<lambda>s'.
           Inr (w\<lparr>sys_segs := (sys_segs w)(sdata this := d), sys_name := None\<rparr>, s')))"

definition message_immediate :: "os \<Rightarrow> shm \<Rightarrow> System \<Rightarrow> cint \<Rightarrow> (System \<times> cint) res" where
  "message_immediate e s this taskID =
     bindR (check_Q_and_acquire e s this taskID) (\<lambda>this'.
     bindR (table_get this' (int (unat taskID))) (\<lambda>q. Inr (this', IsEmpty s q)))"

text \<open>\<open>message_notify\<close>: whether the caller goes on to wait on its condition variable.\<close>

definition message_notify :: "os \<Rightarrow> shm \<Rightarrow> System \<Rightarrow> cint \<Rightarrow> (System \<times> bool) res" where
  "message_notify e s this taskID =
     bindR (message_immediate e s this taskID) (\<lambda>(this', r).
       if r \<noteq> 0 then
         (if unat taskID < MAX_TASK then Inr (this', True) else Inl OutOfBounds)
       else Inr (this', False))"

text \<open>Addresses in \<open>struct SystemData\<close>; row \<open>i\<close> of \<open>task_name\<close> is \<open>MAX_TASK\<close> bytes long.\<close>

definition name_row :: "nat \<Rightarrow> nat" where
  "name_row i = offset_of SystemData_struct ''task_name'' + MAX_TASK * i"

definition has_name_at :: "nat \<Rightarrow> nat" where
  "has_name_at i = offset_of SystemData_struct ''task_has_name'' + 4 * i"

definition repository_set_name :: "nat \<Rightarrow> mem \<Rightarrow> byte list \<Rightarrow> cint \<Rightarrow> mem res" where
  "repository_set_name extent d nm taskID =
     (let i = unat taskID in
      if name_row i + MAX_NAME_SIZE > extent \<or> has_name_at i + 4 > extent then Inl OutOfBounds
      else Inr (store32 (store_bytes d (name_row i) (strncpy_bytes nm MAX_NAME_SIZE))
             (has_name_at i) 1))"

text \<open>\<open>strcmp (name, p) == 0\<close> for a C string and a place in the segment.\<close>

fun strcmp_eq :: "byte list \<Rightarrow> mem \<Rightarrow> nat \<Rightarrow> bool" where
  "strcmp_eq [] d p = (d p = 0)"
| "strcmp_eq (c # cs) d p = (d p = c \<and> strcmp_eq cs d (p + 1))"

text \<open>The search of \<open>repository_get_id\<close> from \<open>i\<close>, with \<open>n\<close> iterations to go.\<close>

fun get_id_loop :: "nat \<Rightarrow> mem \<Rightarrow> byte list \<Rightarrow> nat \<Rightarrow> nat \<Rightarrow> cint res" where
  "get_id_loop extent d nm i 0 = Inr (- 1)"
| "get_id_loop extent d nm i (Suc n) =
     (if load32 d (has_name_at i) = 1 then
        (if name_row i + length (cstr nm) + 1 > extent then Inl OutOfBounds
         else if strcmp_eq (cstr nm) d (name_row i) then Inr (of_nat i)
         else get_id_loop extent d nm (Suc i) n)
      else get_id_loop extent d nm (Suc i) n)"

definition repository_get_id :: "nat \<Rightarrow> mem \<Rightarrow> byte list \<Rightarrow> cint res" where
  "repository_get_id extent d nm = get_id_loop extent d nm 0 MAX_TASK"

definition System_initialize :: "nat \<Rightarrow> nat \<Rightarrow> System" where
  "System_initialize seg extent =
     \<lparr>sdata = seg, sextent = extent, TaskTable = replicate MAX_TASK None\<rparr>"

text \<open>The repository loop of \<open>System_create\<close>.\<close>

fun init_repository :: "nat \<Rightarrow> mem \<Rightarrow> nat \<Rightarrow> nat \<Rightarrow> mem res" where
  "init_repository extent d i 0 = Inr d"
| "init_repository extent d i (Suc n) =
     (if name_row i + MAX_NAME_SIZE > extent then Inl OutOfBounds
      else init_repository extent
             (store_bytes (store32 d (has_name_at i) 0) (name_row i)
                (strncpy_bytes [0] MAX_NAME_SIZE)) (Suc i) n)"

definition sys_open_create :: "sysshm \<Rightarrow> sysshm \<times> nat" where
  "sys_open_create w =
     (case sys_name w of
        Some g \<Rightarrow> (w, g)
      | None \<Rightarrow> (w\<lparr>sys_name := Some (sys_next w),
                   sys_segs := (sys_segs w)(sys_next w := (\<lambda>_. 0)),
                   sys_next := Suc (sys_next w)\<rparr>, sys_next w))"

definition System_create :: "sysos \<Rightarrow> sysshm \<Rightarrow> (sysshm \<times> System) res" where
  "System_create e w =
     (if \<not> shm_open_ok e \<or> \<not> ftruncate_ok e \<or> mmap_addr e = None then Inl (ExitCall (-1))
      else if \<not> malloc_ok e then Inl (ExitCall 1)
      else
        let (w1, g) = sys_open_create w;
            d0 = sys_segs w1 g;
            d1 = store32 d0 (offset_of SystemData_struct ''nextTaskID'') 1
        in if \<not> task_mutex_ok e then Inl (ExitCall (-1))
           else
             let d2 = store_bytes d1 (offset_of SystemData_struct ''TaskIDLock'') (mutex_image e);
                 d3 = store32 d2 (offset_of SystemData_struct ''shutdown_signal'') 0
             in if \<not> sleepers_mutex_ok e then Inl (ExitCall (-1))
                else
                  let d4 = store_bytes d3 (offset_of SystemData_struct ''sleepers_lock'')
                             (mutex_image e);
                      d5 = store_bytes d4 (offset_of SystemData_struct ''sleepers'')
                             (concat (replicate MAX_TASK (cond_image e)))
                  in bindR (init_repository (map_extent e) d5 0 MAX_TASK) (\<lambda>d6.
                       if \<not> repo_mutex_ok e then Inl (ExitCall (-1))
                       else
                         let d7 = store_bytes d6 (offset_of SystemData_struct ''repository_mutex'')
                                    (mutex_image e);
                             d8 = store_bytes d7 (offset_of SystemData_struct ''threadRef'')
                                    (thread_image e)
                         in if \<not> thread_ok e then Inl (ExitCall (-1))
                            else Inr (w1\<lparr>sys_segs := (sys_segs w1)(g := d8)\<rparr>,
                                      System_initialize g (map_extent e))))"

definition System_acquire :: "sysos \<Rightarrow> sysshm \<Rightarrow> System res" where
  "System_acquire e w =
     (if \<not> shm_open_ok e then Inl (ExitCall (-1))
      else case sys_name w of
             None \<Rightarrow> Inl (ExitCall (-1))
           | Some g \<Rightarrow>
               (if mmap_addr e = None then Inl (ExitCall (-1))
                else if \<not> malloc_ok e then Inl NullDeref
                else Inr (System_initialize g (map_extent e))))"

text \<open>One pass of \<open>loop_wait_signal\<close>: the conditions it signals, in order.\<close>

fun signal_scan :: "shm \<Rightarrow> System \<Rightarrow> nat \<Rightarrow> nat \<Rightarrow> nat list res" where
  "signal_scan s this i 0 = Inr []"
| "signal_scan s this i (Suc n) =
     bindR (table_get this (int i)) (\<lambda>q.
     bindR (signal_scan s this (Suc i) n) (\<lambda>is.
       Inr (if IsEmpty s q = 0 then i # is else is)))"

text \<open>The loop: a pass while \<open>shutdown_signal\<close> is not set; \<open>None\<close> when the loop ends.\<close>

definition loop_wait_signal :: "mem \<Rightarrow> shm \<Rightarrow> System \<Rightarrow> nat list res option" where
  "loop_wait_signal d s this =
     (if sint (load32 d (offset_of SystemData_struct ''shutdown_signal'')) \<le> 0 then
        Some (signal_scan s this 0
          (nat (sint (load32 d (offset_of SystemData_struct ''nextTaskID'')))))
      else None)"


text \<open>A sequence of \<open>n\<close> calls of \<open>getNextTaskID\<close>, by whatever processes.\<close>

fun take_ids :: "nat \<Rightarrow> mem \<Rightarrow> mem \<times> cint list" where
  "take_ids 0 d = (d, [])"
| "take_ids (Suc n) d =
     (let (d1, i) = getNextTaskID d; (d2, is) = take_ids n d1 in (d2, i # is))"

section \<open>Layout\<close>

declare upt_rec_numeral [simp del]

lemma SystemData_layout [layout, simp]:
  "offset_of SystemData_struct ''nextTaskID'' = 0"
  "offset_of SystemData_struct ''TaskIDLock'' = 8"
  "offset_of SystemData_struct ''shutdown_signal'' = 48"
  "offset_of SystemData_struct ''threadRef'' = 56"
  "offset_of SystemData_struct ''sleepers_lock'' = 64"
  "offset_of SystemData_struct ''sleepers'' = 104"
  "offset_of SystemData_struct ''task_name'' = 4904"
  "offset_of SystemData_struct ''task_has_name'' = 7904"
  "offset_of SystemData_struct ''repository_mutex'' = 8304"
  "sizeof SystemData_struct = 8344"
  by (simp_all add: offset_of_def sizeof_def SystemData_struct_def MAX_TASK_def MAX_NAME_SIZE_def
      align_up_def Let_def)

lemma repo_addresses [simp]:
  "name_row i = 4904 + 100 * i" "has_name_at i = 7904 + 4 * i" "MAX_TASK = 100" "MAX_NAME_SIZE = 30"
  by (simp_all add: name_row_def has_name_at_def MAX_TASK_def MAX_NAME_SIZE_def)

section \<open>Task identifiers\<close>

lemma take_ids_from:
  "snd (take_ids n d) = map (\<lambda>k. load32 d 0 + of_nat k) [0..<n]"
proof (induction n arbitrary: d)
  case (Suc n)
  have "snd (take_ids (Suc n) d) = load32 d 0 # snd (take_ids n (store32 d 0 (load32 d 0 + 1)))"
    by (simp add: getNextTaskID_def Let_def case_prod_beta)
  also have "\<dots> = map (\<lambda>k. load32 d 0 + of_nat k) (0 # map Suc [0..<n])"
    by (simp add: Suc mem_simps algebra_simps)
  finally show ?case
    by (simp only: map_Suc_upt upt_conv_Cons zero_less_Suc)
qed simp

section \<open>Queue names\<close>

lemma show_dec_no_minus: "CHR ''-'' \<notin> set (show_dec n)"
proof
  assume "CHR ''-'' \<in> set (show_dec n)"
  then obtain d where d: "d < 10" "CHR ''-'' = char_of (48 + d :: nat)"
    by (auto simp: show_dec_def dest: dec_digits_digit)
  then have "of_char (CHR ''-'') = (of_char (char_of (48 + d) :: char) :: nat)"
    by simp
  with d(1) show False by simp
qed

lemma show_int_inj: "show_int m = show_int n \<Longrightarrow> m = n"
  using show_dec_no_minus [of "nat m"] show_dec_no_minus [of "nat n"]
  by (auto simp: show_int_def split: if_splits dest!: show_dec_inj) (metis list.set_intros(1))+

lemma queue_name_inj:
  assumes "queue_name a = Inr x" "queue_name b = Inr x"
  shows "a = b"
proof -
  have "show_int (sint a) = show_int (sint b)"
    using assms by (auto simp: queue_name_def Let_def split: if_splits)
  then have "sint a = sint b"
    by (rule show_int_inj)
  then show ?thesis
    by (rule signed_word_eqI)
qed

lemma queue_name_small:
  assumes "unat i < 100"
  shows "\<exists>nm. queue_name i = Inr nm"
proof -
  have "sint i = int (unat i)"
    using assms by (intro sint_small) simp
  moreover have "length (show_dec (unat i)) \<le> 2"
    using show_dec_length [of "unat i" 1] assms by simp
  ultimately show ?thesis
    by (simp add: queue_name_def show_int_def)
qed


section \<open>The repository of names\<close>

lemma strcmp_eq_iff: "strcmp_eq cs d p \<longleftrightarrow> load_bytes d p (Suc (length cs)) = cs @ [0]"
proof (induction cs arbitrary: p)
  case Nil
  show ?case by (simp add: load_bytes_def)
next
  case (Cons c cs)
  have "load_bytes d p (Suc (Suc (length cs))) = d p # load_bytes d (p + 1) (Suc (length cs))"
    using load_bytes_append [of d p 1 "Suc (length cs)"] by (simp add: load_bytes_def)
  then show ?case by (simp add: Cons)
qed

lemma strcmp_eq_strncpy:
  assumes "length (cstr nm) < 30" "0 \<notin> set cs" "length cs < 30"
  shows "strcmp_eq cs (store_bytes d p (strncpy_bytes nm 30)) p \<longleftrightarrow> cs = cstr nm"
proof -
  let ?bs = "strncpy_bytes nm 30"
  have bs: "?bs = cstr nm @ replicate (30 - length (cstr nm)) 0"
    using assms by (simp add: strncpy_bytes_def)
  have "load_bytes (store_bytes d p ?bs) p (Suc (length cs)) = take (Suc (length cs)) ?bs"
    using assms(3) by (intro load_store_bytes_prefix) simp
  moreover have "take (Suc (length cs)) ?bs = cs @ [0] \<longleftrightarrow> cs = cstr nm"
  proof
    assume t: "take (Suc (length cs)) ?bs = cs @ [0]"
    have "cstr ?bs = cstr nm"
      using assms(1) by (rule strncpy_bytes_fits)
    moreover have "?bs = (cs @ [0]) @ drop (Suc (length cs)) ?bs"
      using t append_take_drop_id [of "Suc (length cs)" ?bs] by simp
    ultimately show "cs = cstr nm"
      using cstr_append_zero [OF assms(2)] by (metis append.assoc append_Cons append_Nil)
  next
    assume "cs = cstr nm"
    with assms show "take (Suc (length cs)) ?bs = cs @ [0]"
      by (simp add: bs take_Cons')
  qed
  ultimately show ?thesis
    by (simp add: strcmp_eq_iff)
qed

text \<open>The search returns the first row that has a name and matches.\<close>

definition named :: "mem \<Rightarrow> byte list \<Rightarrow> nat \<Rightarrow> bool" where
  "named d nm j \<longleftrightarrow> load32 d (has_name_at j) = 1 \<and> strcmp_eq (cstr nm) d (name_row j)"

lemma get_id_loop_find:
  "(\<And>j. i \<le> j \<Longrightarrow> j < i + n \<Longrightarrow> load32 d (has_name_at j) = 1 \<Longrightarrow>
      name_row j + length (cstr nm) + 1 \<le> extent) \<Longrightarrow>
   get_id_loop extent d nm i n =
     Inr (case find (named d nm) [i..<i + n] of None \<Rightarrow> - 1 | Some j \<Rightarrow> of_nat j)"
proof (induction n arbitrary: i)
  case (Suc n)
  have IH: "get_id_loop extent d nm (Suc i) n =
      Inr (case find (named d nm) [Suc i..<Suc i + n] of None \<Rightarrow> - 1 | Some j \<Rightarrow> of_nat j)"
    by (rule Suc.IH) (use Suc.prems in auto)
  have up: "find P [i..<i + Suc n] = (if P i then Some i else find P [Suc i..<Suc i + n])" for P
    by (simp only: upt_front find.simps)
  show ?case
    using Suc.prems [of i] by (auto simp only: get_id_loop.simps IH up named_def [of d nm i]) auto
qed simp

text \<open>Only identifiers below \<open>MAX_NAME_SIZE\<close> have a row of their own.\<close>

definition repo_ok :: "mem \<Rightarrow> bool" where
  "repo_ok d \<longleftrightarrow> (\<forall>j \<in> {30..<100}. load32 d (has_name_at j) \<noteq> 1)"

lemma get_id_find:
  assumes "repo_ok d" "8344 \<le> extent" "length (cstr nm) < 100"
  shows "repository_get_id extent d nm =
     Inr (case find (named d nm) [0..<100] of None \<Rightarrow> - 1 | Some j \<Rightarrow> of_nat j)"
proof -
  have "name_row j + length (cstr nm) + 1 \<le> extent"
    if "j < 100" "load32 d (has_name_at j) = 1" for j
  proof -
    have "j < 30"
      using that assms(1) by (auto simp: repo_ok_def not_less)
    with assms show ?thesis by simp
  qed
  then show ?thesis
    unfolding repository_get_id_def using get_id_loop_find [of 0 100 d nm extent] by simp
qed

definition set_name_mem :: "mem \<Rightarrow> byte list \<Rightarrow> nat \<Rightarrow> mem" where
  "set_name_mem d nm i = store32 (store_bytes d (name_row i) (strncpy_bytes nm 30)) (has_name_at i) 1"

lemma set_name_eq:
  "unat t < 30 \<Longrightarrow> 8344 \<le> extent \<Longrightarrow>
     repository_set_name extent d nm t = Inr (set_name_mem d nm (unat t))"
  by (simp add: repository_set_name_def set_name_mem_def Let_def)

lemma set_name_has:
  assumes "i < 30" "j < 100"
  shows "load32 (set_name_mem d nm i) (has_name_at j) = (if j = i then 1 else load32 d (has_name_at j))"
  using assms by (cases i j rule: linorder_cases) (auto simp: set_name_mem_def mem_simps)

lemma strcmp_eq_cong:
  "agree_on p (Suc (length cs)) d d' \<Longrightarrow> strcmp_eq cs d p = strcmp_eq cs d' p"
  using load_bytes_agree [of p "Suc (length cs)" d d' p "Suc (length cs)"] by (simp add: strcmp_eq_iff)

lemma set_name_named:
  assumes "i < 30" "j < 30" "length (cstr nm) < 30" "length (cstr nm') < 30"
  shows "named (set_name_mem d nm i) nm' j \<longleftrightarrow> (if j = i then cstr nm' = cstr nm else named d nm' j)"
proof (cases "j = i")
  case True
  let ?d = "store_bytes d (name_row i) (strncpy_bytes nm 30)"
  have "strcmp_eq (cstr nm') (set_name_mem d nm i) (name_row i) = strcmp_eq (cstr nm') ?d (name_row i)"
    using assms by (intro strcmp_eq_cong) (auto simp: set_name_mem_def agree_on_def store32_outside)
  also have "\<dots> = (cstr nm' = cstr nm)"
    using assms by (intro strcmp_eq_strncpy) (simp_all add: cstr_no_zero)
  finally show ?thesis
    using True assms set_name_has [of i j d nm] by (simp add: named_def)
next
  case False
  have "agree_on (name_row j) (Suc (length (cstr nm'))) (set_name_mem d nm i) d"
    using assms False
    by (cases "j < i") (auto simp: set_name_mem_def agree_on_def store32_outside store_bytes_outside)
  from strcmp_eq_cong [OF this] False assms set_name_has [of i j d nm] show ?thesis
    by (simp add: named_def)
qed

lemma set_name_repo_ok: "repo_ok d \<Longrightarrow> i < 30 \<Longrightarrow> repo_ok (set_name_mem d nm i)"
  using set_name_has [of i _ d nm] by (auto simp: repo_ok_def)

lemma set_name_named_all:
  assumes "repo_ok d" "unat t < 30" "length (cstr nm) < 30" "length (cstr nm') < 30" "j < 100"
  shows "named (set_name_mem d nm (unat t)) nm' j \<longleftrightarrow>
     (if j = unat t then cstr nm' = cstr nm else named d nm' j)"
proof (cases "j < 30")
  case True
  with assms show ?thesis by (intro set_name_named) auto
next
  case False
  with set_name_repo_ok [OF assms(1,2), of nm] assms show ?thesis
    by (auto simp: repo_ok_def named_def)
qed

lemma set_name_lookup:
  assumes "repo_ok d" "8344 \<le> extent" "unat t < 30" "length (cstr nm) < 30"
    "\<forall>j < unat t. \<not> named d nm j"
  shows "repository_get_id extent (set_name_mem d nm (unat t)) nm = Inr t"
proof -
  let ?d = "set_name_mem d nm (unat t)"
  note n = set_name_named_all [OF assms(1,3,4,4)]
  have "[0..<100] = [0..<unat t] @ unat t # [Suc (unat t)..<100]"
    using assms(3) upt_add_eq_append [of 0 "unat t" "100 - unat t"] by (simp add: upt_conv_Cons)
  moreover have "find (named ?d nm) [0..<unat t] = None"
    using n assms by (auto simp: find_None_iff)
  ultimately have "find (named ?d nm) [0..<100] = Some (unat t)"
    using n [of "unat t"] assms by (simp only: find_append_None find.simps) simp
  then show ?thesis
    using get_id_find [OF set_name_repo_ok [OF assms(1,3)] assms(2), of nm nm] assms(4) by simp
qed

section \<open>Creation of the system\<close>

lemma strncpy_empty: "strncpy_bytes [0] 30 = replicate 30 0"
  by (simp add: strncpy_bytes_def cstr_def)

text \<open>The repository loop only writes zeros, from the first row on.\<close>

lemma store_zeros:
  "store_bytes d a (replicate n 0) x = (if a \<le> x \<and> x < a + n then 0 else d x)"
  by (auto simp: store_bytes_def)

lemma to_le_zero: "to_le n 0 = replicate n 0"
  by (induction n) simp_all

lemma store32_zero: "store32 d a 0 x = (if a \<le> x \<and> x < a + 4 then 0 else d x)"
  by (simp only: store32_def unat_0 to_le_zero store_zeros)

lemma init_repository_ok:
  assumes "0 < n \<Longrightarrow> name_row (i + n - 1) + 30 \<le> extent"
  shows "\<exists>d'. init_repository extent d i n = Inr d' \<and>
    (\<forall>x. d' x = d x \<or> d' x = 0) \<and> (\<forall>x < 4904. d' x = d x) \<and>
    (\<forall>x. 7904 + 4 * i \<le> x \<and> x < 7904 + 4 * (i + n) \<longrightarrow> d' x = 0)"
  using assms
proof (induction n arbitrary: d i)
  case (Suc n)
  let ?d = "store_bytes (store32 d (has_name_at i) 0) (name_row i) (replicate 30 0)"
  obtain d' where d': "init_repository extent ?d (Suc i) n = Inr d'"
    "\<And>x. d' x = ?d x \<or> d' x = 0" "\<And>x. x < 4904 \<Longrightarrow> d' x = ?d x"
    "\<And>x. 7904 + 4 * Suc i \<le> x \<Longrightarrow> x < 7904 + 4 * (Suc i + n) \<Longrightarrow> d' x = 0"
    using Suc.IH [of "Suc i" ?d] Suc.prems by auto
  have z: "?d x = (if 4904 + 100 * i \<le> x \<and> x < 4934 + 100 * i \<or> 7904 + 4 * i \<le> x \<and> x < 7908 + 4 * i
      then 0 else d x)" for x
    by (auto simp: store_zeros store32_zero)
  have "init_repository extent d i (Suc n) = Inr d'"
    using d'(1) Suc.prems by (simp add: strncpy_empty)
  moreover have "d' x = d x \<or> d' x = 0" for x
    using d'(2) [of x] z [of x] by (auto split: if_splits)
  moreover have "d' x = d x" if "x < 4904" for x
    using that d'(3) [of x] z [of x] by auto
  moreover have "d' x = 0" if "7904 + 4 * i \<le> x" "x < 7904 + 4 * (i + Suc n)" for x
    using that d'(2) [of x] d'(4) [of x] z [of x] by (cases "x < 7908 + 4 * i") auto
  ultimately show ?case by blast
qed auto

lemma init_repository_overrun:
  assumes "name_row (i + k) + 30 > extent" "k < n"
  shows "init_repository extent d i n = Inl OutOfBounds"
  using assms
proof (induction n arbitrary: d i k)
  case (Suc n)
  then show ?case
    by (cases k) (auto simp: Suc.IH [of "Suc i" "k - 1"])
qed simp

lemma of_le_less: "of_le bs < 256 ^ length bs"
proof (induction bs)
  case (Cons b bs)
  have "unat b < 256"
    using unsigned_less [of b, where 'a = nat] by simp
  with Cons show ?case by simp
qed simp

lemma load32_low_byte: "load32 d a = 1 \<Longrightarrow> d a = 1"
proof -
  assume one: "load32 d a = 1"
  let ?n = "of_le (load_bytes d a 4)"
  have "?n < 2 ^ 32"
    using of_le_less [of "load_bytes d a 4"] by simp
  then have "?n = 1"
    using one unat_of_nat_small [of ?n] by (simp add: load32_def)
  moreover have "load_bytes d a 4 = d a # load_bytes d (a + 1) 3"
    using load_bytes_append [of d a 1 3] by (simp add: load_bytes_def)
  ultimately have "unat (d a) = 1"
    by simp presburger
  then show ?thesis
    by (simp add: word_unat_eq_iff)
qed

lemma set_strncpy_bytes: "set (strncpy_bytes nm n) \<subseteq> insert 0 (set nm)"
  by (auto simp: strncpy_bytes_def cstr_def dest: in_set_takeD set_takeWhileD)

lemma load32_zeros: "(\<And>x. a \<le> x \<Longrightarrow> x < a + 4 \<Longrightarrow> d x = 0) \<Longrightarrow> load32 d a = 0"
proof -
  assume z: "\<And>x. a \<le> x \<Longrightarrow> x < a + 4 \<Longrightarrow> d x = 0"
  have "load_bytes d a 4 = replicate 4 0"
    by (rule nth_equalityI) (use z in \<open>auto simp: load_bytes_def simp del: upt_Suc\<close>)
  then show ?thesis
    by (simp add: load32_def numeral_eq_Suc)
qed


section \<open>Properties\<close>

definition sample_sysos :: sysos where
  "sample_sysos =
     \<lparr>shm_open_ok = True, ftruncate_ok = True, mmap_addr = Some 4096, malloc_ok = True,
      task_mutex_ok = True, sleepers_mutex_ok = True, repo_mutex_ok = True, thread_ok = True,
      map_extent = 16384, mutex_image = replicate 40 9, cond_image = replicate 48 9,
      thread_image = replicate 8 9\<rparr>"

definition sample_sysshm :: sysshm where
  "sample_sysshm = \<lparr>sys_name = None, sys_segs = (\<lambda>_ _. 0), sys_next = 0\<rparr>"

text \<open>
  Task identifiers are unique: \<open>n\<close> calls of \<open>getNextTaskID\<close>, by whatever processes, return \<open>n\<close>
  different identifiers (\<open>n\<close> up to the \<open>2 ^ 32\<close> values of an \<open>unsigned int\<close>).
\<close>

theorem task_ids_distinct:
  assumes "n \<le> 2 ^ 32"
  shows "distinct (snd (take_ids n d))"
proof -
  have "inj_on (\<lambda>k. load32 d 0 + (of_nat k :: cint)) {0..<n}"
  proof (rule inj_onI)
    fix x y
    assume "x \<in> {0..<n}" "y \<in> {0..<n}" "load32 d 0 + of_nat x = load32 d 0 + (of_nat y :: cint)"
    then have "(of_nat x :: cint) = of_nat y" "x < 2 ^ 32" "y < 2 ^ 32"
      using assms by simp_all
    then show "x = y"
      by (metis unat_of_nat_small)
  qed
  then show ?thesis
    by (simp add: take_ids_from distinct_map)
qed

theorem task_ids_distinct_witness: "distinct (snd (take_ids 5 (\<lambda>_. 0)))"
  using task_ids_distinct [of 5 "\<lambda>_. 0"] by simp

text \<open>
  The names of the task queues are injective in the task identifier, so no two tasks share a
  queue.
\<close>

theorem queue_names_distinct:
  assumes "queue_name i = Inr x" "queue_name j = Inr y" "i \<noteq> j"
  shows "x \<noteq> y"
  using assms queue_name_inj by blast

theorem queue_names_distinct_witness:
  "\<exists>x y. queue_name 7 = Inr x \<and> queue_name 8 = Inr y \<and> x \<noteq> y"
proof -
  obtain x y where "queue_name 7 = Inr x" "queue_name 8 = Inr y"
    using queue_name_small [of 7] queue_name_small [of 8] by auto
  with queue_names_distinct [of 7 x 8 y] show ?thesis by auto
qed

text \<open>
  C25. Name repository, round trip: after \<open>repository_set_name\<close> for a task below
  \<open>MAX_NAME_SIZE\<close> the name is found under that task's identifier, unless a task with a smaller
  identifier has it, and the lookup of every other name is unchanged.
\<close>

theorem repository_roundtrip:
  assumes "repo_ok d" "8344 \<le> extent" "unat t < 30" "length (cstr nm) < 30"
    "\<forall>j < unat t. \<not> named d nm j"
  shows "\<exists>d'. repository_set_name extent d nm t = Inr d' \<and> repo_ok d' \<and>
     repository_get_id extent d' nm = Inr t \<and>
     (\<forall>nm'. length (cstr nm') < 30 \<and> cstr nm' \<noteq> cstr nm \<and> \<not> named d nm' (unat t) \<longrightarrow>
        repository_get_id extent d' nm' = repository_get_id extent d nm')"
proof -
  let ?d = "set_name_mem d nm (unat t)"
  have ok: "repo_ok ?d"
    using set_name_repo_ok assms by blast
  have "repository_get_id extent ?d nm = Inr t"
    using set_name_lookup [OF assms] .
  moreover have "repository_get_id extent ?d nm' = repository_get_id extent d nm'"
    if nm': "length (cstr nm') < 30" "cstr nm' \<noteq> cstr nm" "\<not> named d nm' (unat t)" for nm'
  proof -
    have "find (named ?d nm') [0..<100] = find (named d nm') [0..<100]"
      using set_name_named_all [OF assms(1,3,4) nm'(1)] nm' by (intro find_cong) auto
    with get_id_find [OF ok assms(2), of nm'] get_id_find [OF assms(1,2), of nm'] nm'(1)
    show ?thesis by simp
  qed
  ultimately show ?thesis
    using set_name_eq [OF assms(3,2)] ok by blast
qed


theorem repository_roundtrip_witness:
  "\<exists>d'. repository_set_name 8344 (\<lambda>_. 0) (bytes_of ''DB'' @ [0]) 3 = Inr d' \<and> repo_ok d' \<and>
     repository_get_id 8344 d' (bytes_of ''DB'' @ [0]) = Inr 3"
proof -
  have ok: "repo_ok (\<lambda>_. 0)" and n: "\<forall>j < unat (3 :: cint). \<not> named (\<lambda>_. 0) nm j" for nm
    by (simp_all add: repo_ok_def named_def load32_zeros)
  from repository_roundtrip [OF ok _ _ _ n, of 8344 "bytes_of ''DB'' @ [0]"] show ?thesis
    by (auto simp: bytes_of_def cstr_def)
qed

text \<open>
  C34. \<open>task_name\<close> is declared with its dimensions swapped (\<open>MAX_NAME_SIZE\<close> rows of \<open>MAX_TASK\<close> bytes), so
  the row of task 30 lies on \<open>task_has_name\<close>: naming task 30 makes the name of task 1 disappear
  from the repository, whatever the two names are.
\<close>

theorem naming_task_30_erases_task_1:
  assumes "8344 \<le> extent" "1 \<notin> set nm"
  shows "\<exists>d'. repository_set_name extent d nm 30 = Inr d' \<and>
     (\<forall>nm'. repository_get_id extent d' nm' \<noteq> Inr 1)"
proof -
  define d' where "d' = store32 (store_bytes d 7904 (strncpy_bytes nm 30)) 8024 1"
  have set: "repository_set_name extent d nm 30 = Inr d'"
    using assms(1) by (simp add: repository_set_name_def Let_def d'_def)
  have "d' 7908 = strncpy_bytes nm 30 ! 4"
    by (simp add: d'_def store32_outside) (simp add: store_bytes_def)
  also have "\<dots> \<in> set (strncpy_bytes nm 30)"
    by (rule nth_mem) simp
  finally have "d' 7908 \<noteq> 1"
    using assms(2) set_strncpy_bytes [of nm 30] by auto
  then have "load32 d' 7908 \<noteq> 1"
    using load32_low_byte [of d' 7908] by auto
  then have "get_id_loop extent d' nm' i n \<noteq> Inr 1" if "i + n \<le> 100" for i n nm'
    using that
  proof (induction extent d' nm' i n rule: get_id_loop.induct)
    case (2 extent d nm' i n)
    have "unat (of_nat i :: cint) = i"
      using 2(4) by (intro unat_of_nat_small) simp
    then have "of_nat i \<noteq> (1 :: cint)" if "i \<noteq> 1"
      using that by auto
    with 2 show ?case by (cases "i = 1") (auto simp: Let_def)
  qed simp
  with set show ?thesis
    by (auto simp: repository_get_id_def)
qed

theorem naming_task_30_erases_task_1_witness:
  "\<exists>d'. repository_set_name 8344 (\<lambda>_. 0) (bytes_of ''Station'' @ [0]) 30 = Inr d' \<and>
     (\<forall>nm'. repository_get_id 8344 d' nm' \<noteq> Inr 1)"
  by (rule naming_task_30_erases_task_1) (simp_all add: bytes_of_def)

text \<open>
  C35. The repository loop of \<open>System_create\<close> runs over rows of \<open>MAX_TASK\<close> bytes up to row 99, beyond
  the 8344 bytes of \<open>struct SystemData\<close>: unless the mapping is accessible for 14834 bytes, which is
  more than the pages that hold the struct (12288), \<open>System_create\<close> faults.
\<close>

theorem System_create_overruns:
  assumes "shm_open_ok e" "ftruncate_ok e" "mmap_addr e \<noteq> None" "malloc_ok e" "task_mutex_ok e"
    "sleepers_mutex_ok e" "map_extent e < 14834"
  shows "System_create e w = Inl OutOfBounds"
proof -
  have "init_repository (map_extent e) d 0 100 = Inl OutOfBounds" for d
    using init_repository_overrun [of "map_extent e" 0 99 100 d] assms(7) by simp
  then show ?thesis
    using assms(1-6) by (simp add: System_create_def Let_def case_prod_beta)
qed

theorem System_create_overruns_witness:
  "System_create (sample_sysos\<lparr>map_extent := 12288\<rparr>) sample_sysshm = Inl OutOfBounds"
  by (rule System_create_overruns) (simp_all add: sample_sysos_def)

text \<open>
  When the mapping is accessible that far, \<open>System_create\<close> succeeds and leaves a fresh system:
  the first task identifier is 1, no task has a name, the shutdown flag is clear and the process
  knows no queue.
\<close>

theorem System_create_fresh:
  assumes "shm_open_ok e" "ftruncate_ok e" "mmap_addr e \<noteq> None" "malloc_ok e" "task_mutex_ok e"
    "sleepers_mutex_ok e" "repo_mutex_ok e" "thread_ok e" "14834 \<le> map_extent e"
    "length (mutex_image e) = 40" "length (cond_image e) = 48" "length (thread_image e) = 8"
  shows "\<exists>w' sys. System_create e w = Inr (w', sys) \<and> sys_name w' = Some (sdata sys) \<and>
     snd (getNextTaskID (sys_segs w' (sdata sys))) = 1 \<and>
     load32 (sys_segs w' (sdata sys)) (offset_of SystemData_struct ''shutdown_signal'') = 0 \<and>
     (\<forall>i < MAX_TASK. load32 (sys_segs w' (sdata sys)) (has_name_at i) = 0) \<and>
     (\<forall>i < MAX_TASK. TaskTable sys ! i = None) \<and> length (TaskTable sys) = MAX_TASK"
proof -
  obtain w1 g where w1: "sys_open_create w = (w1, g)" by fastforce
  define d5 where "d5 = store_bytes (store_bytes (store32 (store_bytes (store32 (sys_segs w1 g) 0 1) 8
    (mutex_image e)) 48 0) 64 (mutex_image e)) 104 (concat (replicate 100 (cond_image e)))"
  obtain d6 where d6: "init_repository (map_extent e) d5 0 100 = Inr d6"
    "\<And>x. x < 4904 \<Longrightarrow> d6 x = d5 x" "\<And>x. 7904 \<le> x \<Longrightarrow> x < 8304 \<Longrightarrow> d6 x = 0"
    using init_repository_ok [of 100 0 "map_extent e" d5] assms(9) by auto
  define d8 where "d8 = store_bytes (store_bytes d6 8304 (mutex_image e)) 56 (thread_image e)"
  have create: "System_create e w = Inr (w1\<lparr>sys_segs := (sys_segs w1)(g := d8)\<rparr>,
      System_initialize g (map_extent e))"
    using assms d6(1) w1 by (simp add: System_create_def d5_def d8_def)
  have name: "sys_name w1 = Some g"
    using w1 by (auto simp: sys_open_create_def split: option.splits)
  have len: "length (concat (replicate n (cond_image e))) = 48 * n" for n
    using assms(11) by (induction n) simp_all
  have "agree_on 0 4904 d6 d5"
    using d6(2) by (simp add: agree_on_def)
  then have "load32 d6 0 = load32 d5 0" "load32 d6 48 = load32 d5 48"
    by (rule load32_agree, simp_all)+
  then have "load32 d8 0 = 1" "load32 d8 48 = 0"
    using assms(10,12) len [of 100] by (simp_all add: d8_def d5_def mem_simps)
  moreover have "load32 d8 (7904 + 4 * i) = 0" if "i < 100" for i
    using that d6(3) assms(10,12) by (intro load32_zeros) (simp add: d8_def store_bytes_outside)
  ultimately show ?thesis
    using create name by (simp add: System_initialize_def getNextTaskID_def Let_def)
qed

theorem System_create_fresh_witness:
  "\<exists>w' sys. System_create sample_sysos sample_sysshm = Inr (w', sys) \<and>
     snd (getNextTaskID (sys_segs w' (sdata sys))) = 1"
proof -
  have "map_extent sample_sysos = 16384"
    by (simp add: sample_sysos_def)
  with System_create_fresh [of sample_sysos sample_sysshm] show ?thesis
    by (auto simp: sample_sysos_def)
qed

end
