(* ===== verification/Network.thy ===== *)
theory Network
  imports SystemCore
begin

text \<open>
  Tasks that talk through the system: several processes, each with its own \<open>System\<close> object and its
  own mappings, send to task identifiers and receive from the queues they own.  The locale
  \<open>mailboxes\<close> states what a task relies on when it sends and receives by identifier (every
  destination is a first-in first-out box of its own); it is interpreted on \<open>send\<close> and \<open>receive\<close> of
  \<open>SystemCore\<close>, so that whatever is proved of its clients holds of the code.
\<close>

section \<open>The interface\<close>

datatype ('d, 'm) mail_op = Post 'd 'm | Fetch 'd

text \<open>
  A run of operations: the state at the end, what was fetched and what was accepted, each with its
  destination and in order.
\<close>

fun run_mail ::
  "('d \<Rightarrow> 'm \<Rightarrow> 's \<Rightarrow> 's \<times> bool) \<Rightarrow> ('d \<Rightarrow> 's \<Rightarrow> 's \<times> 'v option) \<Rightarrow> 's \<Rightarrow>
     ('d, 'm) mail_op list \<Rightarrow> 's \<times> ('d \<times> 'v) list \<times> ('d \<times> 'm) list" where
  "run_mail post fetch s [] = (s, [], [])"
| "run_mail post fetch s (Post d x # ops) =
     (let (s1, ok) = post d x s; (s2, out, acc) = run_mail post fetch s1 ops
      in (s2, out, if ok then (d, x) # acc else acc))"
| "run_mail post fetch s (Fetch d # ops) =
     (let (s1, r) = fetch d s; (s2, out, acc) = run_mail post fetch s1 ops
      in (s2, (case r of None \<Rightarrow> out | Some y \<Rightarrow> (d, y) # out), acc))"

definition only :: "'d \<Rightarrow> ('d \<times> 'a) list \<Rightarrow> 'a list" where
  "only d xs = map snd (filter (\<lambda>p. fst p = d) xs)"

locale mailboxes =
  fixes post :: "'d \<Rightarrow> 'm \<Rightarrow> 's \<Rightarrow> 's \<times> bool"
    and fetch :: "'d \<Rightarrow> 's \<Rightarrow> 's \<times> 'v option"
    and boxes :: "'s \<Rightarrow> 'd \<Rightarrow> 'v list"
    and invar :: "'s \<Rightarrow> bool"
    and dest :: "'d \<Rightarrow> bool"
    and wfm :: "'m \<Rightarrow> bool"
    and nrm :: "'m \<Rightarrow> 'v"
  assumes post_invar: "invar s \<Longrightarrow> dest d \<Longrightarrow> wfm x \<Longrightarrow> post d x s = (s', ok) \<Longrightarrow> invar s'"
    and post_boxes: "invar s \<Longrightarrow> dest d \<Longrightarrow> wfm x \<Longrightarrow> post d x s = (s', ok) \<Longrightarrow> dest c \<Longrightarrow>
      boxes s' c = boxes s c @ (if ok \<and> c = d then [nrm x] else [])"
    and fetch_invar: "invar s \<Longrightarrow> dest d \<Longrightarrow> fetch d s = (s', r) \<Longrightarrow> invar s'"
    and fetch_boxes: "invar s \<Longrightarrow> dest d \<Longrightarrow> fetch d s = (s', r) \<Longrightarrow> dest c \<Longrightarrow>
      boxes s c = (case r of None \<Rightarrow> [] | Some y \<Rightarrow> if c = d then [y] else []) @ boxes s' c"
    and fetch_empty: "invar s \<Longrightarrow> dest d \<Longrightarrow> snd (fetch d s) = None \<longleftrightarrow> boxes s d = []"
begin

text \<open>
  Per destination, what was fetched followed by what is left is what was there followed by what
  was accepted, whatever happened at the other destinations.
\<close>

lemma run_boxes:
  assumes "invar s" "\<And>c x. Post c x \<in> set ops \<Longrightarrow> dest c \<and> wfm x" "\<And>c. Fetch c \<in> set ops \<Longrightarrow> dest c"
    "run_mail post fetch s ops = (s', out, acc)" "dest d"
  shows "invar s' \<and> only d out @ boxes s' d = boxes s d @ map nrm (only d acc)"
  using assms
proof (induction ops arbitrary: s s' out acc)
  case Nil
  then show ?case by (simp add: only_def)
next
  case (Cons p ops)
  show ?case
  proof (cases p)
    case (Post c x)
    obtain s1 ok where s1: "post c x s = (s1, ok)" by fastforce
    obtain acc' where r: "run_mail post fetch s1 ops = (s', out, acc')"
      "acc = (if ok then (c, x) # acc' else acc')"
      using Cons.prems(4) Post s1 by (auto split: prod.splits)
    have wf: "dest c" "wfm x"
      using Cons.prems(2) [of c x] Post by auto
    have "invar s' \<and> only d out @ boxes s' d = boxes s1 d @ map nrm (only d acc')"
      by (rule Cons.IH [OF post_invar [OF Cons.prems(1) wf s1] _ _ r(1) Cons.prems(5)])
        (use Cons.prems(2,3) in auto)
    then show ?thesis
      using post_boxes [OF Cons.prems(1) wf s1 Cons.prems(5)] r(2) by (auto simp: only_def)
  next
    case (Fetch c)
    obtain s1 y where s1: "fetch c s = (s1, y)" by fastforce
    obtain out' where r: "run_mail post fetch s1 ops = (s', out', acc)"
      "out = (case y of None \<Rightarrow> out' | Some v \<Rightarrow> (c, v) # out')"
      using Cons.prems(4) Fetch s1 by (auto split: prod.splits)
    have c: "dest c"
      using Cons.prems(3) [of c] Fetch by auto
    have "invar s' \<and> only d out' @ boxes s' d = boxes s1 d @ map nrm (only d acc)"
      by (rule Cons.IH [OF fetch_invar [OF Cons.prems(1) c s1] _ _ r(1) Cons.prems(5)])
        (use Cons.prems(2,3) in auto)
    then show ?thesis
      using fetch_boxes [OF Cons.prems(1) c s1 Cons.prems(5)] r(2)
      by (auto simp: only_def split: option.splits)
  qed
qed

end

section \<open>Processes over the system\<close>

record net =
  nshm :: shm
  procs :: "nat \<Rightarrow> System"

text \<open>What a sender brings: the outcome of its system calls, its process and the message.\<close>

type_synonym letter = "os \<times> nat \<times> message"

definition net_post :: "cint \<Rightarrow> letter \<Rightarrow> net \<Rightarrow> net \<times> bool" where
  "net_post d l n =
     (case l of (e, p, x) \<Rightarrow>
        (case send e (nshm n) (procs n p) (Some x) d of
           Inr (s', this', _, r) \<Rightarrow>
             (n\<lparr>nshm := s', procs := (procs n)(p := this')\<rparr>, r = 1)
         | Inl _ \<Rightarrow> (n, False)))"

text \<open>\<open>own d\<close> is the process of the task with identifier \<open>d\<close>.\<close>

definition net_fetch :: "blocks \<Rightarrow> (cint \<Rightarrow> nat) \<Rightarrow> cint \<Rightarrow> net \<Rightarrow> net \<times> message option" where
  "net_fetch b own d n =
     (case receive b (nshm n) (procs n (own d)) d of
        Inr (s', y) \<Rightarrow> (n\<lparr>nshm := s'\<rparr>, Some (norm_msg y))
      | Inl _ \<Rightarrow> (n, None))"

definition net_create :: "os \<Rightarrow> (cint \<Rightarrow> nat) \<Rightarrow> cint \<Rightarrow> net \<Rightarrow> net res" where
  "net_create e own d n =
     bindR (createMsgQ e (nshm n) (procs n (own d)) d) (\<lambda>(s', this').
       Inr (n\<lparr>nshm := s', procs := (procs n)(own d := this')\<rparr>))"

definition qname :: "cint \<Rightarrow> string" where
  "qname d = (case queue_name d of Inr nm \<Rightarrow> nm | Inl _ \<Rightarrow> [])"

definition net_boxes :: "blocks \<Rightarrow> (cint \<Rightarrow> nat) \<Rightarrow> net \<Rightarrow> cint \<Rightarrow> message list" where
  "net_boxes b own n d =
     (case TaskTable (procs n (own d)) ! unat d of
        None \<Rightarrow> []
      | Some q \<Rightarrow> q_abs b (qr_view q) (shm_segs (nshm n) (qr_seg q)))"

definition shm_wf :: "shm \<Rightarrow> bool" where
  "shm_wf s \<longleftrightarrow>
     (\<forall>nm g. shm_names s nm = Some g \<longrightarrow> g < shm_next s) \<and>
     (\<forall>nm nm' g. shm_names s nm = Some g \<and> shm_names s nm' = Some g \<longrightarrow> nm = nm')"

text \<open>
  The invariant, for the tasks \<open>D\<close> whose queues exist: every table entry for a task refers to the
  segment its queue name refers to, and the owner's entry is there and holds a valid queue.
\<close>

definition net_inv :: "blocks \<Rightarrow> (cint \<Rightarrow> nat) \<Rightarrow> cint set \<Rightarrow> net \<Rightarrow> bool" where
  "net_inv b own D n \<longleftrightarrow>
     shm_wf (nshm n) \<and> (\<forall>p. length (TaskTable (procs n p)) = MAX_TASK) \<and>
     (\<forall>d \<in> D. unat d < MAX_TASK \<and>
        (\<exists>q. TaskTable (procs n (own d)) ! unat d = Some q \<and> receiver_ok b (qr_view q) \<and>
             queue_inv b (qr_view q) (shm_segs (nshm n) (qr_seg q)))) \<and>
     (\<forall>p q d. unat d < MAX_TASK \<longrightarrow> TaskTable (procs n p) ! unat d = Some q \<longrightarrow>
        shm_names (nshm n) (qname d) = Some (qr_seg q))"

definition wf_letter :: "letter \<Rightarrow> bool" where
  "wf_letter l \<longleftrightarrow> wf_msg (snd (snd l)) \<and> msg_len (snd (snd l)) < 2 ^ 31 - Q_SIZE"

section \<open>The operations of the system on a task with a queue\<close>

lemma task_index: "unat (d :: cint) < 100 \<Longrightarrow> sint d = int (unat d)"
  by (rule sint_small) simp

lemma sint_nonneg_small:
  assumes "0 \<le> sint (d :: cint)" "sint d < int k"
  shows "unat d < k"
proof -
  have "uint d = sint d mod 2 ^ 32"
    by (simp add: uint_sint take_bit_eq_mod)
  moreover have "sint d < 2 ^ 31"
    using sint_lt [of d] by simp
  ultimately have "uint d = sint d"
    using assms(1) by simp
  with assms show ?thesis
    by (simp only: unat_eq_nat_uint nat_less_iff)
qed

lemma table_get_small:
  assumes "unat (d :: cint) < 100" "length (TaskTable this) = 100"
  shows "table_get this (sint d) = Inr (TaskTable this ! unat d)"
    "table_set this (sint d) q = Inr (this\<lparr>TaskTable := (TaskTable this)[unat d := q]\<rparr>)"
    "table_set this (uint d) q = Inr (this\<lparr>TaskTable := (TaskTable this)[unat d := q]\<rparr>)"
proof -
  have "0 \<le> int (unat d)" "int (unat d) < int (length (TaskTable this))" "nat (int (unat d)) = unat d"
    using assms by linarith+
  then show "table_get this (sint d) = Inr (TaskTable this ! unat d)"
    "table_set this (sint d) q = Inr (this\<lparr>TaskTable := (TaskTable this)[unat d := q]\<rparr>)"
    "table_set this (uint d) q = Inr (this\<lparr>TaskTable := (TaskTable this)[unat d := q]\<rparr>)"
    by (simp_all only: table_get_def table_set_def task_index [OF assms(1)] uint_nat) simp_all
qed

lemma qname_small: "unat d < 100 \<Longrightarrow> queue_name d = Inr (qname d)"
  using queue_name_small [of d] by (auto simp: qname_def)

lemma qname_inj: "unat d < 100 \<Longrightarrow> unat c < 100 \<Longrightarrow> qname d = qname c \<Longrightarrow> d = c"
  using qname_small queue_name_inj by metis

lemma AcquireQueue_seg: "AcquireQueue e s nm = Some q \<Longrightarrow> shm_names s nm = Some (qr_seg q)"
  by (auto simp: AcquireQueue_def split: if_splits option.splits)

definition acquired :: "os \<Rightarrow> shm \<Rightarrow> System \<Rightarrow> cint \<Rightarrow> System" where
  "acquired e s this d =
     (if TaskTable this ! unat d = None
      then this\<lparr>TaskTable := (TaskTable this)[unat d := AcquireQueue e s (qname d)]\<rparr> else this)"

lemma check_Q_small:
  assumes "unat d < 100" "length (TaskTable this) = 100"
  shows "check_Q_and_acquire e s this d = Inr (acquired e s this d)"
  using assms by (simp add: check_Q_and_acquire_def table_get_small acquired_def qname_small)

lemma acquired_table:
  assumes "unat d < 100" "length (TaskTable this) = 100"
  shows "length (TaskTable (acquired e s this d)) = 100"
    "c \<noteq> d \<Longrightarrow> unat c < 100 \<Longrightarrow> TaskTable (acquired e s this d) ! unat c = TaskTable this ! unat c"
    "TaskTable this ! unat d = Some q \<Longrightarrow> acquired e s this d = this"
    "TaskTable (acquired e s this d) ! unat d = Some q \<Longrightarrow>
       TaskTable this ! unat d = Some q \<or> shm_names s (qname d) = Some (qr_seg q)"
  using assms by (auto simp: acquired_def nth_list_update AcquireQueue_seg word_unat_eq_iff
      split: if_splits)

lemma send_small:
  assumes "unat d < 100" "length (TaskTable this) = 100"
  shows "send e s this (Some x) d =
    (case TaskTable (acquired e s this d) ! unat d of
       None \<Rightarrow> Inr (s, acquired e s this d, Some x, 0)
     | Some q \<Rightarrow> bindR (Enqueue_body (qr_view q) (shm_segs s (qr_seg q)) x) (\<lambda>(Q', x', r).
         Inr (s\<lparr>shm_segs := (shm_segs s)(qr_seg q := Q')\<rparr>, acquired e s this d, Some x', r)))"
  using assms acquired_table(1) [OF assms, of e s]
  by (cases "TaskTable (acquired e s this d) ! unat d")
    (auto simp: send_def check_Q_small table_get_small Enqueue_def bindR_def split: sum.split)

lemma receive_small:
  assumes "unat d < 100" "length (TaskTable this) = 100" "TaskTable this ! unat d = Some q"
  shows "receive b s this d =
    bindR (Dequeue_body (qr_view q) (shm_segs s (qr_seg q))) (\<lambda>(Q', r).
      case r of None \<Rightarrow> Inl NullDeref
      | Some (p, ms) \<Rightarrow> bindR (clone_at b (qr_view q) ms (qmem Q') p)
          (\<lambda>y. Inr (s\<lparr>shm_segs := (shm_segs s)(qr_seg q := Q')\<rparr>, y)))"
  using assms
  by (auto simp: receive_def table_get_small Dequeue_def bindR_def split: sum.split option.split)


section \<open>Invariant and boxes\<close>

lemma net_inv_owner:
  assumes "net_inv b own D n" "d \<in> D"
  obtains q where "unat d < 100" "TaskTable (procs n (own d)) ! unat d = Some q"
    "receiver_ok b (qr_view q)" "queue_inv b (qr_view q) (shm_segs (nshm n) (qr_seg q))"
    "shm_names (nshm n) (qname d) = Some (qr_seg q)"
    "net_boxes b own n d = q_abs b (qr_view q) (shm_segs (nshm n) (qr_seg q))"
proof -
  obtain q where "unat d < 100" "TaskTable (procs n (own d)) ! unat d = Some q"
    "receiver_ok b (qr_view q)" "queue_inv b (qr_view q) (shm_segs (nshm n) (qr_seg q))"
    using assms unfolding net_inv_def by auto
  with assms that show ?thesis
    unfolding net_inv_def by (auto simp: net_boxes_def)
qed

lemma net_inv_table: "net_inv b own D n \<Longrightarrow> length (TaskTable (procs n p)) = 100"
  by (simp add: net_inv_def)

lemma net_inv_ref:
  "net_inv b own D n \<Longrightarrow> unat d < 100 \<Longrightarrow> TaskTable (procs n p) ! unat d = Some q \<Longrightarrow>
     shm_names (nshm n) (qname d) = Some (qr_seg q)"
  by (simp add: net_inv_def)

text \<open>Two tasks have different segments.\<close>

lemma net_inv_segs_differ:
  fixes d c :: cint
  assumes inv: "net_inv b own D n" and "unat d < 100" "unat c < 100" "c \<noteq> d"
    "TaskTable (procs n p) ! unat d = Some q" "TaskTable (procs n p') ! unat c = Some r"
  shows "qr_seg q \<noteq> qr_seg r"
proof
  assume "qr_seg q = qr_seg r"
  then have "shm_names (nshm n) (qname d) = Some (qr_seg r)" "shm_names (nshm n) (qname c) = Some (qr_seg r)"
    using net_inv_ref [OF inv] assms by metis+
  then have "qname d = qname c"
    using inv unfolding net_inv_def shm_wf_def by blast
  with assms qname_inj show False by blast
qed

text \<open>A process that looks up a queue changes only its own table.\<close>

lemma net_acquire:
  fixes e :: os and p :: nat
  assumes inv: "net_inv b own D n" and d: "unat d < 100"
  defines "n' \<equiv> n\<lparr>procs := (procs n)(p := acquired e (nshm n) (procs n p) d)\<rparr>"
  shows "net_inv b own D n'" "c \<in> D \<Longrightarrow> net_boxes b own n' c = net_boxes b own n c"
proof -
  note tab = acquired_table [OF d net_inv_table [OF inv, of p], where e = e and s = "nshm n"]
  have own: "TaskTable (procs n' (own c)) ! unat c = TaskTable (procs n (own c)) ! unat c"
    if "c \<in> D" for c
  proof -
    from net_inv_owner [OF inv that] obtain q where
      "unat c < 100" "TaskTable (procs n (own c)) ! unat c = Some q" by blast
    then show ?thesis
      using tab(2,3) by (cases "c = d"; cases "own c = p") (auto simp: n'_def)
  qed
  moreover have "nshm n' = nshm n"
    by (simp add: n'_def)
  ultimately show "c \<in> D \<Longrightarrow> net_boxes b own n' c = net_boxes b own n c"
    by (simp add: net_boxes_def split: option.split)
  have ref: "shm_names (nshm n) (qname c) = Some (qr_seg q)"
    if "unat c < 100" "TaskTable (procs n' r) ! unat c = Some q" for r q c
  proof (cases "c = d \<and> r = p")
    case True
    with that tab(4) [of q] net_inv_ref [OF inv d, of p] show ?thesis
      by (auto simp: n'_def)
  next
    case False
    with that tab(2) [of c] net_inv_ref [OF inv that(1)] show ?thesis
      by (auto simp: n'_def split: if_splits)
  qed
  have len: "length (TaskTable (procs n' r)) = 100" for r
    using tab(1) net_inv_table [OF inv] by (simp add: n'_def)
  show "net_inv b own D n'"
    using inv own ref len unfolding net_inv_def by (simp add: n'_def)
qed

text \<open>A change inside the segment of one task concerns that task only.\<close>

lemma net_update_seg:
  fixes Q' :: Queue
  assumes inv: "net_inv b own D n" and d: "d \<in> D" "TaskTable (procs n (own d)) ! unat d = Some q"
    and Q': "queue_inv b (qr_view q) Q'"
  defines "n' \<equiv> n\<lparr>nshm := (nshm n)\<lparr>shm_segs := (shm_segs (nshm n))(qr_seg q := Q')\<rparr>\<rparr>"
  shows "net_inv b own D n'"
    "c \<in> D \<Longrightarrow> net_boxes b own n' c = (if c = d then q_abs b (qr_view q) Q' else net_boxes b own n c)"
proof -
  have du: "unat d < 100"
    using net_inv_owner [OF inv d(1)] by blast
  have seg: "shm_segs (nshm n') (qr_seg r) = (if c = d then Q' else shm_segs (nshm n) (qr_seg r))"
    if "c \<in> D" "TaskTable (procs n (own c)) ! unat c = Some r" for c r
  proof -
    have "unat c < 100"
      using net_inv_owner [OF inv that(1)] by blast
    with net_inv_segs_differ [OF inv du this _ d(2) that(2)] d(2) that(2) show ?thesis
      by (auto simp: n'_def)
  qed
  have procs: "procs n' = procs n"
    by (simp add: n'_def)
  show "net_boxes b own n' c = (if c = d then q_abs b (qr_view q) Q' else net_boxes b own n c)"
    if c: "c \<in> D"
  proof -
    obtain r where r: "TaskTable (procs n (own c)) ! unat c = Some r"
      using net_inv_owner [OF inv c] by blast
    with seg [OF c r] d(2) procs show ?thesis
      by (auto simp: net_boxes_def)
  qed
  have "\<exists>r. TaskTable (procs n (own c)) ! unat c = Some r \<and> receiver_ok b (qr_view r) \<and>
      queue_inv b (qr_view r) (shm_segs (nshm n') (qr_seg r))" if c: "c \<in> D" for c
  proof -
    obtain r where "TaskTable (procs n (own c)) ! unat c = Some r" "receiver_ok b (qr_view r)"
      "queue_inv b (qr_view r) (shm_segs (nshm n) (qr_seg r))"
      using net_inv_owner [OF inv c] by blast
    with seg [OF c, of r] d(2) Q' show ?thesis by auto
  qed
  with inv show "net_inv b own D n'"
    unfolding net_inv_def by (simp add: n'_def shm_wf_def)
qed


text \<open>What one send and one receive do, seen from the boxes.\<close>

lemma net_post_boxes:
  assumes inv: "net_inv b own D n" and d: "d \<in> D" and wf: "wf_letter l"
    and post: "net_post d l n = (n', ok)"
  shows "net_inv b own D n'"
    "c \<in> D \<Longrightarrow> net_boxes b own n' c =
       net_boxes b own n c @ (if ok \<and> c = d then [norm_msg (snd (snd l))] else [])"
proof -
  obtain e p x where l: "l = (e, p, x)" by (cases l)
  obtain q where q: "unat d < 100" "TaskTable (procs n (own d)) ! unat d = Some q"
    "receiver_ok b (qr_view q)" "queue_inv b (qr_view q) (shm_segs (nshm n) (qr_seg q))"
    "shm_names (nshm n) (qname d) = Some (qr_seg q)"
    "net_boxes b own n d = q_abs b (qr_view q) (shm_segs (nshm n) (qr_seg q))"
    using net_inv_owner [OF inv d] by blast
  let ?sys = "acquired e (nshm n) (procs n p) d"
  let ?n = "n\<lparr>procs := (procs n)(p := ?sys)\<rparr>"
  note acq = net_acquire [OF inv q(1), where p = p and e = e]
  note snd = send_small [OF q(1) net_inv_table [OF inv, of p], of e "nshm n" x]
  have "net_inv b own D n' \<and> (c \<in> D \<longrightarrow> net_boxes b own n' c =
       net_boxes b own n c @ (if ok \<and> c = d then [norm_msg x] else []))"
  proof (cases "TaskTable ?sys ! unat d")
    case None
    then have "n' = ?n" "\<not> ok"
      using post snd by (auto simp: net_post_def l)
    with acq show ?thesis by simp
  next
    case (Some r)
    have r: "qr_seg r = qr_seg q"
      using net_inv_ref [OF acq(1) q(1), of p r] Some q(5) by simp
    have q': "TaskTable (procs ?n (own d)) ! unat d = Some q"
      using acquired_table(3) [OF q(1) net_inv_table [OF inv] q(2)] q(2) by auto
    obtain bs where rep: "mq.rep b (qr_view q) (ring_of (shm_segs (nshm n) (qr_seg q))) bs"
      using q(4) by (auto simp: queue_inv_def)
    have wfx: "wf_item b (qr_view q) (qr_view r, x)"
      using wf q(3) by (simp add: l wf_letter_def wf_item_def)
    from rep wfx show ?thesis
    proof (cases rule: Enqueue_cases)
      case refused
      then have "n' = ?n" "\<not> ok"
        using post snd Some r by (auto simp: net_post_def l)
      with acq show ?thesis by simp
    next
      case (accepted Q' pos)
      then have n': "n' = ?n\<lparr>nshm := (nshm ?n)\<lparr>shm_segs := (shm_segs (nshm ?n))(qr_seg q := Q')\<rparr>\<rparr>" "ok"
        using post snd Some r by (auto simp: net_post_def l)
      note upd = net_update_seg [OF acq(1) d q' queue_invI [OF accepted(2)]]
      have "q_abs b (qr_view q) Q' = net_boxes b own n d @ [norm_msg x]"
        using q_abs_rep [OF rep] q_abs_rep [OF accepted(2)] q(6) by simp
      with upd acq(2) n' show ?thesis by simp
    qed
  qed
  then show "net_inv b own D n'"
    "c \<in> D \<Longrightarrow> net_boxes b own n' c =
       net_boxes b own n c @ (if ok \<and> c = d then [norm_msg (snd (snd l))] else [])"
    by (simp_all add: l)
qed

lemma net_fetch_boxes:
  assumes inv: "net_inv b own D n" and d: "d \<in> D" and fetch: "net_fetch b own d n = (n', r)"
  shows "net_inv b own D n'"
    "c \<in> D \<Longrightarrow> net_boxes b own n c =
       (case r of None \<Rightarrow> [] | Some y \<Rightarrow> if c = d then [y] else []) @ net_boxes b own n' c"
    "r = None \<longleftrightarrow> net_boxes b own n d = []"
proof -
  obtain q where q: "unat d < 100" "TaskTable (procs n (own d)) ! unat d = Some q"
    "queue_inv b (qr_view q) (shm_segs (nshm n) (qr_seg q))"
    "net_boxes b own n d = q_abs b (qr_view q) (shm_segs (nshm n) (qr_seg q))"
    using net_inv_owner [OF inv d] by blast
  let ?Q = "shm_segs (nshm n) (qr_seg q)"
  note rcv = receive_small [OF q(1) net_inv_table [OF inv] q(2), of b "nshm n"]
  obtain bs where rep: "mq.rep b (qr_view q) (ring_of ?Q) bs"
    using q(3) by (auto simp: queue_inv_def)
  have "net_inv b own D n' \<and> (c \<in> D \<longrightarrow> net_boxes b own n c =
      (case r of None \<Rightarrow> [] | Some y \<Rightarrow> if c = d then [y] else []) @ net_boxes b own n' c) \<and>
      (r = None \<longleftrightarrow> net_boxes b own n d = [])"
  proof (cases bs)
    case Nil
    with rep have rep0: "mq.rep b (qr_view q) (ring_of ?Q) []" by simp
    then have "n' = n" "r = None"
      using fetch rcv Dequeue_empty [OF rep0] by (auto simp: net_fetch_def)
    with inv q(4) q_abs_rep [OF rep0] show ?thesis by simp
  next
    case (Cons px bs')
    obtain p w x where "px = (p, w, x)" by (cases px)
    with Cons rep have rep1: "mq.rep b (qr_view q) (ring_of ?Q) ((p, w, x) # bs')" by simp
    from rep1 show ?thesis
    proof (cases rule: Dequeue_first)
      case (1 Q' ms y)
      then have n': "n' = n\<lparr>nshm := (nshm n)\<lparr>shm_segs := (shm_segs (nshm n))(qr_seg q := Q')\<rparr>\<rparr>"
        "r = Some (norm_msg x)"
        using fetch rcv by (auto simp: net_fetch_def)
      note upd = net_update_seg [OF inv d q(2) queue_invI [OF 1(2)]]
      have "net_boxes b own n d = norm_msg x # q_abs b (qr_view q) Q'"
        using q_abs_rep [OF rep1] q_abs_rep [OF 1(2)] q(4) by simp
      with upd n' show ?thesis by simp
    qed
  qed
  then show "net_inv b own D n'"
    "c \<in> D \<Longrightarrow> net_boxes b own n c =
       (case r of None \<Rightarrow> [] | Some y \<Rightarrow> if c = d then [y] else []) @ net_boxes b own n' c"
    "r = None \<longleftrightarrow> net_boxes b own n d = []"
    by blast+
qed

interpretation tasks: mailboxes
    net_post "net_fetch b own" "net_boxes b own" "net_inv b own D" "\<lambda>d. d \<in> D" wf_letter
    "\<lambda>l. norm_msg (snd (snd l))"
    for b own D
proof (unfold_locales, goal_cases)
  case (1 s d x s' ok)
  then show ?case by (rule net_post_boxes(1))
next
  case (2 s d x s' ok c)
  then show ?case by (rule net_post_boxes(2))
next
  case (3 s d s' r)
  then show ?case by (rule net_fetch_boxes(1))
next
  case (4 s d s' r c)
  then show ?case by (rule net_fetch_boxes(2))
next
  case (5 s d)
  then show ?case using net_fetch_boxes(3) [OF 5(1,2)] by (cases "net_fetch b own d s") simp
qed


section \<open>Creating the queues\<close>

text \<open>A set of processes that have just been started: no queue exists and no table entry is set.\<close>

definition net_start :: net where
  "net_start = \<lparr>nshm = \<lparr>shm_names = (\<lambda>_. None), shm_segs = (\<lambda>_. zero_segment), shm_next = 0\<rparr>,
     procs = (\<lambda>_. System_initialize 0 0)\<rparr>"

fun create_all :: "os \<Rightarrow> (cint \<Rightarrow> nat) \<Rightarrow> cint list \<Rightarrow> net \<Rightarrow> net res" where
  "create_all e own [] n = Inr n"
| "create_all e own (d # ds) n = bindR (net_create e own d n) (create_all e own ds)"

text \<open>No process knows a queue of the task, and the name is unused.\<close>

definition unknown :: "net \<Rightarrow> cint \<Rightarrow> bool" where
  "unknown n d \<longleftrightarrow> shm_names (nshm n) (qname d) = None \<and> (\<forall>p. TaskTable (procs n p) ! unat d = None)"

lemma net_start_inv: "net_inv b own {} net_start"
  by (simp add: net_inv_def net_start_def shm_wf_def System_initialize_def)

lemma net_start_unknown: "unat d < 100 \<Longrightarrow> unknown net_start d"
  by (simp add: unknown_def net_start_def System_initialize_def)

definition os_ok :: "os \<Rightarrow> bool" where
  "os_ok e \<longleftrightarrow> shm_open_ok e \<and> ftruncate_ok e \<and> (\<exists>a. mmap_addr e = Some a \<and> a + Q_SIZE < 2 ^ 64)"

lemma net_create_step:
  assumes inv: "net_inv b own D n" and e: "os_ok e" and b: "blocks_ok b"
    and d: "unat d < 100" "unknown n d"
  shows "\<exists>n'. net_create e own d n = Inr n' \<and> net_inv b own (insert d D) n' \<and>
     net_boxes b own n' d = [] \<and> (\<forall>c \<in> D. net_boxes b own n' c = net_boxes b own n c) \<and>
     (\<forall>c. c \<noteq> d \<and> unat c < 100 \<and> unknown n c \<longrightarrow> unknown n' c)"
proof -
  obtain a where a: "mmap_addr e = Some a" "a + Q_SIZE < 2 ^ 64"
    using e by (auto simp: os_ok_def)
  let ?g = "shm_next (nshm n)" and ?p = "own d"
  let ?q = "\<lparr>qr_seg = ?g, qr_view = \<lparr>vbase = a, vlen = Q_SIZE\<rparr>\<rparr>"
  let ?s = "(nshm n)\<lparr>shm_names := (shm_names (nshm n))(qname d := Some ?g),
    shm_segs := (shm_segs (nshm n))(?g := init_queue zero_segment), shm_next := Suc ?g\<rparr>"
  let ?sys = "(procs n ?p)\<lparr>TaskTable := (TaskTable (procs n ?p))[unat d := Some ?q]\<rparr>"
  define n' where "n' = n\<lparr>nshm := ?s, procs := (procs n)(?p := ?sys)\<rparr>"
  have len: "length (TaskTable (procs n r)) = 100" for r
    using net_inv_table [OF inv] .
  have create: "net_create e own d n = Inr n'"
    using e a d len [of ?p]
    by (simp add: net_create_def createMsgQ_def qname_small CreateQueue_def os_ok_def
        shm_open_create_def unknown_def table_get_small n'_def)
  have tab: "TaskTable (procs n' r) ! unat c =
      (if c = d \<and> r = ?p then Some ?q else TaskTable (procs n r) ! unat c)" if "unat c < 100"
    for r and c :: cint
    using that d(1) len [of ?p] by (auto simp: n'_def nth_list_update word_unat_eq_iff)
  have shm: "nshm n' = ?s"
    by (simp add: n'_def)
  have wf: "shm_wf (nshm n')"
    using inv d(2) unfolding net_inv_def shm_wf_def unknown_def shm by (auto simp: less_Suc_eq)
  have old: "qr_seg r \<noteq> ?g" if "unat c < 100" "TaskTable (procs n x) ! unat c = Some r" for c :: cint and x r
    using net_inv_ref [OF inv that] inv unfolding net_inv_def shm_wf_def by force
  have names: "shm_names (nshm n') (qname c) = Some (qr_seg r)"
    if "unat c < 100" "TaskTable (procs n' x) ! unat c = Some r" for c x r
  proof (cases "c = d")
    case True
    with that tab [OF that(1), of x] d(2) have "r = ?q"
      by (auto simp: unknown_def split: if_splits)
    with True show ?thesis by (simp add: shm)
  next
    case False
    then have "TaskTable (procs n x) ! unat c = Some r" "qname c \<noteq> qname d"
      using that tab [OF that(1), of x] qname_inj [OF that(1) d(1)] by auto
    with net_inv_ref [OF inv that(1)] show ?thesis by (simp add: shm)
  qed
  have owner: "TaskTable (procs n' (own c)) ! unat c = TaskTable (procs n (own c)) ! unat c \<and> c \<noteq> d \<and>
      unat c < 100" if c: "c \<in> D" for c
  proof -
    obtain r where "unat c < 100" "TaskTable (procs n (own c)) ! unat c = Some r"
      using net_inv_owner [OF inv c] by blast
    moreover from this d(2) have "c \<noteq> d"
      by (auto simp: unknown_def)
    ultimately show ?thesis
      using tab by simp
  qed
  have boxes: "net_boxes b own n' c = net_boxes b own n c" if c: "c \<in> D" for c
    using owner [OF c] old [of c "own c"]
    by (auto simp: net_boxes_def shm split: option.split)
  have keep: "\<exists>r. TaskTable (procs n' (own c)) ! unat c = Some r \<and> receiver_ok b (qr_view r) \<and>
      queue_inv b (qr_view r) (shm_segs (nshm n') (qr_seg r))" if c: "c \<in> D" for c
  proof -
    obtain r where r: "unat c < 100" "TaskTable (procs n (own c)) ! unat c = Some r"
      "receiver_ok b (qr_view r)" "queue_inv b (qr_view r) (shm_segs (nshm n) (qr_seg r))"
      using net_inv_owner [OF inv c] by blast
    with owner [OF c] old [OF r(1,2)] show ?thesis by (auto simp: shm)
  qed
  have new: "TaskTable (procs n' ?p) ! unat d = Some ?q" "receiver_ok b (qr_view ?q)"
    "queue_inv b (qr_view ?q) (shm_segs (nshm n') (qr_seg ?q))"
    using tab [OF d(1), of ?p] b a(2)
    by (auto simp: receiver_ok_def wf_view_def shm)
  have "net_inv b own (insert d D) n'"
    unfolding net_inv_def
    using wf keep new names owner d(1) len by (auto simp: n'_def)
  moreover have "net_boxes b own n' d = []"
    using new(1) by (simp add: net_boxes_def shm)
  moreover have "unknown n' c" if "c \<noteq> d" "unat c < 100" "unknown n c" for c
    using that d(1) qname_inj [of c d] tab by (auto simp: unknown_def shm)
  ultimately show ?thesis
    using create boxes by blast
qed

lemma create_all_inv:
  assumes "net_inv b own D n" "os_ok e" "blocks_ok b" "distinct ds"
    "\<forall>d \<in> set ds. unat d < 100 \<and> unknown n d"
  shows "\<exists>n'. create_all e own ds n = Inr n' \<and> net_inv b own (set ds \<union> D) n' \<and>
     (\<forall>d \<in> set ds. net_boxes b own n' d = []) \<and> (\<forall>c \<in> D. net_boxes b own n' c = net_boxes b own n c)"
  using assms
proof (induction ds arbitrary: n D)
  case (Cons d ds)
  obtain n1 where n1: "net_create e own d n = Inr n1" "net_inv b own (insert d D) n1"
    "net_boxes b own n1 d = []" "\<forall>c \<in> D. net_boxes b own n1 c = net_boxes b own n c"
    "\<forall>c. c \<noteq> d \<and> unat c < 100 \<and> unknown n c \<longrightarrow> unknown n1 c"
    using net_create_step [OF Cons.prems(1-3), of d] Cons.prems(5) by auto
  have "\<forall>c \<in> set ds. unat c < 100 \<and> unknown n1 c"
    using Cons.prems(4,5) n1(5) by auto
  from Cons.IH [OF n1(2) Cons.prems(2,3) _ this] Cons.prems(4) obtain n2 where
    n2: "create_all e own ds n1 = Inr n2" "net_inv b own (set ds \<union> insert d D) n2"
    "\<forall>d \<in> set ds. net_boxes b own n2 d = []"
    "\<forall>c \<in> insert d D. net_boxes b own n2 c = net_boxes b own n1 c"
    by auto
  then show ?case
    using n1 by auto
qed simp


section \<open>Properties\<close>

text \<open>
  C2. End to end delivery by task identifier: any number of processes start, the tasks \<open>ds\<close>
  create their queues, and then any interleaving of \<open>send\<close> and \<open>receive\<close> by identifier takes place
  (senders look up the queues themselves).  Every task receives, in order, exactly the messages
  accepted for it: nothing is lost, duplicated, altered, reordered or delivered to another task.
\<close>

theorem tasks_fifo:
  assumes "os_ok e" "blocks_ok b" "distinct ds" "\<forall>d \<in> set ds. unat d < MAX_TASK"
    "\<forall>d l. Post d l \<in> set ops \<longrightarrow> d \<in> set ds \<and> wf_letter l" "\<forall>d. Fetch d \<in> set ops \<longrightarrow> d \<in> set ds"
    "d \<in> set ds"
  shows "\<exists>n. create_all e own ds net_start = Inr n \<and>
     (case run_mail net_post (net_fetch b own) n ops of (n', out, acc) \<Rightarrow>
        only d out @ net_boxes b own n' d = map (\<lambda>l. norm_msg (snd (snd l))) (only d acc))"
proof -
  have "\<forall>d \<in> set ds. unat d < 100 \<and> unknown net_start d"
    using assms(4) net_start_unknown by simp
  from create_all_inv [OF net_start_inv assms(1-3) this] obtain n where
    n: "create_all e own ds net_start = Inr n" "net_inv b own (set ds) n"
    "\<forall>d \<in> set ds. net_boxes b own n d = []"
    by auto
  obtain n' out acc where run: "run_mail net_post (net_fetch b own) n ops = (n', out, acc)"
    by (cases "run_mail net_post (net_fetch b own) n ops") blast
  have "only d out @ net_boxes b own n' d = net_boxes b own n d @ map (\<lambda>l. norm_msg (snd (snd l))) (only d acc)"
    using tasks.run_boxes [OF n(2) _ _ run assms(7)] assms(5,6) by blast
  with n assms(7) run show ?thesis by simp
qed

theorem tasks_fifo_witness:
  "\<exists>n. create_all sample_os (\<lambda>d. unat d) [1, 2] net_start = Inr n \<and>
     (case run_mail net_post (net_fetch sample_blocks (\<lambda>d. unat d)) n
         [Post 1 (sample_os, 2, sample_bar 1 5), Post 2 (sample_os, 1, sample_ints 4), Fetch 1] of
        (n', out, acc) \<Rightarrow>
          only 1 out @ net_boxes sample_blocks (\<lambda>d. unat d) n' 1 =
            map (\<lambda>l. norm_msg (snd (snd l))) (only 1 acc))"
proof (rule tasks_fifo)
  show "os_ok sample_os"
    by (simp add: os_ok_def sample_os_def Q_SIZE_def)
  show "blocks_ok sample_blocks"
    using sample_receiver by (simp add: receiver_ok_def)
qed (auto simp: wf_letter_def sample_ints_wf Q_SIZE_def)

text \<open>
  Errors of \<open>send\<close>: to a task that has no queue it returns 0 and changes no queue; an
  identifier outside the table is an out-of-bounds access.
\<close>

theorem send_errors:
  assumes "length (TaskTable this) = MAX_TASK"
  shows "(unat d < MAX_TASK \<and> TaskTable this ! unat d = None \<and> AcquireQueue e s (qname d) = None \<longrightarrow>
       send e s this msg d = Inr (s, this, msg, 0)) \<and>
     (MAX_TASK \<le> unat d \<longrightarrow> send e s this msg d = Inl OutOfBounds)"
proof (intro conjI impI)
  assume d: "unat d < MAX_TASK \<and> TaskTable this ! unat d = None \<and> AcquireQueue e s (qname d) = None"
  then have d': "unat d < 100" "TaskTable this ! unat d = None" and len: "length (TaskTable this) = 100"
    using assms by simp_all
  have "acquired e s this d = this"
    using d list_update_id [of "TaskTable this" "unat d"] by (simp add: acquired_def)
  then show "send e s this msg d = Inr (s, this, msg, 0)"
    using check_Q_small [OF d'(1) len, of e s] d'(2)
    by (simp add: send_def table_get_small [OF d'(1) len] Enqueue_def)
next
  assume "MAX_TASK \<le> unat d"
  then have "\<not> (0 \<le> sint d \<and> sint d < 100)"
    using sint_nonneg_small [of d 100] by auto
  then have "table_get this (sint d) = Inl OutOfBounds"
    using assms by (simp add: table_get_def)
  then show "send e s this msg d = Inl OutOfBounds"
    by (simp add: send_def check_Q_and_acquire_def)
qed

theorem send_errors_witness:
  "send sample_os (nshm net_start) (procs net_start 0) (Some (sample_bar 1 5)) 7 =
     Inr (nshm net_start, procs net_start 0, Some (sample_bar 1 5), 0) \<and>
   send sample_os (nshm net_start) (procs net_start 0) (Some (sample_bar 1 5)) 100 = Inl OutOfBounds"
proof -
  have "length (TaskTable (procs net_start 0)) = MAX_TASK"
    by (simp add: net_start_def System_initialize_def)
  note err = send_errors [OF this, where e = sample_os and s = "nshm net_start"
      and msg = "Some (sample_bar 1 5)"]
  from err [of 7] err [of 100] show ?thesis
    by (simp add: net_start_def System_initialize_def AcquireQueue_def)
qed

text \<open>
  \<open>receive\<close> on a task whose queue is empty does not reach the \<open>exit (-1)\<close> of its error branch:
  it dereferences the null message first.  A task must therefore check for a message before it
  receives, and then \<open>receive\<close> returns the oldest one.
\<close>

theorem receive_spec:
  assumes "net_inv b own D n" "d \<in> D"
  shows "case net_boxes b own n d of
     [] \<Rightarrow> receive b (nshm n) (procs n (own d)) d = Inl NullDeref
   | y # ys \<Rightarrow> (\<exists>s' z. receive b (nshm n) (procs n (own d)) d = Inr (s', z) \<and> norm_msg z = y)"
proof -
  obtain q where q: "unat d < 100" "TaskTable (procs n (own d)) ! unat d = Some q"
    "queue_inv b (qr_view q) (shm_segs (nshm n) (qr_seg q))"
    "net_boxes b own n d = q_abs b (qr_view q) (shm_segs (nshm n) (qr_seg q))"
    using net_inv_owner [OF assms] by blast
  let ?Q = "shm_segs (nshm n) (qr_seg q)"
  note rcv = receive_small [OF q(1) net_inv_table [OF assms(1)] q(2), of b "nshm n"]
  obtain bs where rep: "mq.rep b (qr_view q) (ring_of ?Q) bs"
    using q(3) by (auto simp: queue_inv_def)
  show ?thesis
  proof (cases bs)
    case Nil
    with rep have rep0: "mq.rep b (qr_view q) (ring_of ?Q) []" by simp
    from rcv Dequeue_empty [OF rep0] q_abs_rep [OF rep0] q(4) show ?thesis by simp
  next
    case (Cons px bs')
    obtain p w x where "px = (p, w, x)" by (cases px)
    with Cons rep have rep1: "mq.rep b (qr_view q) (ring_of ?Q) ((p, w, x) # bs')" by simp
    from rep1 show ?thesis
      by (cases rule: Dequeue_first) (use rcv q_abs_rep [OF rep1] q(4) in auto)
  qed
qed

theorem receive_spec_witness:
  "\<exists>n. net_create sample_os (\<lambda>_. 0) 1 net_start = Inr n \<and>
     receive sample_blocks (nshm n) (procs n 0) 1 = Inl NullDeref"
proof -
  have e: "os_ok sample_os"
    by (simp add: os_ok_def sample_os_def Q_SIZE_def)
  have b: "blocks_ok sample_blocks"
    using sample_receiver by (simp add: receiver_ok_def)
  have d: "unat (1 :: cint) < 100" "unknown net_start 1"
    by (simp_all add: net_start_unknown)
  from net_create_step [OF net_start_inv [of sample_blocks "\<lambda>_. 0"] e b d] obtain n where
    n: "net_create sample_os (\<lambda>_. 0) 1 net_start = Inr n" "net_inv sample_blocks (\<lambda>_. 0) {1} n"
    "net_boxes sample_blocks (\<lambda>_. 0) n 1 = []"
    by auto
  from receive_spec [OF n(2), of 1] n show ?thesis by simp
qed

end
