(* ===== verification/TaskComm.thy ===== *)
theory TaskComm
  imports Network
begin

text \<open>
  How the tasks use the system.  A task looks at the tag of its next message with \<open>getMsgTag\<close>, then
  takes the message with \<open>receive\<close> or throws it away with \<open>dropMsg\<close>.  The task theories model a task
  over its inbox, the list of messages in its queue; the locale \<open>task_comm\<close> and its interpretation
  show that the three operations of \<open>System.c\<close> are those of the inbox, and that what other tasks
  send between \<open>getMsgTag\<close> and \<open>receive\<close> does no harm.
\<close>

section \<open>The inbox of a task\<close>

definition in_getMsgTag :: "message list \<Rightarrow> cint" where
  "in_getMsgTag ib = (case ib of [] \<Rightarrow> - 1 | x # _ \<Rightarrow> tag (header_of x))"

definition in_receive :: "message list \<Rightarrow> (message \<times> message list) res" where
  "in_receive ib = (case ib of [] \<Rightarrow> Inl NullDeref | x # xs \<Rightarrow> Inr (x, xs))"

definition in_dropMsg :: "message list \<Rightarrow> message list" where
  "in_dropMsg ib = tl ib"

text \<open>
  The loop \<open>while (tag < 0) tag = getMsgTag (...)\<close> in front of the \<open>receive\<close> of most tasks: the tag it
  ends with, or \<open>None\<close> while the inbox makes it go on.
\<close>

definition poll_tag :: "message list \<Rightarrow> cint option" where
  "poll_tag ib = (if sint (in_getMsgTag ib) < 0 then None else Some (in_getMsgTag ib))"

text \<open>Steps in sequence, when a step may still be waiting.\<close>

definition bindW :: "'a res option \<Rightarrow> ('a \<Rightarrow> 'b res option) \<Rightarrow> 'b res option" where
  "bindW r f = (case r of None \<Rightarrow> None | Some (Inl e) \<Rightarrow> Some (Inl e) | Some (Inr x) \<Rightarrow> f x)"

lemma bindW_simps [simp]:
  "bindW None f = None" "bindW (Some (Inl e)) f = Some (Inl e)" "bindW (Some (Inr x)) f = f x"
  by (simp_all add: bindW_def)

lemma bindW_eq_Inr: "bindW r f = Some (Inr y) \<longleftrightarrow> (\<exists>x. r = Some (Inr x) \<and> f x = Some (Inr y))"
  by (auto simp: bindW_def split: option.splits sum.splits)

text \<open>The casts of the handlers: using an object as one of another class is a fault.\<close>

definition as_bar :: "message \<Rightarrow> BarMsg res" where
  "as_bar x = (case x of MBar y \<Rightarrow> Inr y | _ \<Rightarrow> Inl BadCast)"

definition as_text :: "message \<Rightarrow> TextMsg res" where
  "as_text x = (case x of MText y \<Rightarrow> Inr y | _ \<Rightarrow> Inl BadCast)"

definition as_topology :: "message \<Rightarrow> TopologyMsg res" where
  "as_topology x = (case x of MTopology y \<Rightarrow> Inr y | _ \<Rightarrow> Inl BadCast)"

definition as_int_array :: "message \<Rightarrow> IntArrayMsg res" where
  "as_int_array x = (case x of MIntArray y \<Rightarrow> Inr y | _ \<Rightarrow> Inl BadCast)"

definition as_ref_int_array :: "message \<Rightarrow> RefIntArrayMsg res" where
  "as_ref_int_array x = (case x of MRefIntArray y \<Rightarrow> Inr y | _ \<Rightarrow> Inl BadCast)"

definition as_ref_two_dim :: "message \<Rightarrow> RefTwoDimIntArrayMsg res" where
  "as_ref_two_dim x = (case x of MRefTwoDim y \<Rightarrow> Inr y | _ \<Rightarrow> Inl BadCast)"

definition as_done :: "message \<Rightarrow> DoneMsg res" where
  "as_done x = (case x of MDone y \<Rightarrow> Inr y | _ \<Rightarrow> Inl BadCast)"

definition as_request :: "message \<Rightarrow> RequestMsg res" where
  "as_request x = (case x of MRequest y \<Rightarrow> Inr y | _ \<Rightarrow> Inl BadCast)"

definition as_response :: "message \<Rightarrow> ResponseMsg res" where
  "as_response x = (case x of MResponse y \<Rightarrow> Inr y | _ \<Rightarrow> Inl BadCast)"

text \<open>Messages that others send in the meantime.\<close>

fun post_all :: "('d \<Rightarrow> 'm \<Rightarrow> 's \<Rightarrow> 's \<times> bool) \<Rightarrow> ('d \<times> 'm) list \<Rightarrow> 's \<Rightarrow> 's" where
  "post_all post [] s = s"
| "post_all post ((d, x) # ps) s = post_all post ps (fst (post d x s))"

text \<open>What one task gets of the messages sent.\<close>

definition messages_for :: "cint \<Rightarrow> (cint \<times> message) list \<Rightarrow> message list" where
  "messages_for b outs = map snd (filter (\<lambda>x. fst x = b) outs)"

lemma messages_for_append: "messages_for b (xs @ ys) = messages_for b xs @ messages_for b ys"
  by (simp add: messages_for_def)

lemma messages_for_zip:
  "distinct bs \<Longrightarrow> length xs = length bs \<Longrightarrow> i < length bs \<Longrightarrow> messages_for (bs ! i) (zip bs xs) = [xs ! i]"
proof (induction bs arbitrary: xs i)
  case (Cons b bs)
  obtain x xs' where xs: "xs = x # xs'"
    using Cons.prems(2) by (cases xs) auto
  have none: "messages_for b (zip bs xs') = []"
    using Cons.prems(1) by (auto simp: messages_for_def filter_empty_conv dest: set_zip_leftD)
  show ?case
  proof (cases i)
    case 0
    with none xs show ?thesis by (simp add: messages_for_def)
  next
    case (Suc j)
    then have "bs ! j \<noteq> b"
      using Cons.prems by auto
    with Cons.IH [of xs' j] Cons.prems xs Suc show ?thesis
      by (simp add: messages_for_def)
  qed
qed simp

lemma messages_for_all: "messages_for r (map (\<lambda>x. (r, f x)) xs) = map f xs"
  by (simp add: messages_for_def o_def)

text \<open>
  The part that all task constructors share: \<open>getNextTaskID\<close>, then \<open>createMsgQ\<close> for the identifier.
  \<open>d\<close> is the shared \<open>SystemData\<close>.
\<close>

definition register_task :: "os \<Rightarrow> mem \<Rightarrow> shm \<Rightarrow> System \<Rightarrow> (mem \<times> shm \<times> System \<times> cint) res" where
  "register_task e d s Comm =
     (let (d', i) = getNextTaskID d in
      bindR (createMsgQ e s Comm i) (\<lambda>(s', Comm'). Inr (d', s', Comm', i)))"

section \<open>The interface\<close>

locale task_comm = mailboxes post fetch boxes invar dest wfm nrm
  for post :: "'d \<Rightarrow> 'm \<Rightarrow> 's \<Rightarrow> 's \<times> bool"
    and fetch :: "'d \<Rightarrow> 's \<Rightarrow> 's \<times> message option"
    and boxes :: "'s \<Rightarrow> 'd \<Rightarrow> message list"
    and invar :: "'s \<Rightarrow> bool"
    and dest :: "'d \<Rightarrow> bool"
    and wfm :: "'m \<Rightarrow> bool"
    and nrm :: "'m \<Rightarrow> message" +
  fixes peek :: "'d \<Rightarrow> 's \<Rightarrow> 's \<times> cint"
    and discard :: "'d \<Rightarrow> 's \<Rightarrow> 's"
  assumes peek_tag: "invar s \<Longrightarrow> dest d \<Longrightarrow> peek d s = (s, in_getMsgTag (boxes s d))"
    and discard_invar: "invar s \<Longrightarrow> dest d \<Longrightarrow> invar (discard d s)"
    and discard_boxes: "invar s \<Longrightarrow> dest d \<Longrightarrow> dest c \<Longrightarrow>
      boxes (discard d s) c = (if c = d then in_dropMsg (boxes s d) else boxes s c)"
begin

lemma post_all_boxes:
  "invar s \<Longrightarrow> \<forall>(c, x) \<in> set ps. dest c \<and> wfm x \<Longrightarrow> dest d \<Longrightarrow>
     invar (post_all post ps s) \<and> (\<exists>zs. boxes (post_all post ps s) d = boxes s d @ zs)"
proof (induction ps arbitrary: s)
  case (Cons cx ps)
  obtain c x where cx: "cx = (c, x)" by fastforce
  obtain s1 ok where s1: "post c x s = (s1, ok)" by fastforce
  have c: "dest c" "wfm x"
    using Cons.prems(2) cx by auto
  have "invar s1"
    using post_invar [OF Cons.prems(1) c s1] .
  with Cons.IH [of s1] Cons.prems(2,3) obtain zs where
    "invar (post_all post ps s1)" "boxes (post_all post ps s1) d = boxes s1 d @ zs"
    by auto
  with post_boxes [OF Cons.prems(1) c s1 Cons.prems(3)] cx s1 show ?case by auto
qed simp

text \<open>
  A non-negative tag that \<open>peek\<close> has returned is the tag of the message the next \<open>fetch\<close> returns,
  whatever has been sent to anyone in between.
\<close>

lemma peek_then_fetch:
  assumes s: "invar s" and d: "dest d" and ps: "\<forall>(c, x) \<in> set ps. dest c \<and> wfm x"
    and peek: "peek d s = (s1, t)" "0 \<le> sint t"
  shows "\<exists>s2 y. fetch d (post_all post ps s1) = (s2, Some y) \<and> tag (header_of y) = t \<and>
     (\<exists>rest. boxes s d = y # rest)"
proof -
  have s1: "s1 = s" and t: "t = in_getMsgTag (boxes s d)"
    using peek_tag [OF s d] peek(1) by auto
  then obtain y ys where box: "boxes s d = y # ys" and ty: "tag (header_of y) = t"
    using peek(2) by (cases "boxes s d") (auto simp: in_getMsgTag_def)
  obtain zs where inv: "invar (post_all post ps s)" and zs: "boxes (post_all post ps s) d = boxes s d @ zs"
    using post_all_boxes [OF s ps d] by auto
  obtain s2 r where f: "fetch d (post_all post ps s) = (s2, r)" by fastforce
  with fetch_empty [OF inv d] zs box obtain y' where r: "r = Some y'"
    by auto
  with fetch_boxes [OF inv d f d] zs box have "y' = y"
    by simp
  with f r s1 box ty show ?thesis by auto
qed

end

section \<open>The operations of the system\<close>

definition net_peek :: "os \<Rightarrow> (cint \<Rightarrow> nat) \<Rightarrow> cint \<Rightarrow> net \<Rightarrow> net \<times> cint" where
  "net_peek e own d n =
     (case getMsgTag e (nshm n) (procs n (own d)) d of
        Inr (this', t) \<Rightarrow> (n\<lparr>procs := (procs n)(own d := this')\<rparr>, t)
      | Inl _ \<Rightarrow> (n, - 1))"

definition net_discard :: "os \<Rightarrow> (cint \<Rightarrow> nat) \<Rightarrow> cint \<Rightarrow> net \<Rightarrow> net" where
  "net_discard e own d n =
     (case dropMsg e (nshm n) (procs n (own d)) d of
        Inr (s', this') \<Rightarrow> n\<lparr>nshm := s', procs := (procs n)(own d := this')\<rparr>
      | Inl _ \<Rightarrow> n)"

lemma net_peek_tag:
  assumes inv: "net_inv b own D n" and d: "d \<in> D"
  shows "net_peek e own d n = (n, in_getMsgTag (net_boxes b own n d))"
    "\<exists>t. getMsgTag e (nshm n) (procs n (own d)) d = Inr (procs n (own d), t)"
proof -
  obtain q where q: "unat d < 100" "TaskTable (procs n (own d)) ! unat d = Some q"
    "queue_inv b (qr_view q) (shm_segs (nshm n) (qr_seg q))"
    "net_boxes b own n d = q_abs b (qr_view q) (shm_segs (nshm n) (qr_seg q))"
    using net_inv_owner [OF inv d] by blast
  note len = net_inv_table [OF inv, of "own d"]
  let ?Q = "shm_segs (nshm n) (qr_seg q)"
  have "getMsgTag e (nshm n) (procs n (own d)) d =
      Inr (procs n (own d), case Peek_body ?Q of Some p \<Rightarrow> load32 (qmem ?Q) p | None \<Rightarrow> - 1)"
    using check_Q_small [OF q(1) len, of e "nshm n"] acquired_table(3) [OF q(1) len q(2)]
      table_get_small(1) [OF q(1) len] q(2)
    by (auto simp: getMsgTag_def Peek_def split: option.split)
  moreover have "(case Peek_body ?Q of Some p \<Rightarrow> load32 (qmem ?Q) p | None \<Rightarrow> - 1) =
      in_getMsgTag (net_boxes b own n d)"
    using peek_body_tag [OF q(3)] q(4) by (simp add: in_getMsgTag_def split: list.splits)
  ultimately show "net_peek e own d n = (n, in_getMsgTag (net_boxes b own n d))"
    "\<exists>t. getMsgTag e (nshm n) (procs n (own d)) d = Inr (procs n (own d), t)"
    by (auto simp: net_peek_def)
qed


lemma net_discard_boxes:
  assumes inv: "net_inv b own D n" and d: "d \<in> D"
  shows "net_inv b own D (net_discard e own d n)"
    "c \<in> D \<Longrightarrow> net_boxes b own (net_discard e own d n) c =
       (if c = d then in_dropMsg (net_boxes b own n d) else net_boxes b own n c)"
proof -
  obtain q where q: "unat d < 100" "TaskTable (procs n (own d)) ! unat d = Some q"
    "queue_inv b (qr_view q) (shm_segs (nshm n) (qr_seg q))"
    "net_boxes b own n d = q_abs b (qr_view q) (shm_segs (nshm n) (qr_seg q))"
    using net_inv_owner [OF inv d] by blast
  note len = net_inv_table [OF inv, of "own d"]
  let ?Q = "shm_segs (nshm n) (qr_seg q)"
  have drop: "dropMsg e (nshm n) (procs n (own d)) d =
      bindR (Dequeue_body (qr_view q) ?Q) (\<lambda>(Q', _).
        Inr ((nshm n)\<lparr>shm_segs := (shm_segs (nshm n))(qr_seg q := Q')\<rparr>, procs n (own d)))"
    using check_Q_small [OF q(1) len, of e "nshm n"] acquired_table(3) [OF q(1) len q(2)]
      table_get_small(1) [OF q(1) len] q(2)
    by (auto simp: dropMsg_def Dequeue_def bindR_def split: sum.split)
  obtain Q' r where deq: "Dequeue_body (qr_view q) ?Q = Inr (Q', r)" "queue_inv b (qr_view q) Q'"
    "q_abs b (qr_view q) Q' = tl (q_abs b (qr_view q) ?Q)"
    using Dequeue_tl [OF q(3)] by blast
  have "net_discard e own d n =
      n\<lparr>nshm := (nshm n)\<lparr>shm_segs := (shm_segs (nshm n))(qr_seg q := Q')\<rparr>\<rparr>"
    using drop deq(1) by (simp add: net_discard_def)
  with net_update_seg [OF inv d q(2) deq(2)] deq(3) q(4)
  show "net_inv b own D (net_discard e own d n)"
    "c \<in> D \<Longrightarrow> net_boxes b own (net_discard e own d n) c =
       (if c = d then in_dropMsg (net_boxes b own n d) else net_boxes b own n c)"
    by (simp_all add: in_dropMsg_def)
qed

interpretation comm: task_comm
    net_post "net_fetch b own" "net_boxes b own" "net_inv b own D" "\<lambda>d. d \<in> D" wf_letter
    "\<lambda>l. norm_msg (snd (snd l))" "net_peek e own" "net_discard e own"
    for b own D e
  by unfold_locales (simp_all add: net_peek_tag net_discard_boxes)

text \<open>
  C22. Looking before receiving is sound: when \<open>getMsgTag\<close> of a task has returned a non-negative tag,
  its next \<open>receive\<close> succeeds and returns a message with that tag (the one that was oldest), no
  matter which messages other tasks send to whom in between.
\<close>

theorem tag_then_receive:
  assumes "net_inv b own D n" "d \<in> D" "\<forall>(c, l) \<in> set ps. c \<in> D \<and> wf_letter l"
    "net_peek e own d n = (n1, t)" "0 \<le> sint t"
  shows "\<exists>n2 y. net_fetch b own d (post_all net_post ps n1) = (n2, Some y) \<and> tag (header_of y) = t \<and>
     (\<exists>rest. net_boxes b own n d = y # rest)"
  using comm.peek_then_fetch [OF assms] .


theorem tag_then_receive_witness:
  "\<exists>n. net_inv sample_blocks (\<lambda>_. 0) {1} n \<and> net_peek sample_os (\<lambda>_. 0) 1 n = (n, 1) \<and>
     (\<exists>n2 y. net_fetch sample_blocks (\<lambda>_. 0) 1
         (post_all net_post [(1, sample_os, 3, sample_bar 2 7)] n) = (n2, Some y) \<and>
       tag (header_of y) = 1)"
proof -
  let ?b = "sample_blocks" and ?own = "\<lambda>_ :: cint. 0 :: nat"
  have os: "os_ok sample_os"
    by (simp add: os_ok_def sample_os_def Q_SIZE_def)
  have b: "blocks_ok ?b"
    using sample_receiver by (simp add: receiver_ok_def)
  have d: "unat (1 :: cint) < 100" "unknown net_start 1"
    by (simp_all add: net_start_unknown)
  obtain n0 where n0: "net_inv ?b ?own {1} n0"
    using net_create_step [OF net_start_inv [of ?b ?own] os b d] by auto
  then obtain q where q: "TaskTable (procs n0 0) ! unat (1 :: cint) = Some q"
    "receiver_ok ?b (qr_view q)"
    using net_inv_owner [OF n0, of 1] by auto
  obtain Q1 where "mq.rep ?b (qr_view q) (ring_of Q1) [(56, sample_view, sample_bar 1 5)]"
    using fresh_send [OF sample_bar_wf(5) [OF q(2), of sample_view 1 5], of zero_segment]
    by (auto simp: Q_SIZE_def)
  note Q1 = queue_invI [OF this] q_abs_rep [OF this]
  define n where "n = n0\<lparr>nshm := (nshm n0)\<lparr>shm_segs := (shm_segs (nshm n0))(qr_seg q := Q1)\<rparr>\<rparr>"
  have inv: "net_inv ?b ?own {1} n" and box: "net_boxes ?b ?own n 1 = [sample_bar 1 5]"
    using net_update_seg [OF n0 _ q(1) Q1(1)] Q1(2) by (simp_all add: n_def)
  have tag: "net_peek sample_os ?own 1 n = (n, 1)"
    using net_peek_tag(1) [OF inv, of 1 sample_os] box
    by (simp add: in_getMsgTag_def sample_bar_def)
  have "\<forall>(c, l) \<in> set [(1 :: cint, sample_os, 3 :: nat, sample_bar 2 7)]. c \<in> {1} \<and> wf_letter l"
    by (simp add: wf_letter_def Q_SIZE_def)
  from tag_then_receive [OF inv _ this tag] inv tag show ?thesis
    by auto
qed

end
