(* ===== verification/DatabaseTask.thy ===== *)
theory DatabaseTask
  imports TaskComm
begin

text \<open>
  The database task (\<open>TaskSystem/src/Tasks/DatabaseTask/DatabaseTask.c\<close> and its \<open>generated.h\<close>): a
  server that keeps up to \<open>MAX_STUDENT\<close> student records and answers select, insert, delete and ping
  requests.  The array \<open>students\<close> is kept as the bytes of its structs, since a response carries the
  48 bytes of a record, padding included; \<open>response_data\<close>, a pointer into that array, is the index
  of the record it points to.
\<close>

section \<open>Definitions\<close>

definition MAX_STUDENT :: nat where
  "MAX_STUDENT = 1000"

definition StudentInfo_struct :: struct where
  "StudentInfo_struct = [(''id'', CLong), (''name'', CChars 30), (''gpa'', CFloat)]"

definition SelectInfo_struct :: struct where
  "SelectInfo_struct = [(''id'', CLong)]"

record DatabaseTask =
  db_taskID :: cint
  current_requester_task_id :: cint
  response_code :: cint
  response_data :: "nat option"
  response_size :: cint
  student_count :: cint
  students :: mem

text \<open>
  The values of the enumerations in \<open>RequestMsg.h\<close>, \<open>ResponseMsg.h\<close> and \<open>DatabaseTask.c\<close>.
\<close>

definition SELECT_REQUEST :: cint where "SELECT_REQUEST = 0"
definition INSERT_REQUEST :: cint where "INSERT_REQUEST = 1"
definition DELETE_REQUEST :: cint where "DELETE_REQUEST = 2"
definition PING_REQUEST :: cint where "PING_REQUEST = 3"
definition RESPONSE_ERROR :: cint where "RESPONSE_ERROR = 0"
definition RESPONSE_OK :: cint where "RESPONSE_OK = 1"
definition REQUEST_MSG :: cint where "REQUEST_MSG = 0"
definition RESPONSE_MSG :: cint where "RESPONSE_MSG = 1"

lemmas db_enums = SELECT_REQUEST_def INSERT_REQUEST_def DELETE_REQUEST_def PING_REQUEST_def
  RESPONSE_ERROR_def RESPONSE_OK_def REQUEST_MSG_def RESPONSE_MSG_def

definition setResponse :: "DatabaseTask \<Rightarrow> cint \<Rightarrow> nat option \<Rightarrow> cint \<Rightarrow> DatabaseTask" where
  "setResponse this code data data_size =
     this\<lparr>response_code := code, response_data := data, response_size := data_size\<rparr>"

text \<open>The constructor; \<open>blk\<close> is what \<open>malloc\<close> returned.\<close>

definition DatabaseTask_create ::
  "DatabaseTask option \<Rightarrow> os \<Rightarrow> bool \<Rightarrow> mem \<Rightarrow> shm \<Rightarrow> System \<Rightarrow>
     (mem \<times> shm \<times> System \<times> DatabaseTask) res" where
  "DatabaseTask_create blk e pthread_ok d s Comm =
     (case blk of None \<Rightarrow> Inl (ExitCall 1)
      | Some newRec \<Rightarrow>
          bindR (register_task e d s Comm) (\<lambda>(d', s', Comm', i).
            if pthread_ok
            then Inr (d', s', Comm', newRec\<lparr>db_taskID := i, response_code := RESPONSE_ERROR,
                   response_data := None, response_size := 0, student_count := 0\<rparr>)
            else Inl (ExitCall (-1))))"

text \<open>Members of \<open>students[i]\<close>.\<close>

definition student_at :: "nat \<Rightarrow> nat" where
  "student_at i = sizeof StudentInfo_struct * i"

definition student_id :: "mem \<Rightarrow> nat \<Rightarrow> clong" where
  "student_id m i = load64 m (student_at i + offset_of StudentInfo_struct ''id'')"

definition write_student :: "mem \<Rightarrow> nat \<Rightarrow> clong \<Rightarrow> byte list \<Rightarrow> cint \<Rightarrow> mem" where
  "write_student m i k nm g =
     store32 (store_bytes (store64 m (student_at i + offset_of StudentInfo_struct ''id'') k)
       (student_at i + offset_of StudentInfo_struct ''name'') (strncpy_bytes nm 30))
       (student_at i + offset_of StudentInfo_struct ''gpa'') g"

text \<open>The search loop of the select and delete branches, from \<open>i\<close> with \<open>n\<close> records to go.\<close>

fun find_student :: "mem \<Rightarrow> clong \<Rightarrow> nat \<Rightarrow> nat \<Rightarrow> nat option" where
  "find_student m k i 0 = None"
| "find_student m k i (Suc n) =
     (if student_id m i = k then Some i else find_student m k (Suc i) n)"

definition select_student :: "DatabaseTask \<Rightarrow> clong \<Rightarrow> DatabaseTask" where
  "select_student this k =
     (case find_student (students this) k 0 (nat (sint (student_count this))) of
        Some found \<Rightarrow>
          setResponse this RESPONSE_OK (Some found) (of_nat (sizeof StudentInfo_struct))
      | None \<Rightarrow> setResponse this RESPONSE_ERROR None 0)"

definition insert_student :: "DatabaseTask \<Rightarrow> clong \<Rightarrow> byte list \<Rightarrow> cint \<Rightarrow> DatabaseTask" where
  "insert_student this k nm g =
     (if sint (student_count this) < int MAX_STUDENT then
        setResponse
          (this\<lparr>students := write_student (students this) (nat (sint (student_count this))) k nm g,
                student_count := student_count this + 1\<rparr>) RESPONSE_OK None 0
      else setResponse this RESPONSE_ERROR None 0)"

definition delete_student :: "DatabaseTask \<Rightarrow> clong \<Rightarrow> DatabaseTask" where
  "delete_student this k =
     (case find_student (students this) k 0 (nat (sint (student_count this))) of
        Some i \<Rightarrow>
          setResponse (this\<lparr>students := write_student (students this) i (- 1) [0] 0\<rparr>)
            RESPONSE_OK None 0
      | None \<Rightarrow> setResponse this RESPONSE_ERROR None 0)"

text \<open>
  \<open>memcpy (&x, data, n)\<close> into a local object that can take \<open>room\<close> bytes, from a block followed in
  memory by the bytes \<open>over\<close>.
\<close>

definition memcpy_from :: "nat \<Rightarrow> byte list \<Rightarrow> byte list \<Rightarrow> nat \<Rightarrow> byte list res" where
  "memcpy_from room data over n =
     (if n \<le> room \<and> n \<le> length (data @ over) then Inr (take n (data @ over)) else Inl OutOfBounds)"

text \<open>
  What surrounds the two objects of the delete branch, whose \<open>memcpy\<close> has the size of another
  struct: how many bytes may be written at \<open>del_info\<close>, and what follows the data of the request.
\<close>

record surroundings =
  del_room :: nat
  data_over :: "byte list"

definition tight :: surroundings where
  "tight = \<lparr>del_room = sizeof SelectInfo_struct, data_over = []\<rparr>"

definition handle_RequestMsg ::
  "surroundings \<Rightarrow> DatabaseTask \<Rightarrow> RequestMsg \<Rightarrow> DatabaseTask res" where
  "handle_RequestMsg sr this0 requestMsg =
     (let this = this0\<lparr>current_requester_task_id := sender_task_id requestMsg\<rparr>;
          data = RequestMsg_getData requestMsg in
      if request_type requestMsg = SELECT_REQUEST then
        bindR (memcpy_from (sizeof SelectInfo_struct) data [] (sizeof SelectInfo_struct))
          (\<lambda>sel_info. Inr (select_student this (of_nat (of_le sel_info))))
      else if request_type requestMsg = INSERT_REQUEST then
        bindR (memcpy_from (sizeof StudentInfo_struct) data [] (sizeof StudentInfo_struct))
          (\<lambda>info. Inr (insert_student this (of_nat (of_le (take 8 info))) (take 30 (drop 8 info))
             (of_nat (of_le (take 4 (drop 40 info))))))
      else if request_type requestMsg = DELETE_REQUEST then
        bindR (memcpy_from (del_room sr) data (data_over sr) (sizeof StudentInfo_struct))
          (\<lambda>del_info. Inr (delete_student this (of_nat (of_le (take 8 del_info)))))
      else if request_type requestMsg = PING_REQUEST then
        Inr (setResponse this RESPONSE_OK None 0)
      else Inr this)"

text \<open>\<open>receive\<close>, or \<open>None\<close> while it polls.\<close>

definition Database_receive ::
  "surroundings \<Rightarrow> DatabaseTask \<Rightarrow> message list \<Rightarrow> (DatabaseTask \<times> message list) res option" where
  "Database_receive sr this ib =
     (case poll_tag ib of
        None \<Rightarrow> None
      | Some t \<Rightarrow> Some
          (if t = REQUEST_MSG then
             bindR (in_receive ib) (\<lambda>(msg, ib').
             bindR (as_request msg) (\<lambda>req.
             bindR (handle_RequestMsg sr this req) (\<lambda>this'. Inr (this', ib'))))
           else if t = RESPONSE_MSG then Inr (this, ib)
           else Inr (this, in_dropMsg ib)))"

text \<open>The response built and sent in one round of the loop of \<open>start\<close>.\<close>

definition Database_respond :: "ResponseMsg option \<Rightarrow> DatabaseTask \<Rightarrow> (cint \<times> message) res" where
  "Database_respond blk this =
     bindR (ResponseMsg_create blk RESPONSE_MSG) (\<lambda>r.
     let res = r\<lparr>resp_code := response_code this\<rparr> in
     bindR (if sint (response_size this) > 0 then
              (case response_data this of
                 None \<Rightarrow> Inl NullDeref
               | Some i \<Rightarrow> ResponseMsg_setData res
                   (load_bytes (students this) (student_at i) (sizeof StudentInfo_struct))
                   (response_size this))
            else Inr res) (\<lambda>res'. Inr (current_requester_task_id this, MResponse res')))"

text \<open>How a run of the loop ends: after its last round, waiting for a message, or with a fault.\<close>

datatype run_end =
    Finished DatabaseTask "message list"
  | Waiting DatabaseTask "message list"
  | Failed fault

text \<open>\<open>n\<close> rounds of the loop: the messages sent (with their destinations) and how it ended.\<close>

fun Database_loop ::
  "surroundings \<Rightarrow> ResponseMsg option \<Rightarrow> nat \<Rightarrow> DatabaseTask \<Rightarrow> message list \<Rightarrow>
     (cint \<times> message) list \<times> run_end" where
  "Database_loop sr blk 0 this ib = ([], Finished this ib)"
| "Database_loop sr blk (Suc n) this ib =
     (case Database_receive sr this ib of
        None \<Rightarrow> ([], Waiting this ib)
      | Some (Inl f) \<Rightarrow> ([], Failed f)
      | Some (Inr (this', ib')) \<Rightarrow>
          (case Database_respond blk this' of
             Inl f \<Rightarrow> ([], Failed f)
           | Inr out \<Rightarrow>
               (let (outs, e) = Database_loop sr blk n this' ib' in (out # outs, e))))"

text \<open>
  \<open>start\<close> with \<open>max_request\<close> rounds (the first \<open>n\<close> rounds when \<open>max_request\<close> is \<open>-1\<close>).
\<close>

definition Database_start ::
  "surroundings \<Rightarrow> ResponseMsg option \<Rightarrow> nat \<Rightarrow> mem \<Rightarrow> DatabaseTask \<Rightarrow> message list \<Rightarrow> cint \<Rightarrow> nat \<Rightarrow>
     (mem \<times> (cint \<times> message) list \<times> run_end) res" where
  "Database_start sr blk extent d this ib max_request n =
     bindR (repository_set_name extent d (bytes_of ''database'' @ [0]) (db_taskID this)) (\<lambda>d'.
       let rounds = (if max_request = - 1 then n else nat (sint max_request));
           (outs, e) = Database_loop sr blk rounds this ib
       in Inr (d', outs, e))"

section \<open>The records as a list\<close>

type_synonym student = "clong \<times> byte list \<times> cint"

definition student_rec :: "mem \<Rightarrow> nat \<Rightarrow> student" where
  "student_rec m i = (load64 m (48 * i), load_bytes m (48 * i + 8) 30, load32 m (48 * i + 40))"

definition db_records :: "DatabaseTask \<Rightarrow> student list" where
  "db_records t = map (student_rec (students t)) [0..<nat (sint (student_count t))]"

definition db_inv :: "DatabaseTask \<Rightarrow> bool" where
  "db_inv t \<longleftrightarrow> unat (student_count t) \<le> MAX_STUDENT"

text \<open>The abstract operations: a list searched from the front, with tombstones.\<close>

definition spec_select :: "clong \<Rightarrow> student list \<Rightarrow> student option" where
  "spec_select k xs = find (\<lambda>x. fst x = k) xs"

definition spec_insert :: "student \<Rightarrow> student list \<Rightarrow> student list option" where
  "spec_insert x xs = (if length xs < MAX_STUDENT then Some (xs @ [x]) else None)"

fun spec_delete :: "clong \<Rightarrow> student list \<Rightarrow> student list option" where
  "spec_delete k [] = None"
| "spec_delete k (x # xs) =
     (if fst x = k then Some ((- 1, replicate 30 0, 0) # xs) else map_option (Cons x) (spec_delete k xs))"


section \<open>Layout and single records\<close>

lemma StudentInfo_layout [layout, simp]:
  "offset_of StudentInfo_struct ''id'' = 0" "offset_of StudentInfo_struct ''name'' = 8"
  "offset_of StudentInfo_struct ''gpa'' = 40" "sizeof StudentInfo_struct = 48"
  "sizeof SelectInfo_struct = 8"
  by code_simp+

lemma student_at_48 [simp]: "student_at i = 48 * i"
  by (simp add: student_at_def)

lemma student_id_rec: "student_id m i = fst (student_rec m i)"
  by (simp add: student_id_def student_rec_def)

lemma student_rec_agree:
  assumes "agree_on (48 * i) 44 m m'"
  shows "student_rec m i = student_rec m' i"
  using load64_agree [OF assms, of "48 * i"] load_bytes_agree [OF assms, of "48 * i + 8" 30]
    load32_agree [OF assms, of "48 * i + 40"]
  by (simp add: student_rec_def)

lemma write_student_rec:
  "student_rec (write_student m i k nm g) j =
     (if j = i then (k, strncpy_bytes nm 30, g) else student_rec m j)"
proof (cases "j = i")
  case True
  then show ?thesis
    by (simp add: student_rec_def write_student_def mem_simps load_store_bytes_same)
next
  case False
  then have "48 * j + 48 \<le> 48 * i \<or> 48 * i + 48 \<le> 48 * j"
    by (cases i j rule: linorder_cases) auto
  then have "agree_on (48 * j) 44 (write_student m i k nm g) m"
    by (auto simp: agree_on_def write_student_def store32_outside store_bytes_outside store64_outside)
  from student_rec_agree [OF this] False show ?thesis by simp
qed

text \<open>The bytes of a record, as a response carries them.\<close>

lemma student_bytes:
  assumes "bs = load_bytes m (48 * i) 48"
  shows "(of_nat (of_le (take 8 bs)), take 30 (drop 8 bs), of_nat (of_le (take 4 (drop 40 bs)))) =
     student_rec m i"
proof -
  have "take n (drop k bs) = load_bytes m (48 * i + k) n" if "k + n \<le> 48" for k n
    using that unfolding assms load_bytes_def by (simp add: take_map drop_map)
  from this [of 0 8] this [of 8 30] this [of 40 4] show ?thesis
    by (simp add: student_rec_def load64_def load32_def)
qed

section \<open>Searching\<close>

lemma find_student_find: "find_student m k i n = find (\<lambda>j. student_id m j = k) [i..<i + n]"
proof (induction n arbitrary: i)
  case (Suc n)
  show ?case
    by (simp only: upt_front find.simps find_student.simps Suc)
qed simp

lemma find_map: "find P (map f xs) = map_option f (find (P \<circ> f) xs)"
  by (induction xs) auto

lemma find_student_Some:
  "find_student m k 0 n = Some i \<Longrightarrow> i < n \<and> student_id m i = k"
  by (auto simp: find_student_find find_Some_iff)

lemma find_student_select:
  "spec_select k (map (student_rec m) [0..<n]) =
     map_option (student_rec m) (find_student m k 0 n)"
  by (simp add: spec_select_def find_map find_student_find o_def student_id_rec)

lemma spec_delete_index:
  "spec_delete k xs =
     map_option (\<lambda>i. xs[i := (- 1, replicate 30 0, 0)]) (find (\<lambda>i. fst (xs ! i) = k) [0..<length xs])"
proof (induction xs)
  case (Cons x xs)
  have "[0..<length (x # xs)] = 0 # map Suc [0..<length xs]"
    by (simp add: upt_conv_Cons map_Suc_upt del: upt_Suc)
  then show ?case
    by (cases "find (\<lambda>i. fst (xs ! i) = k) [0..<length xs]")
      (simp_all add: Cons find_map o_def del: upt_Suc)
qed simp

lemma find_student_delete:
  "spec_delete k (map (student_rec m) [0..<n]) =
     map_option (\<lambda>i. map (student_rec (write_student m i (- 1) [0] 0)) [0..<n]) (find_student m k 0 n)"
proof -
  have "find (\<lambda>i. fst (map (student_rec m) [0..<n] ! i) = k) [0..<n] = find_student m k 0 n"
    unfolding find_student_find by (rule find_cong) (auto simp: student_id_rec)
  moreover have "(map (student_rec m) [0..<n])[i := (- 1, replicate 30 0, 0)] =
      map (student_rec (write_student m i (- 1) [0] 0)) [0..<n]" if "i < n" for i
    using that by (intro nth_equalityI) (auto simp: write_student_rec nth_list_update strncpy_empty)
  ultimately show ?thesis
    using find_student_Some [of m k n]
    by (cases "find_student m k 0 n") (simp_all add: spec_delete_index)
qed

section \<open>The handlers implement the abstract operations\<close>

lemma db_count:
  assumes "db_inv t"
  shows "sint (student_count t) < int k \<longleftrightarrow> unat (student_count t) < k"
    "nat (sint (student_count t)) = unat (student_count t)" "length (db_records t) = unat (student_count t)"
proof -
  have sc: "sint (student_count t) = int (unat (student_count t))"
    using assms by (intro sint_small) (simp add: db_inv_def MAX_STUDENT_def)
  show "sint (student_count t) < int k \<longleftrightarrow> unat (student_count t) < k"
    unfolding sc by (simp only: of_nat_less_iff)
  from sc show "nat (sint (student_count t)) = unat (student_count t)"
    by simp
  then show "length (db_records t) = unat (student_count t)"
    by (simp add: db_records_def)
qed

lemma setResponse_db [simp]:
  "db_records (setResponse t c d n) = db_records t" "db_inv (setResponse t c d n) = db_inv t"
  "student_count (setResponse t c d n) = student_count t" "students (setResponse t c d n) = students t"
  "response_code (setResponse t c d n) = c" "response_data (setResponse t c d n) = d"
  "response_size (setResponse t c d n) = n"
  "current_requester_task_id (setResponse t c d n) = current_requester_task_id t"
  by (simp_all add: setResponse_def db_records_def db_inv_def)

lemma select_refines:
  "case spec_select k (db_records t) of
     None \<Rightarrow> select_student t k = setResponse t RESPONSE_ERROR None 0
   | Some x \<Rightarrow> (\<exists>i. select_student t k = setResponse t RESPONSE_OK (Some i) 48 \<and>
       i < nat (sint (student_count t)) \<and> student_rec (students t) i = x)"
  using find_student_Some [of "students t" k "nat (sint (student_count t))"]
  by (auto simp: db_records_def find_student_select select_student_def split: option.splits)

lemma insert_refines:
  assumes "db_inv t"
  shows "case spec_insert (k, strncpy_bytes nm 30, g) (db_records t) of
     None \<Rightarrow> insert_student t k nm g = setResponse t RESPONSE_ERROR None 0
   | Some xs \<Rightarrow> (\<exists>t'. insert_student t k nm g = setResponse t' RESPONSE_OK None 0 \<and> db_inv t' \<and>
       db_records t' = xs \<and> current_requester_task_id t' = current_requester_task_id t)"
proof (cases "unat (student_count t) < MAX_STUDENT")
  case True
  let ?n = "unat (student_count t)"
  let ?t = "t\<lparr>students := write_student (students t) ?n k nm g, student_count := student_count t + 1\<rparr>"
  have n: "unat (student_count t + 1) = Suc ?n"
    using True unat_plus_small [of "student_count t" 1] by (simp add: MAX_STUDENT_def)
  have inv: "db_inv ?t"
    using True n by (simp add: db_inv_def)
  have "db_records ?t = db_records t @ [(k, strncpy_bytes nm 30, g)]"
    using db_count(2) [OF inv] db_count(2) [OF assms] n
    by (simp add: db_records_def write_student_rec)
  moreover have "insert_student t k nm g = setResponse ?t RESPONSE_OK None 0"
    using True db_count(1,2) [OF assms] by (simp add: insert_student_def)
  ultimately show ?thesis
    using True inv db_count(3) [OF assms] by (auto simp: spec_insert_def)
next
  case False
  then show ?thesis
    using db_count [OF assms] by (simp add: spec_insert_def insert_student_def)
qed

lemma delete_refines:
  "case spec_delete k (db_records t) of
     None \<Rightarrow> delete_student t k = setResponse t RESPONSE_ERROR None 0
   | Some xs \<Rightarrow> (\<exists>t'. delete_student t k = setResponse t' RESPONSE_OK None 0 \<and>
       student_count t' = student_count t \<and> db_records t' = xs \<and>
       current_requester_task_id t' = current_requester_task_id t)"
  by (auto simp: db_records_def find_student_delete delete_student_def split: option.splits
      intro!: exI)


section \<open>The server\<close>

text \<open>The abstract server: what a request does to the records and what is answered.\<close>

definition spec_request :: "surroundings \<Rightarrow> RequestMsg \<Rightarrow> student list \<Rightarrow> student list \<times> cint \<times> student option" where
  "spec_request sr r xs =
     (let data = req_data r @ data_over sr; k = of_nat (of_le (take 8 data)) in
      if request_type r = SELECT_REQUEST then
        (xs, case spec_select k xs of None \<Rightarrow> (RESPONSE_ERROR, None) | Some x \<Rightarrow> (RESPONSE_OK, Some x))
      else if request_type r = INSERT_REQUEST then
        (case spec_insert (k, strncpy_bytes (take 30 (drop 8 data)) 30,
             of_nat (of_le (take 4 (drop 40 data)))) xs of
           None \<Rightarrow> (xs, RESPONSE_ERROR, None) | Some ys \<Rightarrow> (ys, RESPONSE_OK, None))
      else if request_type r = DELETE_REQUEST then
        (case spec_delete k xs of
           None \<Rightarrow> (xs, RESPONSE_ERROR, None) | Some ys \<Rightarrow> (ys, RESPONSE_OK, None))
      else (xs, RESPONSE_OK, None))"

fun spec_serve :: "surroundings \<Rightarrow> RequestMsg list \<Rightarrow> student list \<Rightarrow> student list \<times> (cint \<times> student option) list" where
  "spec_serve sr [] xs = (xs, [])"
| "spec_serve sr (r # rs) xs =
     (let (ys, a) = spec_request sr r xs; (zs, as) = spec_serve sr rs ys in (zs, a # as))"

text \<open>What a response says.\<close>

definition reply_of :: "message \<Rightarrow> cint \<times> student option" where
  "reply_of m = (case m of
     MResponse r \<Rightarrow> (resp_code r,
       if resp_data r = [] then None
       else Some (of_nat (of_le (take 8 (resp_data r))), take 30 (drop 8 (resp_data r)),
                  of_nat (of_le (take 4 (drop 40 (resp_data r))))))
   | _ \<Rightarrow> (0, None))"

text \<open>Requests that the server can copy: enough data for the size of each \<open>memcpy\<close>.\<close>

definition ok_request :: "surroundings \<Rightarrow> RequestMsg \<Rightarrow> bool" where
  "ok_request sr r \<longleftrightarrow>
     tag r = REQUEST_MSG \<and>
     (request_type r = SELECT_REQUEST \<and> 8 \<le> length (req_data r) \<or>
      request_type r = INSERT_REQUEST \<and> 48 \<le> length (req_data r) \<or>
      request_type r = DELETE_REQUEST \<and> 48 \<le> del_room sr \<and>
        48 \<le> length (req_data r) + length (data_over sr) \<or>
      request_type r = PING_REQUEST)"

lemma respond_plain:
  "sint (response_size t) \<le> 0 \<Longrightarrow>
     \<exists>m. Database_respond (Some blk) t = Inr (current_requester_task_id t, m) \<and>
         reply_of m = (response_code t, None)"
  by (simp add: Database_respond_def ResponseMsg_create_def reply_of_def Let_def)

lemma respond_student:
  assumes "response_size t = 48" "response_data t = Some i"
  shows "\<exists>m. Database_respond (Some blk) t = Inr (current_requester_task_id t, m) \<and>
     reply_of m = (response_code t, Some (student_rec (students t) i))"
proof -
  let ?bs = "load_bytes (students t) (48 * i) 48"
  have "length ?bs = 48" "?bs \<noteq> []"
    using length_load_bytes [of "students t" "48 * i" 48] by (auto simp del: length_load_bytes)
  with assms student_bytes [OF refl, of "students t" i] show ?thesis
    by (simp add: Database_respond_def ResponseMsg_create_def reply_of_def Let_def
        ResponseMsg_setData_def copy_elems_def)
qed

lemma db_inv_requester [simp]:
  "db_inv (t\<lparr>current_requester_task_id := c\<rparr>) = db_inv t"
  "db_records (t\<lparr>current_requester_task_id := c\<rparr>) = db_records t"
  by (simp_all add: db_inv_def db_records_def)

lemma db_inv_records: "student_count t' = student_count t \<Longrightarrow> db_inv t \<Longrightarrow> db_inv t'"
  by (simp add: db_inv_def)

text \<open>One request: the handler and the response implement the abstract server.\<close>

lemma request_refines:
  assumes inv: "db_inv t" and ok: "ok_request sr r"
  shows "\<exists>t' m. handle_RequestMsg sr t r = Inr t' \<and> db_inv t' \<and>
     Database_respond (Some blk) t' = Inr (sender_task_id r, m) \<and>
     (db_records t', reply_of m) = spec_request sr r (db_records t)"
proof -
  let ?t = "t\<lparr>current_requester_task_id := sender_task_id r\<rparr>"
  let ?d = "req_data r @ data_over sr"
  let ?k = "of_nat (of_le (take 8 ?d)) :: clong"
  have plain: "\<exists>m. Database_respond (Some blk) (setResponse u c None 0) = Inr (sender_task_id r, m) \<and>
      reply_of m = (c, None)" if "current_requester_task_id u = sender_task_id r" for u c
    using that respond_plain [of "setResponse u c None 0" blk] by simp
  from ok consider (sel) "request_type r = SELECT_REQUEST" "8 \<le> length (req_data r)"
    | (ins) "request_type r = INSERT_REQUEST" "48 \<le> length (req_data r)"
    | (del) "request_type r = DELETE_REQUEST" "48 \<le> del_room sr"
        "48 \<le> length (req_data r) + length (data_over sr)"
    | (ping) "request_type r = PING_REQUEST"
    by (auto simp: ok_request_def)
  then show ?thesis
  proof cases
    case sel
    then have h: "handle_RequestMsg sr t r = Inr (select_student ?t ?k)"
      by (simp add: handle_RequestMsg_def memcpy_from_def RequestMsg_getData_def)
    have "student_count (select_student ?t ?k) = student_count t"
      by (simp add: select_student_def split: option.split)
    with db_inv_records inv have inv': "db_inv (select_student ?t ?k)" by blast
    show ?thesis
    proof (cases "spec_select ?k (db_records t)")
      case None
      with select_refines [where k = ?k and t = ?t] have
        "select_student ?t ?k = setResponse ?t RESPONSE_ERROR None 0" by simp
      with h inv' sel(1) None plain [of ?t RESPONSE_ERROR] show ?thesis
        by (auto simp: spec_request_def Let_def)
    next
      case (Some x)
      with select_refines [where k = ?k and t = ?t] obtain i where
        i: "select_student ?t ?k = setResponse ?t RESPONSE_OK (Some i) 48"
        "student_rec (students t) i = x" by auto
      with respond_student [of "setResponse ?t RESPONSE_OK (Some i) 48" i blk] h inv' sel(1) Some
      show ?thesis by (auto simp: spec_request_def Let_def)
    qed
  next
    case ins
    let ?nm = "take 30 (drop 8 ?d)" and ?g = "of_nat (of_le (take 4 (drop 40 ?d))) :: cint"
    have "take 8 (take 48 (req_data r)) = take 8 ?d" "take 30 (drop 8 (take 48 (req_data r))) = ?nm"
      "take 4 (drop 40 (take 48 (req_data r))) = take 4 (drop 40 ?d)"
      using ins(2) by (simp_all add: drop_take min_def)
    then have h: "handle_RequestMsg sr t r = Inr (insert_student ?t ?k ?nm ?g)"
      using ins by (simp add: handle_RequestMsg_def memcpy_from_def RequestMsg_getData_def db_enums
          Let_def)
    have "db_inv ?t" using inv by simp
    note ref = insert_refines [OF this, where k = ?k and nm = ?nm and g = ?g]
    show ?thesis
    proof (cases "spec_insert (?k, strncpy_bytes ?nm 30, ?g) (db_records t)")
      case None
      with ref h ins(1) plain [of ?t RESPONSE_ERROR] inv show ?thesis
        by (auto simp: spec_request_def Let_def db_enums)
    next
      case (Some ys)
      with ref obtain u where u: "insert_student ?t ?k ?nm ?g = setResponse u RESPONSE_OK None 0"
        "db_inv u" "db_records u = ys" "current_requester_task_id u = sender_task_id r"
        by auto
      with Some h ins(1) plain [OF u(4), of RESPONSE_OK] show ?thesis
        by (auto simp: spec_request_def Let_def db_enums)
    qed
  next
    case del
    then have h: "handle_RequestMsg sr t r = Inr (delete_student ?t ?k)"
      by (simp add: handle_RequestMsg_def memcpy_from_def RequestMsg_getData_def db_enums Let_def
          min_def)
    show ?thesis
    proof (cases "spec_delete ?k (db_records t)")
      case None
      with delete_refines [where k = ?k and t = ?t] h del(1) plain [of ?t RESPONSE_ERROR] inv
      show ?thesis by (auto simp: spec_request_def Let_def db_enums)
    next
      case (Some ys)
      with delete_refines [where k = ?k and t = ?t] obtain u where
        u: "delete_student ?t ?k = setResponse u RESPONSE_OK None 0"
        "student_count u = student_count t" "db_records u = ys"
        "current_requester_task_id u = sender_task_id r"
        by auto
      with Some h del(1) plain [OF u(4), of RESPONSE_OK] db_inv_records [OF u(2) inv] show ?thesis
        by (auto simp: spec_request_def Let_def db_enums)
    qed
  next
    case ping
    with plain [of ?t RESPONSE_OK] inv show ?thesis
      by (auto simp: handle_RequestMsg_def spec_request_def Let_def db_enums)
  qed
qed

lemma receive_request:
  assumes "tag r = REQUEST_MSG"
  shows "Database_receive sr t (MRequest r # ib) =
     Some (bindR (handle_RequestMsg sr t r) (\<lambda>t'. Inr (t', ib)))"
  using assms
  by (simp add: Database_receive_def poll_tag_def in_getMsgTag_def in_receive_def as_request_def
      REQUEST_MSG_def Message.truncate_def)


lemma serve_refines:
  assumes "db_inv t" "\<forall>r \<in> set rs. ok_request sr r"
  shows "\<exists>outs t'. Database_loop sr (Some blk) (length rs) t (map MRequest rs @ ib) =
       (outs, Finished t' ib) \<and> db_inv t' \<and> map fst outs = map sender_task_id rs \<and>
     (db_records t', map (\<lambda>x. reply_of (snd x)) outs) = spec_serve sr rs (db_records t)"
  using assms
proof (induction rs arbitrary: t)
  case (Cons r rs)
  obtain t1 m where t1: "handle_RequestMsg sr t r = Inr t1" "db_inv t1"
    "Database_respond (Some blk) t1 = Inr (sender_task_id r, m)"
    "(db_records t1, reply_of m) = spec_request sr r (db_records t)"
    using request_refines [OF Cons.prems(1), of sr r blk] Cons.prems(2) by auto
  obtain outs t' where t': "Database_loop sr (Some blk) (length rs) t1 (map MRequest rs @ ib) =
      (outs, Finished t' ib)" "db_inv t'" "map fst outs = map sender_task_id rs"
    "(db_records t', map (\<lambda>x. reply_of (snd x)) outs) = spec_serve sr rs (db_records t1)"
    using Cons.IH [OF t1(2)] Cons.prems(2) by auto
  have "tag r = REQUEST_MSG"
    using Cons.prems(2) by (simp add: ok_request_def)
  note rcv = receive_request [OF this, of sr t "map MRequest rs @ ib"]
  have "spec_serve sr (r # rs) (db_records t) =
      (db_records t', reply_of m # map (\<lambda>x. reply_of (snd x)) outs)"
    using t1(4) [symmetric] t'(4) [symmetric] by simp
  then show ?case
    using rcv t1 t' by simp
qed simp

section \<open>Properties\<close>

definition sample_db :: DatabaseTask where
  "sample_db =
     \<lparr>db_taskID = 1, current_requester_task_id = 0, response_code = 0, response_data = None,
      response_size = 0, student_count = 0, students = (\<lambda>_. 0)\<rparr>"

definition sample_request :: "cint \<Rightarrow> cint \<Rightarrow> byte list \<Rightarrow> RequestMsg" where
  "sample_request from ty data =
     \<lparr>tag = 0, tid = 8, msg_size = of_nat (88 + length data), methods = Some RequestC,
      sender_task_id = from, request_type = ty, req_data_size = of_nat (length data), req_data = data\<rparr>"

definition sample_response :: ResponseMsg where
  "sample_response =
     \<lparr>tag = 0, tid = 0, msg_size = 0, methods = None, resp_code = 0, resp_data_size = 0, resp_data = []\<rparr>"

lemma sample_db_inv [simp]: "db_inv sample_db"
  by (simp add: db_inv_def sample_db_def)

text \<open>
  C4. The database server implements the abstract record list: for every inbox of well-formed
  requests, \<open>start\<close> answers each request exactly once, in order and to its own sender, with the code
  and the record the abstract server gives, and its records are those of the abstract server.
\<close>

theorem database_serves:
  assumes "db_inv t" "\<forall>r \<in> set rs. ok_request sr r"
  shows "case Database_loop sr (Some blk) (length rs) t (map MRequest rs) of
     (outs, Finished t' ib) \<Rightarrow> ib = [] \<and> db_inv t' \<and> map fst outs = map sender_task_id rs \<and>
       (db_records t', map (\<lambda>x. reply_of (snd x)) outs) = spec_serve sr rs (db_records t)
   | _ \<Rightarrow> False"
  using serve_refines [OF assms, of blk "[]"] by auto

theorem database_serves_witness:
  "case Database_loop tight (Some sample_response) 2 sample_db
       [MRequest (sample_request 7 INSERT_REQUEST (replicate 48 3)),
        MRequest (sample_request 9 SELECT_REQUEST (replicate 8 3))] of
     (outs, Finished t' ib) \<Rightarrow> ib = [] \<and> map fst outs = [7, 9] \<and>
       snd (reply_of (snd (outs ! 1))) =
         Some (of_nat (of_le (replicate 8 3)), replicate 30 3, of_nat (of_le (replicate 4 3)))
   | _ \<Rightarrow> False"
proof -
  let ?rs = "[sample_request 7 INSERT_REQUEST (replicate 48 3), sample_request 9 SELECT_REQUEST (replicate 8 3)]"
  have ok: "\<forall>r \<in> set ?rs. ok_request tight r"
    by (simp add: ok_request_def sample_request_def db_enums)
  have "strncpy_bytes (replicate 30 3) 30 = replicate 30 3"
    by (simp add: strncpy_bytes_def cstr_def)
  then have spec: "snd (spec_serve tight ?rs (db_records sample_db)) =
      [(1, None), (1, Some (of_nat (of_le (replicate 8 3)), replicate 30 3, of_nat (of_le (replicate 4 3))))]"
    by (simp add: spec_request_def sample_request_def db_enums Let_def spec_insert_def MAX_STUDENT_def
        db_records_def sample_db_def tight_def spec_select_def)
  obtain outs e where run: "Database_loop tight (Some sample_response) (length ?rs) sample_db (map MRequest ?rs) = (outs, e)"
    by fastforce
  with database_serves [OF sample_db_inv ok, of sample_response] obtain t' where
    r: "e = Finished t' []" "map fst outs = map sender_task_id ?rs"
    "(db_records t', map (\<lambda>x. reply_of (snd x)) outs) = spec_serve tight ?rs (db_records sample_db)"
    by (auto split: run_end.splits)
  then have "map (\<lambda>x. reply_of (snd x)) outs ! 1 =
      (1, Some (of_nat (of_le (replicate 8 3)), replicate 30 3, of_nat (of_le (replicate 4 3))))"
    using spec by (metis nth_Cons_0 nth_Cons_Suc One_nat_def snd_conv)
  moreover have "length outs = 2"
    using r(2) map_eq_imp_length_eq by fastforce
  moreover have "map fst outs = [7, 9]"
    using r(2) by (simp add: sample_request_def)
  moreover have "Database_loop tight (Some sample_response) 2 sample_db (map MRequest ?rs) =
      (outs, Finished t' [])"
    using run r(1) by (simp del: Database_loop.simps add: numeral_2_eq_2)
  ultimately show ?thesis
    by simp
qed

text \<open>
  Insert, then select: a record whose identifier is not in use and that fits is found again
  with exactly its identifier, its name (as \<open>strncpy\<close> stores it) and its grade.
\<close>

theorem insert_then_select:
  assumes "db_inv t" "unat (student_count t) < MAX_STUDENT" "spec_select k (db_records t) = None"
  shows "\<exists>i. select_student (insert_student t k nm g) k =
       setResponse (insert_student t k nm g) RESPONSE_OK (Some i) 48 \<and>
     student_rec (students (insert_student t k nm g)) i = (k, strncpy_bytes nm 30, g)"
proof -
  let ?x = "(k, strncpy_bytes nm 30, g)" and ?u = "insert_student t k nm g"
  have "spec_insert ?x (db_records t) = Some (db_records t @ [?x])"
    using assms(2) db_count(3) [OF assms(1)] by (simp add: spec_insert_def)
  with insert_refines [OF assms(1), of k nm g] have "db_records ?u = db_records t @ [?x]"
    by auto
  then have "spec_select k (db_records ?u) = Some ?x"
    using assms(3) by (simp add: spec_select_def find_append_None)
  with select_refines [where k = k and t = ?u] show ?thesis by auto
qed

theorem insert_then_select_witness:
  "\<exists>i. select_student (insert_student sample_db 5 [70, 71, 0] 9) 5 =
       setResponse (insert_student sample_db 5 [70, 71, 0] 9) RESPONSE_OK (Some i) 48 \<and>
     student_rec (students (insert_student sample_db 5 [70, 71, 0] 9)) i =
       (5, strncpy_bytes [70, 71, 0] 30, 9)"
  by (rule insert_then_select)
    (simp_all add: sample_db_def MAX_STUDENT_def spec_select_def db_records_def db_inv_def)

text \<open>
  C36. The \<open>memcpy\<close> of the delete branch has the size of a \<open>StudentInfo\<close> (48 bytes) but its target is a
  \<open>SelectInfo\<close> (8 bytes), and the client sends 8 bytes: every delete request writes and, for the
  client's requests, reads out of bounds.
\<close>

theorem delete_overflows:
  assumes "request_type r = DELETE_REQUEST"
    "del_room sr = sizeof SelectInfo_struct \<or> length (req_data r @ data_over sr) < sizeof StudentInfo_struct"
  shows "handle_RequestMsg sr t r = Inl OutOfBounds"
  using assms by (auto simp: handle_RequestMsg_def memcpy_from_def RequestMsg_getData_def db_enums Let_def)

theorem delete_overflows_witness:
  "handle_RequestMsg tight sample_db (sample_request 3 DELETE_REQUEST (replicate 8 0)) = Inl OutOfBounds"
  by (rule delete_overflows) (simp_all add: sample_request_def tight_def)

text \<open>
  C37. Capacity is never recovered: no request makes \<open>student_count\<close> smaller, so once \<open>MAX_STUDENT\<close>
  records have been inserted every further insert is refused, whatever was deleted in between.
\<close>

theorem capacity_never_recovered:
  assumes "db_inv t" "handle_RequestMsg sr t r = Inr t'"
  shows "unat (student_count t) \<le> unat (student_count t') \<and> db_inv t' \<and>
     (unat (student_count t) = MAX_STUDENT \<and> request_type r = INSERT_REQUEST \<longrightarrow>
        response_code t' = RESPONSE_ERROR \<and> db_records t' = db_records t)"
proof -
  let ?t = "t\<lparr>current_requester_task_id := sender_task_id r\<rparr>"
  have ins: "unat (student_count ?t) \<le> unat (student_count (insert_student ?t k nm g)) \<and>
      db_inv (insert_student ?t k nm g) \<and> (unat (student_count t) = MAX_STUDENT \<longrightarrow>
        insert_student ?t k nm g = setResponse ?t RESPONSE_ERROR None 0)" for k nm g
  proof -
    have inv: "db_inv ?t" using assms(1) by simp
    show ?thesis
    proof (cases "unat (student_count t) < MAX_STUDENT")
      case True
      then have "unat (student_count t + 1) = Suc (unat (student_count t))"
        using unat_plus_small [of "student_count t" 1] by (simp add: MAX_STUDENT_def)
      with True db_count(1) [OF inv, of MAX_STUDENT] show ?thesis
        by (simp add: insert_student_def db_inv_def)
    next
      case False
      with db_count(1) [OF inv, of MAX_STUDENT] inv show ?thesis
        by (simp add: insert_student_def)
    qed
  qed
  have other: "student_count (select_student ?t k) = student_count t"
    "student_count (delete_student ?t k) = student_count t" for k
    by (simp_all add: select_student_def delete_student_def split: option.split)
  have keep: "db_inv u" if "student_count u = student_count t" for u
    using db_inv_records [OF that assms(1)] .
  show ?thesis
  proof (cases "request_type r = INSERT_REQUEST")
    case True
    with assms(2) obtain k nm g where "t' = insert_student ?t k nm g"
      by (auto simp: handle_RequestMsg_def Let_def db_enums bindR_eq_Inr)
    with ins [of k nm g] show ?thesis by auto
  next
    case False
    with assms(2) have "student_count t' = student_count t"
      by (auto simp: handle_RequestMsg_def Let_def bindR_eq_Inr other split: if_splits)
    with keep False show ?thesis by simp
  qed
qed

theorem capacity_never_recovered_witness:
  "\<exists>t'. handle_RequestMsg tight sample_db (sample_request 3 INSERT_REQUEST (replicate 48 1)) = Inr t' \<and>
     unat (student_count sample_db) \<le> unat (student_count t') \<and> db_inv t'"
proof -
  obtain t' where "handle_RequestMsg tight sample_db (sample_request 3 INSERT_REQUEST (replicate 48 1)) = Inr t'"
    by (simp add: handle_RequestMsg_def sample_request_def db_enums Let_def memcpy_from_def
        RequestMsg_getData_def)
  with capacity_never_recovered [OF sample_db_inv this] show ?thesis by blast
qed

text \<open>
  C38. A message with the tag \<open>RESPONSE_MSG\<close> at the head of the server's inbox is never removed: in
  every round the server leaves the inbox and its records as they are and sends its last response
  to the last requester again, so no later request is ever served.
\<close>

theorem response_tag_floods:
  assumes "in_getMsgTag ib = RESPONSE_MSG" "Database_respond blk t = Inr out"
  shows "Database_loop sr blk n t ib = (replicate n out, Finished t ib)"
proof (induction n)
  case (Suc n)
  have "Database_receive sr t ib = Some (Inr (t, ib))"
    using assms(1) by (simp add: Database_receive_def poll_tag_def db_enums)
  with Suc assms(2) show ?case by simp
qed simp

theorem response_tag_floods_witness:
  "\<exists>out. Database_loop tight (Some sample_response) 1000 sample_db
     [MResponse (sample_response\<lparr>tag := 1\<rparr>), MRequest (sample_request 3 PING_REQUEST [])] =
     (replicate 1000 out, Finished sample_db
       [MResponse (sample_response\<lparr>tag := 1\<rparr>), MRequest (sample_request 3 PING_REQUEST [])])"
proof -
  have "sint (response_size sample_db) \<le> 0"
    by (simp add: sample_db_def)
  then obtain m where "Database_respond (Some sample_response) sample_db =
      Inr (current_requester_task_id sample_db, m)"
    using respond_plain by blast
  with response_tag_floods [of "[MResponse (sample_response\<lparr>tag := 1\<rparr>),
      MRequest (sample_request 3 PING_REQUEST [])]", OF _ this]
  show ?thesis
    by (auto simp: in_getMsgTag_def sample_response_def db_enums Message.truncate_def)
qed

end
