(* ===== verification/ClientTask.thy ===== *)
theory ClientTask
  imports DatabaseTask
begin

text \<open>
  The client of the database (\<open>TaskSystem/src/Tasks/ClientTask/ClientTask.c\<close>): it looks up the task
  named \<open>database\<close>, then sends a number of requests of one kind and waits for a response to each.
\<close>

section \<open>Definitions\<close>

record ClientTask =
  cl_taskID :: cint

definition ClientTask_create ::
  "ClientTask option \<Rightarrow> os \<Rightarrow> bool \<Rightarrow> mem \<Rightarrow> shm \<Rightarrow> System \<Rightarrow>
     (mem \<times> shm \<times> System \<times> ClientTask) res" where
  "ClientTask_create blk e pthread_ok d s Comm =
     (case blk of None \<Rightarrow> Inl (ExitCall 1)
      | Some newRec \<Rightarrow>
          bindR (register_task e d s Comm) (\<lambda>(d', s', Comm', i).
            if pthread_ok then Inr (d', s', Comm', newRec\<lparr>cl_taskID := i\<rparr>)
            else Inl (ExitCall (-1))))"

text \<open>
  The bytes of the local \<open>student_data\<close>: \<open>pad1\<close> and \<open>pad2\<close> are the padding of the struct, which holds
  whatever the stack held; the bit pattern is that of \<open>4.3f\<close>.
\<close>

definition student_data_bytes :: "cint \<Rightarrow> byte list \<Rightarrow> byte list \<Rightarrow> byte list" where
  "student_data_bytes i pad1 pad2 =
     to_le 8 (unat (scast i :: clong)) @
     strncpy_bytes (bytes_of ''Francois Gingras'' @ [0]) 30 @ take 2 (pad1 @ [0, 0]) @
     to_le 4 1082759578 @ take 4 (pad2 @ [0, 0, 0, 0])"

definition select_data_bytes :: "cint \<Rightarrow> byte list" where
  "select_data_bytes i = to_le 8 (unat (scast i :: clong))"

text \<open>
  The request of round \<open>i\<close>.  \<open>blk\<close> is the block for the message, \<open>buf_ok\<close> whether \<open>malloc\<close> returned a
  buffer.
\<close>

definition Client_request ::
  "RequestMsg option \<Rightarrow> bool \<Rightarrow> byte list \<times> byte list \<Rightarrow> ClientTask \<Rightarrow> cint \<Rightarrow> cint \<Rightarrow> RequestMsg res" where
  "Client_request blk buf_ok pad this req_type i =
     bindR (RequestMsg_create blk REQUEST_MSG) (\<lambda>r.
     let req = r\<lparr>sender_task_id := cl_taskID this\<rparr> in
     if req_type = 1 then
       (if buf_ok then RequestMsg_setData (req\<lparr>request_type := SELECT_REQUEST\<rparr>)
          (select_data_bytes i) (of_nat (sizeof SelectInfo_struct))
        else Inl NullDeref)
     else if req_type = 2 then
       (if buf_ok then RequestMsg_setData (req\<lparr>request_type := INSERT_REQUEST\<rparr>)
          (student_data_bytes i (fst pad) (snd pad)) (of_nat (sizeof StudentInfo_struct))
        else Inl NullDeref)
     else if req_type = 3 then
       (if buf_ok then RequestMsg_setData (req\<lparr>request_type := DELETE_REQUEST\<rparr>)
          (select_data_bytes i) (of_nat (sizeof SelectInfo_struct))
        else Inl NullDeref)
     else if req_type = 4 then Inr (req\<lparr>request_type := PING_REQUEST\<rparr>)
     else Inl (ExitCall (-1)))"

text \<open>\<open>receive\<close>: the inbox afterwards, or \<open>None\<close> while it polls; the handler only prints.\<close>

definition Client_receive :: "message list \<Rightarrow> message list res option" where
  "Client_receive ib =
     (case poll_tag ib of
        None \<Rightarrow> None
      | Some t \<Rightarrow> Some
          (if t = REQUEST_MSG then Inr ib
           else if t = RESPONSE_MSG then
             bindR (in_receive ib) (\<lambda>(msg, ib'). bindR (as_response msg) (\<lambda>_. Inr ib'))
           else Inr (in_dropMsg ib)))"

datatype client_end = ClientDone "message list" | ClientWaiting "message list" | ClientFailed fault

text \<open>
  The rounds of \<open>start\<close> from \<open>i\<close>, with \<open>n\<close> to go, on an inbox of the messages that arrive: the
  requests sent and how the loop ended.
\<close>

fun Client_loop ::
  "RequestMsg option \<Rightarrow> bool \<Rightarrow> byte list \<times> byte list \<Rightarrow> ClientTask \<Rightarrow> cint \<Rightarrow> nat \<Rightarrow> nat \<Rightarrow>
     message list \<Rightarrow> RequestMsg list \<times> client_end" where
  "Client_loop blk ok pad this ty i 0 ib = ([], ClientDone ib)"
| "Client_loop blk ok pad this ty i (Suc n) ib =
     (case Client_request blk ok pad this ty (of_nat i) of
        Inl f \<Rightarrow> ([], ClientFailed f)
      | Inr req \<Rightarrow>
          (case Client_receive ib of
             None \<Rightarrow> ([req], ClientWaiting ib)
           | Some (Inl f) \<Rightarrow> ([req], ClientFailed f)
           | Some (Inr ib') \<Rightarrow>
               (let (reqs, e) = Client_loop blk ok pad this ty (Suc i) n ib' in (req # reqs, e))))"

text \<open>\<open>start\<close>: the identifier all requests are sent to, the requests and the end of the loop.\<close>

definition Client_start ::
  "RequestMsg option \<Rightarrow> bool \<Rightarrow> byte list \<times> byte list \<Rightarrow> ClientTask \<Rightarrow> nat \<Rightarrow> mem \<Rightarrow> cint \<Rightarrow> cint \<Rightarrow>
     message list \<Rightarrow> (cint \<times> RequestMsg list \<times> client_end) res" where
  "Client_start blk ok pad this extent d req_type nb_request ib =
     bindR (repository_get_id extent d (bytes_of ''database'' @ [0])) (\<lambda>database_id.
       Inr (database_id,
            Client_loop blk ok pad this req_type 0 (nat (sint nb_request)) ib))"

section \<open>The requests of the client\<close>

lemma length_bytes [simp]:
  "length (select_data_bytes i) = 8" "length (student_data_bytes i p q) = 48"
  by (simp_all add: select_data_bytes_def student_data_bytes_def)

definition client_req ::
  "RequestMsg \<Rightarrow> ClientTask \<Rightarrow> byte list \<times> byte list \<Rightarrow> cint \<Rightarrow> cint \<Rightarrow> RequestMsg" where
  "client_req blk this pad ty i =
     (let data = (if ty = 2 then student_data_bytes i (fst pad) (snd pad)
                  else if ty = 4 then [] else select_data_bytes i) in
      blk\<lparr>tag := REQUEST_MSG, tid := class_id RequestC, methods := Some RequestC,
          msg_size := of_nat (88 + length data), sender_task_id := cl_taskID this,
          request_type := (if ty = 1 then SELECT_REQUEST else if ty = 2 then INSERT_REQUEST
            else if ty = 3 then DELETE_REQUEST else PING_REQUEST),
          req_data_size := of_nat (length data), req_data := data\<rparr>)"

lemma Client_request_eq:
  "ty \<in> {1, 2, 3, 4} \<Longrightarrow>
     Client_request (Some blk) True pad this ty i = Inr (client_req blk this pad ty i)"
  by (auto simp: Client_request_def RequestMsg_create_def RequestMsg_setData_def copy_elems_def
      client_req_def Let_def intro!: RequestMsg.equality)

lemma Client_loop_answers:
  assumes "ty \<in> {1, 2, 3, 4}" "\<forall>x \<in> set rs. tag x = RESPONSE_MSG"
  shows "Client_loop (Some blk) True pad this ty i (length rs) (map MResponse rs @ ib) =
     (map (\<lambda>k. client_req blk this pad ty (of_nat k)) [i..<i + length rs], ClientDone ib)"
  using assms(2)
proof (induction rs arbitrary: i)
  case (Cons x rs)
  have "Client_receive (map MResponse (x # rs) @ ib) = Some (Inr (map MResponse rs @ ib))"
    using Cons.prems
    by (simp add: Client_receive_def poll_tag_def in_getMsgTag_def in_receive_def as_response_def
        db_enums Message.truncate_def)
  then show ?case
    using Cons
    by (simp add: Client_request_eq [OF assms(1)] upt_conv_Cons [of i "Suc (i + length rs)"]
        del: upt_Suc)
qed simp


lemma client_req_sel [simp]:
  "tag (client_req blk this pad ty i) = REQUEST_MSG"
  "sender_task_id (client_req blk this pad ty i) = cl_taskID this"
  by (simp_all add: client_req_def Let_def)

lemma client_req_wf:
  assumes "ty \<in> {1, 2, 3, 4}"
  shows "wf_msg (MRequest (client_req blk this pad ty i))"
  using assms by (auto simp: client_req_def Let_def wf_array_def wf_header_def)

lemma client_req_ok: "ty \<in> {1, 2, 4} \<Longrightarrow> ok_request sr (client_req blk this pad ty i)"
  by (auto simp: ok_request_def client_req_def Let_def db_enums)

text \<open>What the server stores for the insert request of round \<open>i\<close>.\<close>

lemma client_insert:
  assumes "length xs < MAX_STUDENT"
  shows "spec_request sr (client_req blk this pad 2 i) xs =
     (xs @ [(scast i, strncpy_bytes (bytes_of ''Francois Gingras'' @ [0]) 30, 1082759578)], RESPONSE_OK, None)"
proof -
  let ?nm = "strncpy_bytes (bytes_of ''Francois Gingras'' @ [0]) 30"
  let ?d = "student_data_bytes i (fst pad) (snd pad)"
  have len: "length (strncpy_bytes (bytes_of ''Francois Gingras'' @ [0]) 30) = 30"
    by simp
  have 1: "of_nat (of_le (take 8 ?d)) = (scast i :: clong)"
    by (simp add: student_data_bytes_def)
  have 2: "take 30 (drop 8 ?d) = ?nm"
    using len by (simp add: student_data_bytes_def)
  have "take 4 (drop 40 ?d) = to_le 4 1082759578"
    using len by (simp add: student_data_bytes_def)
  then have 3: "of_nat (of_le (take 4 (drop 40 ?d))) = (1082759578 :: cint)"
    using of_le_to_le [of 4 1082759578] by simp
  have 4: "strncpy_bytes ?nm 30 = ?nm"
    by (simp add: strncpy_bytes_def bytes_of_def cstr_def)
  show ?thesis
    using assms 1 2 3 4
    by (simp add: spec_request_def client_req_def Let_def db_enums spec_insert_def)
qed

lemma client_inserts:
  "length xs + n \<le> MAX_STUDENT \<Longrightarrow>
   spec_serve sr (map (\<lambda>k. client_req blk this pad 2 (of_nat k)) [i..<i + n]) xs =
     (xs @ map (\<lambda>k. (scast (of_nat k :: cint), strncpy_bytes (bytes_of ''Francois Gingras'' @ [0]) 30,
        1082759578)) [i..<i + n], replicate n (RESPONSE_OK, None))"
proof (induction n arbitrary: i xs)
  case (Suc n)
  let ?x = "(scast (of_nat i :: cint), strncpy_bytes (bytes_of ''Francois Gingras'' @ [0]) 30, 1082759578)"
  have "length xs < MAX_STUDENT"
    using Suc.prems by simp
  note ins = client_insert [OF this, of sr blk this pad "of_nat i"]
  show ?case
    unfolding upt_front list.map spec_serve.simps ins
    using Suc.IH [of "xs @ [?x]" "Suc i"] Suc.prems by (simp del: upt_Suc)
qed simp

section \<open>Properties\<close>

text \<open>
  The client sends \<open>nb_request\<close> requests, one per response it gets and numbered from 0, all of
  them well-formed messages (so that the queue delivers them unaltered) and, except for delete
  requests, of a kind the database can process.
\<close>

theorem client_sends_requests:
  assumes "ty \<in> {1, 2, 3, 4}" "\<forall>x \<in> set rs. tag x = RESPONSE_MSG"
  shows "case Client_loop (Some blk) True pad this ty 0 (length rs) (map MResponse rs) of
     (reqs, ClientDone ib) \<Rightarrow> ib = [] \<and> length reqs = length rs \<and>
       (\<forall>r \<in> set reqs. wf_msg (MRequest r) \<and> sender_task_id r = cl_taskID this \<and>
          (ty \<noteq> 3 \<longrightarrow> ok_request tight r)) \<and>
       (ty \<in> {1, 2} \<longrightarrow> map (\<lambda>r. of_nat (of_le (take 8 (req_data r)))) reqs =
          map (\<lambda>k. scast (of_nat k :: cint) :: clong) [0..<length rs])
   | _ \<Rightarrow> False"
proof -
  have "of_nat (of_le (take 8 (req_data (client_req blk this pad ty i)))) = (scast i :: clong)"
    if "ty \<in> {1, 2}" for i
    using that by (auto simp: client_req_def Let_def student_data_bytes_def select_data_bytes_def)
  note num = this
  have "ty \<noteq> 3 \<longrightarrow> ok_request tight (client_req blk this pad ty i)" for i
    using assms(1) by (auto intro: client_req_ok)
  then show ?thesis
    using Client_loop_answers [OF assms, of blk pad this 0 "[]"] client_req_wf [OF assms(1)] num
    by (simp add: o_def)
qed

theorem client_sends_requests_witness:
  "case Client_loop (Some (sample_request 0 0 [])) True ([], []) \<lparr>cl_taskID = 4\<rparr> 2 0 1
       [MResponse (sample_response\<lparr>tag := 1\<rparr>)] of
     (reqs, ClientDone ib) \<Rightarrow> ib = [] \<and> length reqs = 1
   | _ \<Rightarrow> False"
proof -
  have "\<forall>x \<in> set [sample_response\<lparr>tag := 1\<rparr>]. tag x = RESPONSE_MSG"
    by (simp add: db_enums)
  with client_sends_requests [where ty = 2 and rs = "[sample_response\<lparr>tag := 1\<rparr>]"
      and blk = "sample_request 0 0 []" and pad = "([], [])" and this = "\<lparr>cl_taskID = 4\<rparr>"] show ?thesis
    by (auto split: client_end.splits prod.splits)
qed

text \<open>
  Client and server together: a client that inserts \<open>n\<close> students (at most \<open>MAX_STUDENT\<close>) into an
  empty database gets \<open>n\<close> positive responses, and the database then holds the students with the
  identifiers \<open>0\<close> to \<open>n - 1\<close>, in this order, with the name and the grade the client gave.
\<close>

theorem client_fills_database:
  assumes "db_inv t" "db_records t = []" "n \<le> MAX_STUDENT"
  shows "case Database_loop sr (Some b) n t
       (map (\<lambda>k. MRequest (client_req blk this pad 2 (of_nat k))) [0..<n]) of
     (outs, Finished t' ib) \<Rightarrow> ib = [] \<and> map fst outs = replicate n (cl_taskID this) \<and>
       map (\<lambda>x. reply_of (snd x)) outs = replicate n (RESPONSE_OK, None) \<and>
       db_records t' = map (\<lambda>k. (scast (of_nat k :: cint),
         strncpy_bytes (bytes_of ''Francois Gingras'' @ [0]) 30, 1082759578)) [0..<n]
   | _ \<Rightarrow> False"
proof -
  let ?rs = "map (\<lambda>k. client_req blk this pad 2 (of_nat k)) [0..<n]"
  have ok: "\<forall>r \<in> set ?rs. ok_request sr r"
    by (auto intro: client_req_ok)
  obtain outs t' where run: "Database_loop sr (Some b) (length ?rs) t (map MRequest ?rs @ []) =
      (outs, Finished t' [])" "map fst outs = map sender_task_id ?rs"
    "(db_records t', map (\<lambda>x. reply_of (snd x)) outs) = spec_serve sr ?rs (db_records t)"
    using serve_refines [OF assms(1) ok, of b "[]"] by blast
  have "map sender_task_id ?rs = replicate n (cl_taskID this)"
    by (simp add: o_def map_replicate_const)
  with run assms(2,3) client_inserts [of "[]" n sr blk this pad 0] show ?thesis
    by (simp add: o_def)
qed

theorem client_fills_database_witness:
  "case Database_loop tight (Some sample_response) 3 sample_db
       (map (\<lambda>k. MRequest (client_req (sample_request 0 0 []) \<lparr>cl_taskID = 4\<rparr> ([], []) 2 (of_nat k))) [0..<3]) of
     (outs, Finished t' ib) \<Rightarrow> ib = [] \<and> map fst outs = replicate 3 4 \<and>
       map (\<lambda>x. reply_of (snd x)) outs = replicate 3 (RESPONSE_OK, None) \<and>
       db_records t' = map (\<lambda>k. (scast (of_nat k :: cint),
         strncpy_bytes (bytes_of ''Francois Gingras'' @ [0]) 30, 1082759578)) [0..<3]
   | _ \<Rightarrow> False"
  using client_fills_database [OF sample_db_inv, where n = 3 and sr = tight and b = sample_response
      and blk = "sample_request 0 0 []" and this = "\<lparr>cl_taskID = 4\<rparr>" and pad = "([], [])"]
  by (simp add: db_records_def sample_db_def MAX_STUDENT_def split: prod.splits run_end.splits
      del: Database_loop.simps)

end
