(* ===== verification/TimeHelper.thy ===== *)
theory TimeHelper
  imports Prelude
begin

text \<open>
  Time spans (\<open>TaskSystem/src/TimeHelper.c\<close>): difference and sum of \<open>struct timespec\<close> values, used for
  the timing output of the tasks.  The members are kept as unbounded integers: they are seconds
  since boot and nanoseconds below \<open>10 ^ 9\<close>, far from the bounds of \<open>long\<close>.
\<close>

record timespec =
  tv_sec :: int
  tv_nsec :: int

definition diff :: "timespec \<Rightarrow> timespec \<Rightarrow> timespec" where
  "diff start fin =
     (if tv_nsec fin - tv_nsec start < 0 then
        \<lparr>tv_sec = tv_sec fin - tv_sec start - 1,
         tv_nsec = 1000000000 + tv_nsec fin - tv_nsec start\<rparr>
      else
        \<lparr>tv_sec = tv_sec fin - tv_sec start, tv_nsec = tv_nsec fin - tv_nsec start\<rparr>)"

definition tsAdd :: "timespec \<Rightarrow> timespec \<Rightarrow> timespec" where
  "tsAdd time1 time2 =
     (let result = \<lparr>tv_sec = tv_sec time1 + tv_sec time2, tv_nsec = tv_nsec time1 + tv_nsec time2\<rparr>
      in if tv_nsec result \<ge> 1000000000
         then result\<lparr>tv_sec := tv_sec result + 1, tv_nsec := tv_nsec result - 1000000000\<rparr>
         else result)"

definition normal_time :: "timespec \<Rightarrow> bool" where
  "normal_time t \<longleftrightarrow> 0 \<le> tv_nsec t \<and> tv_nsec t < 1000000000"

definition nanos :: "timespec \<Rightarrow> int" where
  "nanos t = 1000000000 * tv_sec t + tv_nsec t"

text \<open>
  \<open>diff\<close> and \<open>tsAdd\<close> keep times normal, compute the difference and the sum of the times in
  nanoseconds, and are inverse to each other.
\<close>

theorem timespec_arithmetic:
  assumes "normal_time s" "normal_time e"
  shows "normal_time (diff s e) \<and> nanos (diff s e) = nanos e - nanos s \<and>
     normal_time (tsAdd s e) \<and> nanos (tsAdd s e) = nanos s + nanos e \<and> tsAdd s (diff s e) = e"
  using assms by (auto simp: normal_time_def diff_def tsAdd_def nanos_def Let_def intro!: timespec.equality)

theorem timespec_arithmetic_witness:
  "normal_time (diff \<lparr>tv_sec = 1, tv_nsec = 900000000\<rparr> \<lparr>tv_sec = 3, tv_nsec = 100000000\<rparr>) \<and>
   nanos (diff \<lparr>tv_sec = 1, tv_nsec = 900000000\<rparr> \<lparr>tv_sec = 3, tv_nsec = 100000000\<rparr>) = 1200000000"
  using timespec_arithmetic [of "\<lparr>tv_sec = 1, tv_nsec = 900000000\<rparr>" "\<lparr>tv_sec = 3, tv_nsec = 100000000\<rparr>"]
  by (simp add: normal_time_def nanos_def)

end
