(* ===== verification/SimpleTasks.thy ===== *)
theory SimpleTasks
  imports TaskComm
begin

text \<open>
  The demonstration tasks: \<open>PapaTask\<close> spawns two \<open>FooTask\<close>s and a \<open>BazTask\<close> and sends two messages to
  each of them; a child looks at its queue twice and handles or drops what it finds.  What a task
  prints is modelled as a list of outputs.
\<close>

section \<open>Definitions\<close>

record PapaTask =
  papa_taskID :: cint

record FooTask =
  foo_taskID :: cint

record BazTask =
  baz_taskID :: cint

definition PapaTask_create ::
  "PapaTask option \<Rightarrow> os \<Rightarrow> bool \<Rightarrow> mem \<Rightarrow> shm \<Rightarrow> System \<Rightarrow>
     (mem \<times> shm \<times> System \<times> PapaTask) res" where
  "PapaTask_create blk e pthread_ok d s Comm =
     (case blk of None \<Rightarrow> Inl (ExitCall 1)
      | Some newRec \<Rightarrow>
          bindR (register_task e d s Comm) (\<lambda>(d', s', Comm', i).
            if pthread_ok then Inr (d', s', Comm', newRec\<lparr>papa_taskID := i\<rparr>)
            else Inl (ExitCall (-1))))"

definition FooTask_create ::
  "FooTask option \<Rightarrow> os \<Rightarrow> bool \<Rightarrow> mem \<Rightarrow> shm \<Rightarrow> System \<Rightarrow>
     (mem \<times> shm \<times> System \<times> FooTask) res" where
  "FooTask_create blk e pthread_ok d s Comm =
     (case blk of None \<Rightarrow> Inl (ExitCall 1)
      | Some newRec \<Rightarrow>
          bindR (register_task e d s Comm) (\<lambda>(d', s', Comm', i).
            if pthread_ok then Inr (d', s', Comm', newRec\<lparr>foo_taskID := i\<rparr>)
            else Inl (ExitCall (-1))))"

definition BazTask_create ::
  "BazTask option \<Rightarrow> os \<Rightarrow> bool \<Rightarrow> mem \<Rightarrow> shm \<Rightarrow> System \<Rightarrow>
     (mem \<times> shm \<times> System \<times> BazTask) res" where
  "BazTask_create blk e pthread_ok d s Comm =
     (case blk of None \<Rightarrow> Inl (ExitCall 1)
      | Some newRec \<Rightarrow>
          bindR (register_task e d s Comm) (\<lambda>(d', s', Comm', i).
            if pthread_ok then Inr (d', s', Comm', newRec\<lparr>baz_taskID := i\<rparr>)
            else Inl (ExitCall (-1))))"

text \<open>The message tags of the three tasks.\<close>

definition TEXT_MSG :: cint where "TEXT_MSG = 0"
definition BAR_MSG :: cint where "BAR_MSG = 1"

text \<open>What is printed: the task, and the text, the value or the tag without a handler.\<close>

datatype printed =
    TextHandled cint "byte list"
  | BarHandled cint cint
  | NoHandler cint cint

definition foo_handle_TextMsg :: "FooTask \<Rightarrow> TextMsg \<Rightarrow> printed res" where
  "foo_handle_TextMsg this textMsg =
     (if 0 \<in> set (TextMsg_getMsg textMsg)
      then Inr (TextHandled (foo_taskID this) (cstr (TextMsg_getMsg textMsg))) else Inl OutOfBounds)"

definition foo_handle_BarMsg :: "FooTask \<Rightarrow> BarMsg \<Rightarrow> printed" where
  "foo_handle_BarMsg this barMsg = BarHandled (foo_taskID this) (BarMsg_getValue barMsg)"

definition Foo_receive :: "FooTask \<Rightarrow> message list \<Rightarrow> (printed list \<times> message list) res" where
  "Foo_receive this ib =
     (let t = in_getMsgTag ib in
      if t = - 1 then Inr ([], ib)
      else if t = TEXT_MSG then
        bindR (in_receive ib) (\<lambda>(msg, ib'). bindR (as_text msg) (\<lambda>m.
        bindR (foo_handle_TextMsg this m) (\<lambda>out. Inr ([out], ib'))))
      else if t = BAR_MSG then
        bindR (in_receive ib) (\<lambda>(msg, ib'). bindR (as_bar msg) (\<lambda>m.
          Inr ([foo_handle_BarMsg this m], ib')))
      else Inr ([NoHandler (foo_taskID this) t], in_dropMsg ib))"

text \<open>\<open>start\<close>; the messages \<open>late\<close> arrive between the two checks.\<close>

definition Foo_start :: "FooTask \<Rightarrow> message list \<Rightarrow> message list \<Rightarrow> (printed list \<times> message list) res" where
  "Foo_start this ib late =
     bindR (Foo_receive this ib) (\<lambda>(outs1, ib1).
     bindR (Foo_receive this (ib1 @ late)) (\<lambda>(outs2, ib2). Inr (outs1 @ outs2, ib2)))"

definition baz_handle_TextMsg :: "BazTask \<Rightarrow> TextMsg \<Rightarrow> printed res" where
  "baz_handle_TextMsg this textMsg =
     (if 0 \<in> set (TextMsg_getMsg textMsg)
      then Inr (TextHandled (baz_taskID this) (cstr (TextMsg_getMsg textMsg))) else Inl OutOfBounds)"

definition baz_handle_BarMsg :: "BazTask \<Rightarrow> BarMsg \<Rightarrow> printed" where
  "baz_handle_BarMsg this barMsg = BarHandled (baz_taskID this) (BarMsg_getValue barMsg)"

definition Baz_receive :: "BazTask \<Rightarrow> message list \<Rightarrow> (printed list \<times> message list) res" where
  "Baz_receive this ib =
     (let t = in_getMsgTag ib in
      if t = - 1 then Inr ([], ib)
      else if t = TEXT_MSG then
        bindR (in_receive ib) (\<lambda>(msg, ib'). bindR (as_text msg) (\<lambda>m.
        bindR (baz_handle_TextMsg this m) (\<lambda>out. Inr ([out], ib'))))
      else Inr ([NoHandler (baz_taskID this) t], in_dropMsg ib))"

definition Baz_start :: "BazTask \<Rightarrow> message list \<Rightarrow> message list \<Rightarrow> (printed list \<times> message list) res" where
  "Baz_start this ib late =
     bindR (Baz_receive this ib) (\<lambda>(outs1, ib1).
     bindR (Baz_receive this (ib1 @ late)) (\<lambda>(outs2, ib2). Inr (outs1 @ outs2, ib2)))"

text \<open>The messages of \<open>PapaTask\<close>; \<open>tb\<close> and \<open>bb\<close> are the blocks that \<open>malloc\<close> returned.\<close>

definition papa_text :: "TextMsg option \<Rightarrow> string \<Rightarrow> TextMsg res" where
  "papa_text blk str =
     bindR (TextMsg_create blk TEXT_MSG) (\<lambda>m. TextMsg_setMsg m (bytes_of str @ [0]))"

definition papa_bar :: "BarMsg option \<Rightarrow> cint \<Rightarrow> BarMsg res" where
  "papa_bar blk v = bindR (BarMsg_create blk BAR_MSG) (\<lambda>m. Inr (BarMsg_setValue m v))"

definition Papa_messages ::
  "(nat \<Rightarrow> TextMsg option) \<Rightarrow> (nat \<Rightarrow> BarMsg option) \<Rightarrow> cint \<Rightarrow> cint \<Rightarrow> cint \<Rightarrow>
     (cint \<times> message) list res" where
  "Papa_messages tb bb child1 child2 child3 =
     bindR (papa_text (tb 1) ''Hello World'') (\<lambda>textMsg1.
     bindR (papa_bar (bb 1) 44) (\<lambda>barMsg1.
     bindR (papa_bar (bb 2) 99) (\<lambda>barMsg2.
     bindR (papa_text (tb 2) ''Goodbye World'') (\<lambda>textMsg2.
     bindR (papa_bar (bb 3) 11) (\<lambda>barMsg3.
     bindR (papa_text (tb 3) ''me too'') (\<lambda>textMsg3.
       Inr [(child1, MText textMsg1), (child2, MBar barMsg1), (child1, MBar barMsg2),
            (child2, MText textMsg2), (child3, MBar barMsg3), (child3, MText textMsg3)]))))))"

text \<open>\<open>start\<close>: the children are created first, then the messages are sent.\<close>

definition Papa_start ::
  "FooTask option \<Rightarrow> FooTask option \<Rightarrow> BazTask option \<Rightarrow> (nat \<Rightarrow> TextMsg option) \<Rightarrow> (nat \<Rightarrow> BarMsg option) \<Rightarrow>
     os \<Rightarrow> bool \<Rightarrow> mem \<Rightarrow> shm \<Rightarrow> System \<Rightarrow>
     (mem \<times> shm \<times> System \<times> FooTask \<times> FooTask \<times> BazTask \<times> (cint \<times> message) list) res" where
  "Papa_start f1 f2 b3 tb bb e ok d s Comm =
     bindR (FooTask_create f1 e ok d s Comm) (\<lambda>(d1, s1, Comm1, c1).
     bindR (FooTask_create f2 e ok d1 s1 Comm1) (\<lambda>(d2, s2, Comm2, c2).
     bindR (BazTask_create b3 e ok d2 s2 Comm2) (\<lambda>(d3, s3, Comm3, c3).
     bindR (Papa_messages tb bb (foo_taskID c1) (foo_taskID c2) (baz_taskID c3)) (\<lambda>outs.
       Inr (d3, s3, Comm3, c1, c2, c3, outs)))))"

section \<open>The children\<close>

text \<open>What a child does with a message of a tag it knows, and how many of its messages it reads.\<close>

definition foo_out :: "FooTask \<Rightarrow> message \<Rightarrow> printed" where
  "foo_out this x = (case x of MText m \<Rightarrow> TextHandled (foo_taskID this) (cstr (text_msg m))
     | MBar m \<Rightarrow> BarHandled (foo_taskID this) (bar_value m)
     | _ \<Rightarrow> NoHandler (foo_taskID this) (tag (header_of x)))"

definition demo_msg :: "message \<Rightarrow> bool" where
  "demo_msg x = (case x of MText m \<Rightarrow> tag m = TEXT_MSG \<and> 0 \<in> set (text_msg m)
     | MBar m \<Rightarrow> tag m = BAR_MSG | _ \<Rightarrow> False)"

definition baz_out :: "BazTask \<Rightarrow> message \<Rightarrow> printed" where
  "baz_out this x = (case x of MText m \<Rightarrow> TextHandled (baz_taskID this) (cstr (text_msg m))
     | _ \<Rightarrow> NoHandler (baz_taskID this) (tag (header_of x)))"

lemma Foo_receive_eq:
  "\<forall>x \<in> set ib. demo_msg x \<Longrightarrow> Foo_receive this ib = Inr (map (foo_out this) (take 1 ib), drop 1 ib)"
  by (cases ib)
    (auto simp: Foo_receive_def in_getMsgTag_def in_receive_def demo_msg_def foo_out_def as_text_def as_bar_def
      foo_handle_TextMsg_def foo_handle_BarMsg_def TextMsg_getMsg_def BarMsg_getValue_def TEXT_MSG_def BAR_MSG_def
      Message.truncate_def split: message.splits)

lemma Baz_receive_eq:
  "\<forall>x \<in> set ib. demo_msg x \<Longrightarrow> Baz_receive this ib = Inr (map (baz_out this) (take 1 ib), drop 1 ib)"
  by (cases ib)
    (auto simp: Baz_receive_def in_getMsgTag_def in_receive_def in_dropMsg_def demo_msg_def baz_out_def as_text_def
      baz_handle_TextMsg_def TextMsg_getMsg_def TEXT_MSG_def BAR_MSG_def
      Message.truncate_def split: message.splits)

lemma papa_text_ok:
  assumes "length (text_msg blk) = 100" "length str < 100" "0 \<notin> set (bytes_of str)"
  shows "\<exists>m. papa_text (Some blk) str = Inr m \<and> wf_msg (MText m) \<and> demo_msg (MText m) \<and>
     cstr (text_msg m) = bytes_of str"
proof -
  have "length (bytes_of str) < 100" using assms(2) by (simp add: bytes_of_def)
  moreover have "cstr (bytes_of str @ [0]) = bytes_of str"
    using cstr_append_zero [OF assms(3), of "[]"] by simp
  ultimately show ?thesis
    using assms(1,3)
    by (simp add: papa_text_def TextMsg_create_def TextMsg_setMsg_def strcpy_def demo_msg_def wf_header_def
        cstr_append_zero)
qed

lemma papa_bar_ok:
  "\<exists>m. papa_bar (Some blk) v = Inr m \<and> wf_msg (MBar m) \<and> demo_msg (MBar m) \<and> bar_value m = v"
  by (simp add: papa_bar_def BarMsg_create_def BarMsg_setValue_def demo_msg_def wf_header_def)

lemma papa_messages_ok:
  assumes "\<forall>i \<in> {1, 2, 3}. bb i \<noteq> None \<and> (\<exists>u. tb i = Some u \<and> length (text_msg u) = 100)"
  shows "\<exists>t1 t2 t3 b1 b2 b3. Papa_messages tb bb c1 c2 c3 =
       Inr [(c1, MText t1), (c2, MBar b1), (c1, MBar b2), (c2, MText t2), (c3, MBar b3), (c3, MText t3)] \<and>
     (\<forall>x \<in> {MText t1, MText t2, MText t3, MBar b1, MBar b2, MBar b3}. wf_msg x \<and> demo_msg x) \<and>
     map (\<lambda>t. cstr (text_msg t)) [t1, t2, t3] = map bytes_of [''Hello World'', ''Goodbye World'', ''me too''] \<and>
     map bar_value [b1, b2, b3] = [44, 99, 11]"
proof -
  have nz: "0 \<notin> set (bytes_of ''Hello World'')" "0 \<notin> set (bytes_of ''Goodbye World'')" "0 \<notin> set (bytes_of ''me too'')"
    by (simp_all add: bytes_of_def)
  from assms obtain u1 u2 u3 v1 v2 v3 where u: "tb 1 = Some u1" "tb 2 = Some u2" "tb 3 = Some u3"
    "bb 1 = Some v1" "bb 2 = Some v2" "bb 3 = Some v3"
    "length (text_msg u1) = 100" "length (text_msg u2) = 100" "length (text_msg u3) = 100" by auto
  obtain t1 where t1: "papa_text (Some u1) ''Hello World'' = Inr t1" "wf_msg (MText t1)" "demo_msg (MText t1)"
    "cstr (text_msg t1) = bytes_of ''Hello World''"
    using papa_text_ok [OF u(7) _ nz(1)] by auto
  obtain t2 where t2: "papa_text (Some u2) ''Goodbye World'' = Inr t2" "wf_msg (MText t2)" "demo_msg (MText t2)"
    "cstr (text_msg t2) = bytes_of ''Goodbye World''"
    using papa_text_ok [OF u(8) _ nz(2)] by auto
  obtain t3 where t3: "papa_text (Some u3) ''me too'' = Inr t3" "wf_msg (MText t3)" "demo_msg (MText t3)"
    "cstr (text_msg t3) = bytes_of ''me too''"
    using papa_text_ok [OF u(9) _ nz(3)] by auto
  obtain b1 b2 b3 where b: "papa_bar (Some v1) 44 = Inr b1" "papa_bar (Some v2) 99 = Inr b2" "papa_bar (Some v3) 11 = Inr b3"
    "\<forall>m \<in> {b1, b2, b3}. wf_msg (MBar m) \<and> demo_msg (MBar m)" "map bar_value [b1, b2, b3] = [44, 99, 11]"
    using papa_bar_ok [of v1 44] papa_bar_ok [of v2 99] papa_bar_ok [of v3 11] by auto
  show ?thesis
    using u(1-6) t1 t2 t3 b
    by (intro exI [of _ t1] exI [of _ t2] exI [of _ t3] exI [of _ b1] exI [of _ b2] exI [of _ b3])
      (simp add: Papa_messages_def)
qed

section \<open>Properties\<close>

text \<open>
  A child looks at its queue only twice and does not wait: it handles one message per check that
  finds one, in order, so what it reads of the messages \<open>ib\<close> there at the first check and \<open>late\<close> there
  at the second is at most two messages, and only one when the first check came too early.  The rest
  stays in its queue.
\<close>

theorem children_do_not_wait:
  assumes "\<forall>x \<in> set (ib @ late). demo_msg x"
  defines "n \<equiv> (if ib = [] then 1 else 2)"
  shows "Foo_start foo ib late = Inr (map (foo_out foo) (take n (ib @ late)), drop n (ib @ late)) \<and>
     Baz_start baz ib late = Inr (map (baz_out baz) (take n (ib @ late)), drop n (ib @ late))"
proof -
  have "\<forall>x \<in> set ib. demo_msg x" "\<forall>x \<in> set (drop 1 ib @ late). demo_msg x"
    using assms(1) by (auto dest: in_set_dropD)
  then show ?thesis
    by (cases ib) (simp_all add: Foo_start_def Baz_start_def Foo_receive_eq Baz_receive_eq n_def numeral_2_eq_2)
qed

definition demo_bar :: message where
  "demo_bar = MBar \<lparr>tag = BAR_MSG, tid = 1, msg_size = 72, methods = Some BarC, bar_value = 7\<rparr>"

theorem children_do_not_wait_witness:
  "Foo_start \<lparr>foo_taskID = 2\<rparr> [] [demo_bar, demo_bar] = Inr ([BarHandled 2 7], [demo_bar])"
  using children_do_not_wait [where ib = "[]" and late = "[demo_bar, demo_bar]" and foo = "\<lparr>foo_taskID = 2\<rparr>"]
  by (simp add: demo_bar_def demo_msg_def foo_out_def)

text \<open>
  The six messages of \<open>PapaTask\<close> are well-formed, so that the queues deliver them, and when they
  are there in time the children say what was meant: the first one greets and shows 99, the second
  shows 44 and says goodbye, the third drops the number it has no handler for and shows the text.
\<close>

theorem papa_and_children:
  assumes "\<forall>i \<in> {1, 2, 3}. bb i \<noteq> None \<and> (\<exists>u. tb i = Some u \<and> length (text_msg u) = 100)"
    "distinct [c1, c2, c3]"
  shows "\<exists>outs. Papa_messages tb bb c1 c2 c3 = Inr outs \<and> (\<forall>x \<in> set outs. wf_msg (snd x)) \<and>
     Foo_start \<lparr>foo_taskID = c1\<rparr> (messages_for c1 outs) [] =
       Inr ([TextHandled c1 (bytes_of ''Hello World''), BarHandled c1 99], []) \<and>
     Foo_start \<lparr>foo_taskID = c2\<rparr> (messages_for c2 outs) [] =
       Inr ([BarHandled c2 44, TextHandled c2 (bytes_of ''Goodbye World'')], []) \<and>
     Baz_start \<lparr>baz_taskID = c3\<rparr> (messages_for c3 outs) [] =
       Inr ([NoHandler c3 BAR_MSG, TextHandled c3 (bytes_of ''me too'')], [])"
proof -
  obtain t1 t2 t3 b1 b2 b3 where outs: "Papa_messages tb bb c1 c2 c3 =
       Inr [(c1, MText t1), (c2, MBar b1), (c1, MBar b2), (c2, MText t2), (c3, MBar b3), (c3, MText t3)]"
    and ok: "\<forall>x \<in> {MText t1, MText t2, MText t3, MBar b1, MBar b2, MBar b3}. wf_msg x \<and> demo_msg x"
    and vals: "map (\<lambda>t. cstr (text_msg t)) [t1, t2, t3] = map bytes_of [''Hello World'', ''Goodbye World'', ''me too'']"
      "map bar_value [b1, b2, b3] = [44, 99, 11]"
    using papa_messages_ok [OF assms(1), of c1 c2 c3] by (elim exE conjE) (rule that)
  have tag: "tag b3 = BAR_MSG"
    using ok by (simp add: demo_msg_def)
  have "c2 \<noteq> c1" "c3 \<noteq> c1" "c3 \<noteq> c2"
    using assms(2) by auto
  then show ?thesis
    using ok vals tag assms(2)
    by (simp add: outs messages_for_def Foo_start_def Baz_start_def Foo_receive_eq Baz_receive_eq foo_out_def
        baz_out_def Message.truncate_def del: wf_msg.simps)
qed

theorem papa_and_children_witness:
  "\<exists>outs. Papa_messages
       (\<lambda>_. Some \<lparr>tag = 0, tid = 0, msg_size = 0, methods = None, text_msg = replicate 100 1\<rparr>)
       (\<lambda>_. Some \<lparr>tag = 0, tid = 0, msg_size = 0, methods = None, bar_value = 0\<rparr>) 2 3 4 = Inr outs \<and>
     Foo_start \<lparr>foo_taskID = 3\<rparr> (messages_for 3 outs) [] =
       Inr ([BarHandled 3 44, TextHandled 3 (bytes_of ''Goodbye World'')], [])"
  using papa_and_children [of "\<lambda>_. Some \<lparr>tag = 0, tid = 0, msg_size = 0, methods = None, bar_value = 0\<rparr>"
      "\<lambda>_. Some \<lparr>tag = 0, tid = 0, msg_size = 0, methods = None, text_msg = replicate 100 1\<rparr>" 2 3 4]
  by auto

end
