(* ===== verification/WeatherTasks.thy ===== *)
theory WeatherTasks
  imports TaskComm
begin

text \<open>
  The weather tasks (\<open>TaskSystem/src/Tasks/WeatherStationTask/WeatherStationTask.c\<close> and
  \<open>WeatherClientTask/WeatherClientTask.c\<close>): a station gets its name, enters it into the repository,
  accepts up to 50 subscribers and broadcasts to them every 10000000 rounds of its loop; a client
  looks the station up by name, subscribes and prints what it gets.
\<close>

section \<open>Definitions\<close>

record WeatherStationTask =
  ws_taskID :: cint
  close_order :: cint
  ws_station_name :: "byte list"
  sub_count :: cint
  subs :: "cint list"

definition WeatherStationTask_create ::
  "WeatherStationTask option \<Rightarrow> os \<Rightarrow> bool \<Rightarrow> mem \<Rightarrow> shm \<Rightarrow> System \<Rightarrow>
     (mem \<times> shm \<times> System \<times> WeatherStationTask) res" where
  "WeatherStationTask_create blk e pthread_ok d s Comm =
     (case blk of None \<Rightarrow> Inl (ExitCall 1)
      | Some newRec \<Rightarrow>
          bindR (register_task e d s Comm) (\<lambda>(d', s', Comm', i).
            if pthread_ok
            then Inr (d', s', Comm', newRec\<lparr>ws_taskID := i, close_order := 0, sub_count := 0\<rparr>)
            else Inl (ExitCall (-1))))"

definition WEATHER_STATION_NAME_MSG :: cint where "WEATHER_STATION_NAME_MSG = 0"
definition SUB_MSG :: cint where "SUB_MSG = 1"
definition POST_WEATHER_MSG :: cint where "POST_WEATHER_MSG = 2"

lemmas weather_tags = WEATHER_STATION_NAME_MSG_def SUB_MSG_def POST_WEATHER_MSG_def

definition station_handle_NameMsg :: "WeatherStationTask \<Rightarrow> TextMsg \<Rightarrow> WeatherStationTask res" where
  "station_handle_NameMsg this textMsg =
     bindR (strcpy (ws_station_name this) (TextMsg_getMsg textMsg)) (\<lambda>nm.
       Inr (this\<lparr>ws_station_name := nm\<rparr>))"

definition handle_SubMsg :: "WeatherStationTask \<Rightarrow> BarMsg \<Rightarrow> WeatherStationTask res" where
  "handle_SubMsg this barMsg =
     (let new_sub_id = BarMsg_getValue barMsg; c = sint (sub_count this) in
      if c < 50 then
        (if 0 \<le> c \<and> c < int (length (subs this))
         then Inr (this\<lparr>subs := (subs this)[nat c := new_sub_id], sub_count := sub_count this + 1\<rparr>)
         else Inl OutOfBounds)
      else Inr this)"

definition Station_receive ::
  "WeatherStationTask \<Rightarrow> message list \<Rightarrow> (WeatherStationTask \<times> message list) res option" where
  "Station_receive this ib =
     (case poll_tag ib of
        None \<Rightarrow> None
      | Some t \<Rightarrow> Some
          (if t = WEATHER_STATION_NAME_MSG then
             bindR (in_receive ib) (\<lambda>(msg, ib'). bindR (as_text msg) (\<lambda>m.
             bindR (station_handle_NameMsg this m) (\<lambda>this'. Inr (this', ib'))))
           else if t = SUB_MSG then
             bindR (in_receive ib) (\<lambda>(msg, ib'). bindR (as_bar msg) (\<lambda>m.
             bindR (handle_SubMsg this m) (\<lambda>this'. Inr (this', ib'))))
           else if t = POST_WEATHER_MSG then Inr (this, ib)
           else Inr (this, in_dropMsg ib)))"

text \<open>\<open>message_immediate\<close>: 1 when the queue is empty.\<close>

definition in_message_immediate :: "message list \<Rightarrow> cint" where
  "in_message_immediate ib = (if ib = [] then 1 else 0)"

text \<open>The broadcast.\<close>

definition Station_broadcast ::
  "IntArrayMsg option \<Rightarrow> WeatherStationTask \<Rightarrow> (cint \<times> message) list res" where
  "Station_broadcast blk this =
     bindR (IntArrayMsg_create blk POST_WEATHER_MSG) (\<lambda>m.
     bindR (IntArrayMsg_setValues m 2 [ws_taskID this, 31]) (\<lambda>temp_msg.
     bindR (copy_elems (subs this) (sint (sub_count this))) (\<lambda>dests.
       Inr (map (\<lambda>i. (i, MIntArray temp_msg)) dests))))"

text \<open>One round of the loop of \<open>start\<close>, with the rounds since the last broadcast.\<close>

definition Station_round ::
  "IntArrayMsg option \<Rightarrow> WeatherStationTask \<Rightarrow> nat \<Rightarrow> message list \<Rightarrow>
     (WeatherStationTask \<times> nat \<times> message list \<times> (cint \<times> message) list) res option" where
  "Station_round blk this loop_count ib =
     bindW (if in_message_immediate ib = 0 then Station_receive this ib else Some (Inr (this, ib)))
       (\<lambda>(this', ib').
       if (loop_count + 1) mod 10000000 = 0
       then Some (bindR (Station_broadcast blk this') (\<lambda>outs. Inr (this', 0, ib', outs)))
       else Some (Inr (this', loop_count + 1, ib', [])))"

text \<open>
  The loop of \<open>start\<close>, for a list that tells which messages arrive before each round: the station,
  its counter and its inbox afterwards, and what it has sent.
\<close>

fun Station_loop ::
  "IntArrayMsg option \<Rightarrow> message list list \<Rightarrow> WeatherStationTask \<Rightarrow> nat \<Rightarrow> message list \<Rightarrow>
     (WeatherStationTask \<times> nat \<times> message list \<times> (cint \<times> message) list) res option" where
  "Station_loop blk [] this loop_count ib = Some (Inr (this, loop_count, ib, []))"
| "Station_loop blk (new # news) this loop_count ib =
     (if close_order this = 0 then
        bindW (Station_round blk this loop_count (ib @ new)) (\<lambda>(this1, lc1, ib1, outs1).
        bindW (Station_loop blk news this1 lc1 ib1) (\<lambda>(this2, lc2, ib2, outs2).
          Some (Inr (this2, lc2, ib2, outs1 @ outs2))))
      else Some (Inr (this, loop_count, ib, [])))"

definition Station_start ::
  "IntArrayMsg option \<Rightarrow> nat \<Rightarrow> mem \<Rightarrow> WeatherStationTask \<Rightarrow> message list \<Rightarrow> message list list \<Rightarrow>
     (mem \<times> WeatherStationTask \<times> nat \<times> message list \<times> (cint \<times> message) list) res option" where
  "Station_start blk extent d this ib news =
     bindW (Station_receive this ib) (\<lambda>(this1, ib1).
     bindW (Some (repository_set_name extent d (ws_station_name this1) (ws_taskID this1))) (\<lambda>d'.
     bindW (Station_loop blk news this1 0 ib1) (\<lambda>r. Some (Inr (d', r)))))"

text \<open>The client.\<close>

record WeatherClientTask =
  wc_taskID :: cint
  wc_close_order :: cint
  wc_station_name :: "byte list"

definition WeatherClientTask_create ::
  "WeatherClientTask option \<Rightarrow> os \<Rightarrow> bool \<Rightarrow> mem \<Rightarrow> shm \<Rightarrow> System \<Rightarrow>
     (mem \<times> shm \<times> System \<times> WeatherClientTask) res" where
  "WeatherClientTask_create blk e pthread_ok d s Comm =
     (case blk of None \<Rightarrow> Inl (ExitCall 1)
      | Some newRec \<Rightarrow>
          bindR (register_task e d s Comm) (\<lambda>(d', s', Comm', i).
            if pthread_ok
            then Inr (d', s', Comm', newRec\<lparr>wc_taskID := i, wc_close_order := 0\<rparr>)
            else Inl (ExitCall (-1))))"

definition client_handle_NameMsg :: "WeatherClientTask \<Rightarrow> TextMsg \<Rightarrow> WeatherClientTask res" where
  "client_handle_NameMsg this textMsg =
     bindR (strcpy (wc_station_name this) (TextMsg_getMsg textMsg)) (\<lambda>nm.
       Inr (this\<lparr>wc_station_name := nm\<rparr>))"

text \<open>What is printed: the station and the temperature.\<close>

definition handle_PostWeatherMsg :: "WeatherClientTask \<Rightarrow> IntArrayMsg \<Rightarrow> (cint \<times> cint) res" where
  "handle_PostWeatherMsg this m =
     bindR (IntArrayMsg_getValue m 0) (\<lambda>station.
     bindR (IntArrayMsg_getValue m 1) (\<lambda>degrees. Inr (station, degrees)))"

definition WeatherClient_receive ::
  "WeatherClientTask \<Rightarrow> message list \<Rightarrow>
     (WeatherClientTask \<times> message list \<times> (cint \<times> cint) list) res option" where
  "WeatherClient_receive this ib =
     (case poll_tag ib of
        None \<Rightarrow> None
      | Some t \<Rightarrow> Some
          (if t = WEATHER_STATION_NAME_MSG then
             bindR (in_receive ib) (\<lambda>(msg, ib'). bindR (as_text msg) (\<lambda>m.
             bindR (client_handle_NameMsg this m) (\<lambda>this'. Inr (this', ib', []))))
           else if t = SUB_MSG then Inr (this, ib, [])
           else if t = POST_WEATHER_MSG then
             bindR (in_receive ib) (\<lambda>(msg, ib'). bindR (as_int_array msg) (\<lambda>m.
             bindR (handle_PostWeatherMsg this m) (\<lambda>out. Inr (this, ib', [out]))))
           else Inr (this, in_dropMsg ib, [])))"

text \<open>\<open>start\<close> up to the subscription: the message sent and its destination.\<close>

definition WeatherClient_subscribe ::
  "BarMsg option \<Rightarrow> nat \<Rightarrow> mem \<Rightarrow> WeatherClientTask \<Rightarrow> message list \<Rightarrow>
     (WeatherClientTask \<times> message list \<times> cint \<times> message) res option" where
  "WeatherClient_subscribe blk extent d this ib =
     bindW (WeatherClient_receive this ib) (\<lambda>(this', ib', _).
     bindW (Some (repository_get_id extent d (wc_station_name this'))) (\<lambda>station_id.
       Some (bindR (BarMsg_create blk SUB_MSG) (\<lambda>m.
         Inr (this', ib', station_id, MBar (BarMsg_setValue m (wc_taskID this')))))))"

text \<open>\<open>n\<close> rounds of the loop that receives the broadcasts.\<close>

fun WeatherClient_loop ::
  "nat \<Rightarrow> WeatherClientTask \<Rightarrow> message list \<Rightarrow>
     (WeatherClientTask \<times> message list \<times> (cint \<times> cint) list) res option" where
  "WeatherClient_loop 0 this ib = Some (Inr (this, ib, []))"
| "WeatherClient_loop (Suc n) this ib =
     bindW (WeatherClient_receive this ib) (\<lambda>(this1, ib1, out1).
     bindW (WeatherClient_loop n this1 ib1) (\<lambda>(this2, ib2, out2). Some (Inr (this2, ib2, out1 @ out2))))"

section \<open>The station\<close>

text \<open>The subscribers, and the invariant of the station.\<close>

definition subscribers :: "WeatherStationTask \<Rightarrow> cint list" where
  "subscribers t = take (unat (sub_count t)) (subs t)"

definition station_inv :: "WeatherStationTask \<Rightarrow> bool" where
  "station_inv t \<longleftrightarrow> length (subs t) = 50 \<and> unat (sub_count t) \<le> 50 \<and> close_order t = 0"

lemma station_count:
  assumes "station_inv t"
  shows "sint (sub_count t) < 50 \<longleftrightarrow> unat (sub_count t) < 50" "0 \<le> sint (sub_count t)"
    "sint (sub_count t) \<le> 50" "nat (sint (sub_count t)) = unat (sub_count t)"
proof -
  have n: "unat (sub_count t) \<le> 50"
    using assms by (simp add: station_inv_def)
  then have "sint (sub_count t) = int (unat (sub_count t))"
    by (intro sint_small) simp
  with n show "sint (sub_count t) < 50 \<longleftrightarrow> unat (sub_count t) < 50" "0 \<le> sint (sub_count t)"
    "sint (sub_count t) \<le> 50" "nat (sint (sub_count t)) = unat (sub_count t)"
    by linarith+
qed

lemma length_subscribers: "station_inv t \<Longrightarrow> length (subscribers t) = unat (sub_count t)"
  by (simp add: station_inv_def subscribers_def)

lemma handle_SubMsg_ok:
  assumes "station_inv t"
  shows "\<exists>t'. handle_SubMsg t m = Inr t' \<and> station_inv t' \<and>
     subscribers t' = take 50 (subscribers t @ [bar_value m]) \<and>
     ws_taskID t' = ws_taskID t \<and> ws_station_name t' = ws_station_name t"
proof (cases "unat (sub_count t) < 50")
  case True
  let ?n = "unat (sub_count t)"
  have n: "unat (sub_count t + 1) = Suc ?n"
    using True unat_plus_small [of "sub_count t" 1] by simp
  have len: "length (subs t) = 50" "close_order t = 0"
    using assms by (simp_all add: station_inv_def)
  have "take (Suc ?n) ((subs t)[?n := bar_value m]) = subscribers t @ [bar_value m]"
    using True len by (simp add: subscribers_def take_Suc_conv_app_nth)
  with True n len station_count [OF assms] show ?thesis
    by (simp add: handle_SubMsg_def Let_def BarMsg_getValue_def station_inv_def subscribers_def)
next
  case False
  with assms have "unat (sub_count t) = 50" by (simp add: station_inv_def)
  with assms station_count [OF assms] length_subscribers [OF assms] show ?thesis
    by (simp add: handle_SubMsg_def Let_def)
qed

lemma receive_sub:
  assumes "tag m = SUB_MSG"
  shows "Station_receive t (MBar m # ib) = Some (bindR (handle_SubMsg t m) (\<lambda>t'. Inr (t', ib)))"
  using assms
  by (simp add: Station_receive_def poll_tag_def in_getMsgTag_def in_receive_def as_bar_def weather_tags
      Message.truncate_def)

definition weather_msg :: "IntArrayMsg \<Rightarrow> cint \<Rightarrow> IntArrayMsg" where
  "weather_msg blk i =
     blk\<lparr>tag := POST_WEATHER_MSG, tid := class_id IntArrayC, msg_size := of_nat (sizeof IntArrayMsg_struct) + 8,
         methods := Some IntArrayC, ia_size := 2, ia_values := [i, 31]\<rparr>"

lemma broadcast_ok:
  assumes "station_inv t"
  shows "Station_broadcast (Some blk) t =
     Inr (map (\<lambda>i. (i, MIntArray (weather_msg blk (ws_taskID t)))) (subscribers t))"
  using assms station_count [OF assms]
  by (simp add: Station_broadcast_def IntArrayMsg_create_def IntArrayMsg_setValues_def copy_elems_def
      station_inv_def weather_msg_def subscribers_def)

text \<open>A round in which one subscription is there, and one in which there is no message.\<close>

lemma round_sub:
  assumes "station_inv t" "tag m = SUB_MSG" "Suc lc < 10000000"
  shows "\<exists>t'. Station_round blk t lc (MBar m # ib) = Some (Inr (t', Suc lc, ib, [])) \<and> station_inv t' \<and>
     subscribers t' = take 50 (subscribers t @ [bar_value m]) \<and> ws_taskID t' = ws_taskID t"
proof -
  obtain t' where "handle_SubMsg t m = Inr t'" "station_inv t'"
    "subscribers t' = take 50 (subscribers t @ [bar_value m])" "ws_taskID t' = ws_taskID t"
    using handle_SubMsg_ok [OF assms(1)] by blast
  with receive_sub [OF assms(2), of t ib] assms(3) show ?thesis
    by (simp add: Station_round_def in_message_immediate_def)
qed

lemma round_idle:
  assumes "station_inv t" "lc < 10000000"
  shows "Station_round (Some blk) t lc [] =
     Some (Inr (t, Suc lc mod 10000000, [], if Suc lc = 10000000
       then map (\<lambda>i. (i, MIntArray (weather_msg blk (ws_taskID t)))) (subscribers t) else []))"
proof -
  have "Suc lc mod 10000000 = 0 \<longleftrightarrow> Suc lc = 10000000"
    using assms(2) by (cases "Suc lc = 10000000") auto
  with assms show ?thesis
    by (auto simp: Station_round_def in_message_immediate_def broadcast_ok)
qed

lemma loop_idle:
  assumes "station_inv t" "lc < 10000000"
  shows "Station_loop (Some blk) (replicate n []) t lc [] =
     Some (Inr (t, (lc + n) mod 10000000, [], concat (replicate ((lc + n) div 10000000)
       (map (\<lambda>i. (i, MIntArray (weather_msg blk (ws_taskID t)))) (subscribers t)))))"
  using assms(2)
proof (induction n arbitrary: lc)
  case (Suc n)
  let ?b = "map (\<lambda>i. (i, MIntArray (weather_msg blk (ws_taskID t)))) (subscribers t)"
  have "close_order t = 0" using assms(1) by (simp add: station_inv_def)
  note step = this round_idle [OF assms(1) Suc.prems, of blk]
  show ?case
  proof (cases "Suc lc = 10000000")
    case True
    then have "lc + Suc n = 10000000 + n" by simp
    then have "(lc + Suc n) mod 10000000 = n mod 10000000" "(lc + Suc n) div 10000000 = Suc (n div 10000000)"
      by simp_all
    with step True Suc.IH [of 0] show ?thesis by simp
  next
    case False
    with Suc.prems have lt: "Suc lc < 10000000" by simp
    with step False Suc.IH [OF lt] show ?thesis by simp
  qed
qed (simp add: div_less)

lemma take_take_append: "take n (take n xs @ ys) = take n (xs @ ys)"
  by (cases "n \<le> length xs") simp_all

lemma loop_subs:
  assumes "station_inv t" "\<forall>m \<in> set ms. tag m = SUB_MSG" "lc + length ms < 10000000"
  shows "\<exists>t'. Station_loop blk (map (\<lambda>m. [MBar m]) ms) t lc [] = Some (Inr (t', lc + length ms, [], [])) \<and>
     station_inv t' \<and> subscribers t' = take 50 (subscribers t @ map bar_value ms) \<and> ws_taskID t' = ws_taskID t"
  using assms
proof (induction ms arbitrary: t lc)
  case Nil
  then show ?case using length_subscribers [of t] by (simp add: station_inv_def)
next
  case (Cons m ms)
  obtain t1 where t1: "Station_round blk t lc [MBar m] = Some (Inr (t1, Suc lc, [], []))" "station_inv t1"
    "subscribers t1 = take 50 (subscribers t @ [bar_value m])" "ws_taskID t1 = ws_taskID t"
    using round_sub [OF Cons.prems(1), of m lc blk "[]"] Cons.prems by auto
  obtain t' where "Station_loop blk (map (\<lambda>m. [MBar m]) ms) t1 (Suc lc) [] = Some (Inr (t', Suc lc + length ms, [], []))"
    "station_inv t'" "subscribers t' = take 50 (subscribers t1 @ map bar_value ms)" "ws_taskID t' = ws_taskID t1"
    using Cons.IH [OF t1(2), of "Suc lc"] Cons.prems by auto
  moreover have "take 50 (take 50 (subscribers t @ [bar_value m]) @ map bar_value ms) =
      take 50 (subscribers t @ map bar_value (m # ms))"
    by (simp only: take_take_append) simp
  moreover have "close_order t = 0" using Cons.prems(1) by (simp add: station_inv_def)
  ultimately show ?case using t1 by simp
qed

lemma loop_append:
  assumes "Station_loop blk xs t lc ib = Some (Inr (t1, lc1, ib1, outs1))"
    "Station_loop blk ys t1 lc1 ib1 = Some (Inr (t2, lc2, ib2, outs2))" "close_order t1 = 0"
  shows "Station_loop blk (xs @ ys) t lc ib = Some (Inr (t2, lc2, ib2, outs1 @ outs2))"
  using assms
proof (induction xs arbitrary: t lc ib outs1)
  case (Cons new news)
  show ?case
  proof (cases "close_order t = 0")
    case True
    with Cons.prems(1) obtain u lcu ibu o1 o2 where
      "Station_round blk t lc (ib @ new) = Some (Inr (u, lcu, ibu, o1))"
      "Station_loop blk news u lcu ibu = Some (Inr (t1, lc1, ib1, o2))" "outs1 = o1 @ o2"
      by (auto simp: bindW_eq_Inr)
    with Cons.IH [OF _ Cons.prems(2,3)] True show ?thesis by simp
  next
    case False
    with Cons.prems show ?thesis by simp
  qed
qed simp

lemma receive_close_order:
  "Station_receive t ib = Some (Inr (t', ib')) \<Longrightarrow> close_order t' = close_order t"
  by (auto simp: Station_receive_def station_handle_NameMsg_def handle_SubMsg_def Let_def bindR_eq_Inr
      split: option.splits if_splits prod.splits)

lemma round_close_order:
  assumes "Station_round blk t lc ib = Some (Inr (t', lc', ib', outs))"
  shows "close_order t' = close_order t"
proof -
  obtain u ibu where r: "(if in_message_immediate ib = 0 then Station_receive t ib else Some (Inr (t, ib))) =
      Some (Inr (u, ibu))" and f: "(if (lc + 1) mod 10000000 = 0
        then Some (bindR (Station_broadcast blk u) (\<lambda>outs. Inr (u, 0, ibu, outs)))
        else Some (Inr (u, lc + 1, ibu, []))) = Some (Inr (t', lc', ib', outs))"
    using assms unfolding Station_round_def bindW_eq_Inr split_paired_Ex prod.case by blast
  have u: "u = t'"
    using f by (cases "(lc + 1) mod 10000000 = 0") (auto simp: bindR_eq_Inr)
  show ?thesis
    using receive_close_order [of t ib u ibu] r u by (cases "in_message_immediate ib = 0") simp_all
qed

section \<open>Names\<close>

lemma receive_name:
  assumes "tag m = WEATHER_STATION_NAME_MSG"
  shows "Station_receive t (MText m # ib) = Some (bindR (station_handle_NameMsg t m) (\<lambda>t'. Inr (t', ib)))"
    "WeatherClient_receive c (MText m # ib) = Some (bindR (client_handle_NameMsg c m) (\<lambda>c'. Inr (c', ib, [])))"
  using assms
  by (simp_all add: Station_receive_def WeatherClient_receive_def poll_tag_def in_getMsgTag_def in_receive_def
      as_text_def weather_tags Message.truncate_def)

lemma strcpy_name:
  assumes "length dst = 30" "0 \<in> set src" "length (cstr src) < 30"
  shows "\<exists>nm. strcpy dst src = Inr nm \<and> cstr nm = cstr src"
proof -
  have "strcpy dst src = Inr (cstr src @ [0] @ drop (length (cstr src) + 1) dst)"
    using assms by (simp add: strcpy_def)
  from this strcpy_cstr [OF this] show ?thesis by blast
qed

lemma receive_weather:
  assumes "tag m = POST_WEATHER_MSG" "ia_values m = [i, v]"
  shows "WeatherClient_receive c (MIntArray m # ib) = Some (Inr (c, ib, [(i, v)]))"
  using assms
  by (simp add: WeatherClient_receive_def poll_tag_def in_getMsgTag_def in_receive_def as_int_array_def
      weather_tags handle_PostWeatherMsg_def IntArrayMsg_getValue_def array_get_def Message.truncate_def)

lemma weather_msg_ok:
  "wf_msg (MIntArray (weather_msg blk i))" "tag (weather_msg blk i) = POST_WEATHER_MSG"
  "ia_values (weather_msg blk i) = [i, 31]"
  by (simp_all add: weather_msg_def wf_header_def wf_array_def)

text \<open>The repository only looks at the C string of a name.\<close>

lemma get_id_cstr: "cstr nm = cstr nm' \<Longrightarrow> repository_get_id extent d nm = repository_get_id extent d nm'"
proof -
  assume eq: "cstr nm = cstr nm'"
  have "get_id_loop extent d nm i n = get_id_loop extent d nm' i n" for i n
    by (induction n arbitrary: i) (simp_all add: eq)
  then show ?thesis by (simp add: repository_get_id_def)
qed

section \<open>Properties\<close>

definition sample_station :: WeatherStationTask where
  "sample_station = \<lparr>ws_taskID = 1, close_order = 0, ws_station_name = replicate 30 0, sub_count = 0,
     subs = replicate 50 0\<rparr>"

definition sample_sub :: "cint \<Rightarrow> BarMsg" where
  "sample_sub i = \<lparr>tag = SUB_MSG, tid = 1, msg_size = 72, methods = Some BarC, bar_value = i\<rparr>"

definition sample_weather :: IntArrayMsg where
  "sample_weather = \<lparr>tag = 0, tid = 0, msg_size = 0, methods = None, ia_size = 0, ia_values = []\<rparr>"

definition sample_name :: "byte list \<Rightarrow> TextMsg" where
  "sample_name bs = \<lparr>tag = 0, tid = 2, msg_size = 160, methods = Some TextC,
     text_msg = bs @ 0 # replicate (99 - length bs) 0\<rparr>"

lemma sample_station_inv: "station_inv sample_station" "subscribers sample_station = []"
  by (simp_all add: station_inv_def subscribers_def sample_station_def)

text \<open>
  C24. Subscriptions: a station without subscribers that gets one subscription per round keeps the
  first 50 of them, in the order of their arrival, and ignores the others; no access is out of
  bounds.
\<close>

theorem weather_subscribers:
  assumes "station_inv t" "subscribers t = []" "\<forall>m \<in> set ms. tag m = SUB_MSG" "length ms < 10000000"
  shows "\<exists>t'. Station_loop blk (map (\<lambda>m. [MBar m]) ms) t 0 [] = Some (Inr (t', length ms, [], [])) \<and>
     station_inv t' \<and> subscribers t' = take 50 (map bar_value ms)"
  using loop_subs [OF assms(1,3), of 0 blk] assms(2,4) by auto

theorem weather_subscribers_witness:
  "\<exists>t'. Station_loop None (map (\<lambda>m. [MBar m]) (map sample_sub [7, 8])) sample_station 0 [] =
       Some (Inr (t', 2, [], [])) \<and> subscribers t' = [7, 8]"
  using weather_subscribers [OF sample_station_inv, of "map sample_sub [7, 8]" None]
  by (auto simp: sample_sub_def numeral_2_eq_2 simp del: Station_loop.simps)

text \<open>
  Broadcasts: in \<open>n\<close> rounds without messages the station sends \<open>n div 10000000\<close> times, to each of
  its subscribers in turn, a well-formed message with its identifier and the temperature.
\<close>

theorem weather_broadcasts:
  assumes "station_inv t"
  shows "\<exists>m. wf_msg (MIntArray m) \<and> tag m = POST_WEATHER_MSG \<and> ia_values m = [ws_taskID t, 31] \<and>
     Station_loop (Some blk) (replicate n []) t 0 [] =
       Some (Inr (t, n mod 10000000, [],
         concat (replicate (n div 10000000) (map (\<lambda>i. (i, MIntArray m)) (subscribers t)))))"
  using loop_idle [OF assms, of 0 blk n] weather_msg_ok [of blk "ws_taskID t"] by (intro exI) auto

theorem weather_broadcasts_witness:
  "\<exists>m. ia_values m = [1, 31] \<and>
     Station_loop (Some sample_weather) (replicate 5 []) sample_station 0 [] =
       Some (Inr (sample_station, 5, [],
         concat (replicate 0 (map (\<lambda>i. (i, MIntArray m)) (subscribers sample_station)))))"
  using weather_broadcasts [OF sample_station_inv(1), of sample_weather 5]
  by (auto simp: sample_station_def simp del: Station_loop.simps replicate.simps)

text \<open>
  The station never stops: no message makes it set \<open>close_order\<close>, so after any number of rounds,
  whatever arrives, the loop goes on, and what follows the loop in \<open>start\<close> is never reached.
\<close>

theorem weather_station_never_ends:
  assumes "close_order t = 0" "Station_loop blk news t lc ib = Some (Inr (t', lc', ib', outs))"
  shows "close_order t' = 0 \<and>
     Station_loop blk (news @ [new]) t lc ib =
       bindW (Station_round blk t' lc' (ib' @ new)) (\<lambda>(t2, lc2, ib2, outs2).
         Some (Inr (t2, lc2, ib2, outs @ outs2)))"
  using assms
proof (induction news arbitrary: t lc ib outs)
  case Nil
  then show ?case by (auto simp: bindW_def split: option.splits sum.splits)
next
  case (Cons new' news)
  from Cons.prems obtain u lcu ibu o1 o2 where
    r: "Station_round blk t lc (ib @ new') = Some (Inr (u, lcu, ibu, o1))"
    "Station_loop blk news u lcu ibu = Some (Inr (t', lc', ib', o2))" "outs = o1 @ o2"
    by (auto simp: bindW_eq_Inr)
  have "close_order u = 0"
    using round_close_order [OF r(1)] Cons.prems(1) by simp
  from Cons.IH [OF this r(2)] r Cons.prems(1) show ?case
    by (auto simp: bindW_def split: option.splits sum.splits)
qed

theorem weather_station_never_ends_witness:
  "Station_loop None ([] @ [[]]) sample_station 0 [] =
     bindW (Station_round None sample_station 0 ([] @ [])) (\<lambda>(t2, lc2, ib2, outs2).
       Some (Inr (t2, lc2, ib2, [] @ outs2)))"
  using weather_station_never_ends [of sample_station None "[]" 0 "[]" sample_station 0 "[]" "[]" "[]"]
  by (simp add: sample_station_def)

text \<open>
  A name of 30 characters or more is a well-formed text message, but the station and the client
  copy it past the end of their \<open>station_name\<close>.
\<close>

theorem weather_name_overflow:
  assumes "tag m = WEATHER_STATION_NAME_MSG" "0 \<in> set (text_msg m)" "30 \<le> length (cstr (text_msg m))"
    "length (ws_station_name t) = 30" "length (wc_station_name c) = 30"
  shows "Station_receive t (MText m # ib) = Some (Inl OutOfBounds) \<and>
     WeatherClient_receive c (MText m # ib) = Some (Inl OutOfBounds)"
  using assms
  by (simp add: receive_name station_handle_NameMsg_def client_handle_NameMsg_def TextMsg_getMsg_def strcpy_def)

definition sample_weather_client :: WeatherClientTask where
  "sample_weather_client = \<lparr>wc_taskID = 2, wc_close_order = 0, wc_station_name = replicate 30 0\<rparr>"

theorem weather_name_overflow_witness:
  "Station_receive sample_station [MText (sample_name (replicate 40 97))] = Some (Inl OutOfBounds)"
  using weather_name_overflow [of "sample_name (replicate 40 97)" sample_station sample_weather_client "[]"]
  by (simp add: sample_name_def sample_station_def sample_weather_client_def weather_tags cstr_append_zero)

text \<open>
  C23. Station and client together: a station and a client that are given the same name of less than
  30 characters find each other.  The station enters its name; the client then gets the station's
  identifier and sends it a subscription; after 10000000 rounds the station, which had no subscribers,
  sends the client one message; and the client prints the station's identifier and the temperature.
\<close>

theorem weather_end_to_end:
  assumes st: "station_inv t" "subscribers t = []" "length (ws_station_name t) = 30" "unat (ws_taskID t) < 30"
    and cl: "length (wc_station_name c) = 30"
    and msgs: "tag m = WEATHER_STATION_NAME_MSG" "tag m' = WEATHER_STATION_NAME_MSG"
      "0 \<in> set (text_msg m)" "0 \<in> set (text_msg m')" "cstr (text_msg m') = cstr (text_msg m)" "length (cstr (text_msg m)) < 30"
    and repo: "repo_ok d" "8344 \<le> extent" "\<forall>nm j. cstr nm = cstr (text_msg m) \<longrightarrow> j < unat (ws_taskID t) \<longrightarrow> \<not> named d nm j"
  shows "\<exists>d' t1 c1 sub t2 w.
     Station_start (Some wb) extent d t [MText m] [] = Some (Inr (d', t1, 0, [], [])) \<and>
     WeatherClient_subscribe (Some sb) extent d' c [MText m'] = Some (Inr (c1, [], ws_taskID t, sub)) \<and>
     Station_loop (Some wb) ([sub] # replicate 9999999 []) t1 0 [] = Some (Inr (t2, 0, [], [(wc_taskID c, w)])) \<and>
     WeatherClient_loop 1 c1 [w] = Some (Inr (c1, [], [(ws_taskID t, 31)]))"
proof -
  obtain nm where nm: "strcpy (ws_station_name t) (text_msg m) = Inr nm" "cstr nm = cstr (text_msg m)"
    using strcpy_name [OF st(3) msgs(3,6)] by blast
  obtain nm' where nm': "strcpy (wc_station_name c) (text_msg m') = Inr nm'" "cstr nm' = cstr (text_msg m')"
    using strcpy_name [OF cl msgs(4)] msgs(5,6) by auto
  define t1 where "t1 = t\<lparr>ws_station_name := nm\<rparr>"
  define c1 where "c1 = c\<lparr>wc_station_name := nm'\<rparr>"
  define d' where "d' = set_name_mem d nm (unat (ws_taskID t))"
  have 1: "Station_start (Some wb) extent d t [MText m] [] = Some (Inr (d', t1, 0, [], []))"
    using nm(1) set_name_eq [OF st(4) repo(2), of d nm]
    by (simp add: Station_start_def receive_name [OF msgs(1)] station_handle_NameMsg_def TextMsg_getMsg_def t1_def d'_def)
  have "repository_get_id extent d' nm' = Inr (ws_taskID t)"
    unfolding d'_def using set_name_lookup [OF repo(1,2) st(4), of nm] get_id_cstr [of nm' nm] nm(2) nm'(2) msgs(5,6) repo(3)
    by simp
  then obtain s where 2: "WeatherClient_subscribe (Some sb) extent d' c [MText m'] =
      Some (Inr (c1, [], ws_taskID t, MBar s))" "tag s = SUB_MSG" "bar_value s = wc_taskID c"
    using nm'(1) by (simp add: WeatherClient_subscribe_def receive_name [OF msgs(2)] client_handle_NameMsg_def
        TextMsg_getMsg_def c1_def BarMsg_create_def BarMsg_setValue_def)
  have t1: "station_inv t1" "subscribers t1 = []" "ws_taskID t1 = ws_taskID t"
    using st by (simp_all add: t1_def station_inv_def subscribers_def)
  obtain t2 where t2: "Station_round (Some wb) t1 0 [MBar s] = Some (Inr (t2, Suc 0, [], []))" "station_inv t2"
    "subscribers t2 = [wc_taskID c]" "ws_taskID t2 = ws_taskID t"
    using round_sub [OF t1(1) 2(2), of 0 "Some wb" "[]"] t1 2(3) by auto
  let ?w = "weather_msg wb (ws_taskID t)"
  have "Station_loop (Some wb) (replicate 9999999 []) t2 1 [] = Some (Inr (t2, 0, [], [(wc_taskID c, MIntArray ?w)]))"
    using loop_idle [OF t2(2), of 1 wb 9999999] t2(3,4) by (simp del: Station_loop.simps)
  then have 3: "Station_loop (Some wb) ([MBar s] # replicate 9999999 []) t1 0 [] =
      Some (Inr (t2, 0, [], [(wc_taskID c, MIntArray ?w)]))"
    using t1(1) t2(1) by (simp add: station_inv_def del: replicate.simps)
  have 4: "WeatherClient_loop 1 c1 [MIntArray ?w] = Some (Inr (c1, [], [(ws_taskID t, 31)]))"
    using receive_weather [OF weather_msg_ok(2,3), of c1 wb "ws_taskID t" "[]"] by simp
  from 1 2(1) 3 4 show ?thesis by blast
qed

theorem weather_end_to_end_witness:
  "\<exists>d' t1 c1 sub t2 w.
     Station_start (Some sample_weather) 8344 (\<lambda>_. 0) sample_station [MText (sample_name (bytes_of ''Oslo''))] [] =
       Some (Inr (d', t1, 0, [], [])) \<and>
     WeatherClient_subscribe (Some (sample_sub 0)) 8344 d' sample_weather_client
       [MText (sample_name (bytes_of ''Oslo''))] = Some (Inr (c1, [], 1, sub)) \<and>
     Station_loop (Some sample_weather) ([sub] # replicate 9999999 []) t1 0 [] = Some (Inr (t2, 0, [], [(2, w)])) \<and>
     WeatherClient_loop 1 c1 [w] = Some (Inr (c1, [], [(1, 31)]))"
proof -
  have ids: "ws_taskID sample_station = 1" "wc_taskID sample_weather_client = 2"
    by (simp_all add: sample_station_def sample_weather_client_def)
  have nz: "0 \<notin> set (bytes_of ''Oslo'')"
    by (simp add: bytes_of_def)
  have c: "cstr (text_msg (sample_name (bytes_of ''Oslo''))) = bytes_of ''Oslo''"
    unfolding sample_name_def by (simp add: cstr_append_zero [OF nz])
  show ?thesis
    unfolding ids [symmetric]
  proof (rule weather_end_to_end [OF sample_station_inv])
    show "length (cstr (text_msg (sample_name (bytes_of ''Oslo'')))) < 30"
      unfolding c by (simp add: bytes_of_def)
  qed (simp_all add: sample_station_def sample_weather_client_def sample_name_def weather_tags
      repo_ok_def named_def load32_zeros)
qed

end
