(* ===== verification/LinkedList.thy ===== *)
theory LinkedList
  imports Prelude
begin

text \<open>
  The linked list with a header node that the benchmark programs fill
  (\<open>nano_benchmarking/common/list.c\<close>, also in \<open>exploration/clist\<close>).  The heap maps the addresses of
  allocated nodes to nodes; reading or freeing any other address is a fault.  The loops that follow
  the links need not end, so they are partial functions: \<open>None\<close> means that the loop goes on forever.
\<close>

section \<open>Definitions\<close>

type_synonym addr = nat

record Node =
  Element :: cint
  Next :: "addr option"

type_synonym node_heap = "addr \<Rightarrow> Node option"

definition node_at :: "node_heap \<Rightarrow> addr option \<Rightarrow> Node res" where
  "node_at h p =
     (case p of None \<Rightarrow> Inl NullDeref
      | Some a \<Rightarrow> (case h a of None \<Rightarrow> Inl OutOfBounds | Some nd \<Rightarrow> Inr nd))"

definition free_node :: "node_heap \<Rightarrow> addr \<Rightarrow> node_heap res" where
  "free_node h a = (case h a of None \<Rightarrow> Inl OutOfBounds | Some _ \<Rightarrow> Inr (h(a := None)))"

definition List_IsEmpty :: "node_heap \<Rightarrow> addr option \<Rightarrow> bool res" where
  "List_IsEmpty h L = bindR (node_at h L) (\<lambda>nd. Inr (Next nd = None))"

definition IsLast :: "node_heap \<Rightarrow> addr option \<Rightarrow> bool res" where
  "IsLast h P = bindR (node_at h P) (\<lambda>nd. Inr (Next nd = None))"

partial_function (option) find_loop :: "cint \<Rightarrow> node_heap \<Rightarrow> addr option \<Rightarrow> addr option res option" where
  "find_loop X h P =
     (case P of
        None \<Rightarrow> Some (Inr None)
      | Some a \<Rightarrow>
          (case h a of
             None \<Rightarrow> Some (Inl OutOfBounds)
           | Some nd \<Rightarrow> if Element nd \<noteq> X then find_loop X h (Next nd) else Some (Inr (Some a))))"

definition Find :: "cint \<Rightarrow> node_heap \<Rightarrow> addr option \<Rightarrow> addr option res option" where
  "Find X h L =
     (case node_at h L of Inl e \<Rightarrow> Some (Inl e) | Inr nd \<Rightarrow> find_loop X h (Next nd))"

text \<open>\<open>FindPrevious\<close>: the loop with \<open>P\<close> at a node.\<close>

partial_function (option) FindPrevious :: "cint \<Rightarrow> node_heap \<Rightarrow> addr option \<Rightarrow> addr res option" where
  "FindPrevious X h P =
     (case P of
        None \<Rightarrow> Some (Inl NullDeref)
      | Some a \<Rightarrow>
          (case h a of
             None \<Rightarrow> Some (Inl OutOfBounds)
           | Some nd \<Rightarrow>
               (case Next nd of
                  None \<Rightarrow> Some (Inr a)
                | Some b \<Rightarrow>
                    (case h b of
                       None \<Rightarrow> Some (Inl OutOfBounds)
                     | Some nd' \<Rightarrow>
                         if Element nd' \<noteq> X then FindPrevious X h (Some b) else Some (Inr a)))))"

definition List_Delete :: "cint \<Rightarrow> node_heap \<Rightarrow> addr option \<Rightarrow> node_heap res option" where
  "List_Delete X h L =
     (case FindPrevious X h L of
        None \<Rightarrow> None
      | Some (Inl e) \<Rightarrow> Some (Inl e)
      | Some (Inr P) \<Rightarrow> Some
          (bindR (IsLast h (Some P)) (\<lambda>last.
             if last then Inr h
             else
               bindR (node_at h (Some P)) (\<lambda>nd.
               bindR (node_at h (Next nd)) (\<lambda>TmpCell.
                 free_node (h(P \<mapsto> nd\<lparr>Next := Next TmpCell\<rparr>)) (the (Next nd)))))))"

text \<open>\<open>Insert\<close> after \<open>P\<close>; \<open>blk\<close> is what \<open>malloc\<close> returned.\<close>

definition List_Insert :: "cint \<Rightarrow> node_heap \<Rightarrow> addr option \<Rightarrow> addr option \<Rightarrow> node_heap res" where
  "List_Insert X h P blk =
     (case blk of None \<Rightarrow> Inl (ExitCall 1)
      | Some TmpCell \<Rightarrow>
          bindR (node_at h P) (\<lambda>nd.
            Inr (h(TmpCell \<mapsto> \<lparr>Element = X, Next = Next nd\<rparr>, the P \<mapsto> nd\<lparr>Next := Some TmpCell\<rparr>))))"

partial_function (option) delete_loop :: "node_heap \<Rightarrow> addr option \<Rightarrow> node_heap res option" where
  "delete_loop h P =
     (case P of
        None \<Rightarrow> Some (Inr h)
      | Some a \<Rightarrow>
          (case h a of
             None \<Rightarrow> Some (Inl OutOfBounds)
           | Some nd \<Rightarrow> delete_loop (h(a := None)) (Next nd)))"

definition DeleteList :: "node_heap \<Rightarrow> addr option \<Rightarrow> node_heap res option" where
  "DeleteList h L =
     (case node_at h L of
        Inl e \<Rightarrow> Some (Inl e)
      | Inr nd \<Rightarrow> delete_loop (h(the L \<mapsto> nd\<lparr>Next := None\<rparr>)) (Next nd))"

text \<open>\<open>MakeEmpty\<close>; \<open>junk\<close> is what the new block holds.\<close>

definition MakeEmpty ::
  "Node \<Rightarrow> node_heap \<Rightarrow> addr option \<Rightarrow> addr option \<Rightarrow> (node_heap \<times> addr) res option" where
  "MakeEmpty junk h L blk =
     (let make = (\<lambda>h. case blk of None \<Rightarrow> Inl (ExitCall 1)
                      | Some a \<Rightarrow> Inr (h(a \<mapsto> junk\<lparr>Next := None\<rparr>), a)) in
      if L \<noteq> None
      then (case DeleteList h L of
              None \<Rightarrow> None | Some (Inl e) \<Rightarrow> Some (Inl e) | Some (Inr h') \<Rightarrow> Some (make h'))
      else Some (make h))"

definition Header :: "addr option \<Rightarrow> addr option" where
  "Header L = L"

definition First :: "node_heap \<Rightarrow> addr option \<Rightarrow> addr option res" where
  "First h L = bindR (node_at h L) (\<lambda>nd. Inr (Next nd))"

definition Advance :: "node_heap \<Rightarrow> addr option \<Rightarrow> addr option res" where
  "Advance h P = bindR (node_at h P) (\<lambda>nd. Inr (Next nd))"

definition Retrieve :: "node_heap \<Rightarrow> addr option \<Rightarrow> cint res" where
  "Retrieve h P = bindR (node_at h P) (\<lambda>nd. Inr (Element nd))"

text \<open>The two calls with which every benchmark program appends: \<open>Insert(X, list, pos); pos = Advance(pos)\<close>.\<close>

definition insert_advance :: "cint \<Rightarrow> node_heap \<Rightarrow> addr option \<Rightarrow> addr option \<Rightarrow> (node_heap \<times> addr option) res" where
  "insert_advance X h pos blk =
     bindR (List_Insert X h pos blk) (\<lambda>h'. bindR (Advance h' pos) (\<lambda>pos'. Inr (h', pos')))"

section \<open>Lists in the heap\<close>

text \<open>Following the links from \<open>p\<close>, the nodes \<open>ns\<close> (addresses and elements) lead to \<open>q\<close>.\<close>

fun seg :: "node_heap \<Rightarrow> addr option \<Rightarrow> (addr \<times> cint) list \<Rightarrow> addr option \<Rightarrow> bool" where
  "seg h p [] q \<longleftrightarrow> p = q"
| "seg h p (n # ns) q \<longleftrightarrow>
     p = Some (fst n) \<and> (\<exists>nx. h (fst n) = Some \<lparr>Element = snd n, Next = nx\<rparr> \<and> seg h nx ns q)"

text \<open>A list with header \<open>L\<close> whose nodes are \<open>ns\<close>.\<close>

definition is_list :: "node_heap \<Rightarrow> addr \<Rightarrow> (addr \<times> cint) list \<Rightarrow> bool" where
  "is_list h L ns \<longleftrightarrow> (\<exists>e. seg h (Some L) ((L, e) # ns) None) \<and> distinct (L # map fst ns)"

lemma seg_append: "seg h p (ns @ ms) q \<longleftrightarrow> (\<exists>r. seg h p ns r \<and> seg h r ms q)"
  by (induction ns arbitrary: p) auto

lemma seg_upd [simp]: "a \<notin> fst ` set ns \<Longrightarrow> seg (h(a := v)) p ns q = seg h p ns q"
  by (induction ns arbitrary: p) auto

lemma seg_restrict:
  "seg h p ns q \<Longrightarrow> (\<And>a. a \<in> fst ` set ns \<Longrightarrow> h' a = h a) \<Longrightarrow> seg h' p ns q"
  by (induction ns arbitrary: p) auto

text \<open>Changing the link of the last node of a segment redirects the segment.\<close>

lemma seg_redirect:
  assumes "seg h p (ns @ [(a, x)]) q" "a \<notin> fst ` set ns"
  shows "seg (h(a \<mapsto> \<lparr>Element = x, Next = r\<rparr>)) p (ns @ [(a, x)]) r"
  using assms by (induction ns arbitrary: p) auto

lemma is_list_split:
  "is_list h L ns \<Longrightarrow> \<exists>e nx. h L = Some \<lparr>Element = e, Next = nx\<rparr> \<and> seg h nx ns None"
  by (auto simp: is_list_def)

section \<open>Correctness\<close>

lemma find_loop_seg:
  "seg h p ns None \<Longrightarrow>
   find_loop X h p = Some (Inr (map_option fst (List.find (\<lambda>n. snd n = X) ns)))"
  by (induction ns arbitrary: p) (subst find_loop.simps, auto)+

lemma Find_is_list:
  "is_list h L ns \<Longrightarrow>
   Find X h (Some L) = Some (Inr (map_option fst (List.find (\<lambda>n. snd n = X) ns)))"
  using find_loop_seg by (fastforce simp: Find_def node_at_def dest: is_list_split)

lemma FindPrevious_seg:
  "seg h (Some a) ((a, e) # ns) None \<Longrightarrow>
   FindPrevious X h (Some a) = Some (Inr (fst (last ((a, e) # takeWhile (\<lambda>n. snd n \<noteq> X) ns))))"
proof (induction ns arbitrary: a e)
  case Nil
  then show ?case by (subst FindPrevious.simps) auto
next
  case (Cons n ns)
  then have "seg h (Some (fst n)) ((fst n, snd n) # ns) None" by auto
  from Cons.IH [OF this] Cons.prems show ?case by (subst FindPrevious.simps) auto
qed

lemma delete_loop_seg:
  "seg h p ns None \<Longrightarrow> distinct (map fst ns) \<Longrightarrow>
   delete_loop h p = Some (Inr (\<lambda>a. if a \<in> fst ` set ns then None else h a))"
proof (induction ns arbitrary: h p)
  case Nil
  then show ?case by (subst delete_loop.simps) simp
next
  case (Cons n ns)
  then obtain nx where nx: "p = Some (fst n)" "h (fst n) = Some \<lparr>Element = snd n, Next = nx\<rparr>"
    "seg h nx ns None" by auto
  have sg: "seg (h(fst n := None)) nx ns None" using nx Cons.prems by (subst seg_upd) auto
  have "delete_loop (h(fst n := None)) nx =
      Some (Inr (\<lambda>a. if a \<in> fst ` set ns then None else (h(fst n := None)) a))"
    by (rule Cons.IH [OF sg]) (use Cons.prems in simp)
  with nx show ?case by (subst delete_loop.simps) (auto simp: fun_eq_iff)
qed

lemma DeleteList_is_list:
  assumes "is_list h L ns"
  shows "\<exists>e. DeleteList h (Some L) =
    Some (Inr (\<lambda>a. if a = L then Some \<lparr>Element = e, Next = None\<rparr>
                  else if a \<in> fst ` set ns then None else h a))"
proof -
  from assms obtain e nx where L: "h L = Some \<lparr>Element = e, Next = nx\<rparr>" "seg h nx ns None"
    by (blast dest: is_list_split)
  have d: "L \<notin> fst ` set ns" "distinct (map fst ns)" using assms by (auto simp: is_list_def)
  have "delete_loop (h(L \<mapsto> \<lparr>Element = e, Next = None\<rparr>)) nx =
      Some (Inr (\<lambda>a. if a \<in> fst ` set ns then None else (h(L \<mapsto> \<lparr>Element = e, Next = None\<rparr>)) a))"
    using L d by (intro delete_loop_seg) simp_all
  with L d show ?thesis
    by (intro exI [of _ e]) (auto simp: DeleteList_def node_at_def fun_eq_iff)
qed

text \<open>The nodes up to the first one with element \<open>X\<close>, and those behind it.\<close>

definition remove_node :: "cint \<Rightarrow> (addr \<times> cint) list \<Rightarrow> (addr \<times> cint) list" where
  "remove_node X ns = takeWhile (\<lambda>n. snd n \<noteq> X) ns @ tl (dropWhile (\<lambda>n. snd n \<noteq> X) ns)"

lemma remove_node_elements: "map snd (remove_node X ns) = remove1 X (map snd ns)"
  by (induction ns) (auto simp: remove_node_def)

lemma remove_node_split: "snd n = X \<Longrightarrow> X \<notin> snd ` set as \<Longrightarrow> remove_node X (as @ n # ms) = as @ ms"
  by (induction as) (auto simp: remove_node_def)

lemma remove_node_absent: "X \<notin> snd ` set ns \<Longrightarrow> remove_node X ns = ns"
  by (induction ns) (auto simp: remove_node_def)

lemma takeWhile_absent: "X \<notin> snd ` set ns \<Longrightarrow> takeWhile (\<lambda>n. snd n \<noteq> X) ns = ns"
  by (induction ns) auto

lemma takeWhile_split:
  "snd n = X \<Longrightarrow> X \<notin> snd ` set as \<Longrightarrow> takeWhile (\<lambda>n. snd n \<noteq> X) (as @ n # ms) = as"
  by (induction as) auto

lemma first_with:
  assumes "X \<in> snd ` set ns"
  obtains as n ms where "ns = as @ n # ms" "snd n = X" "X \<notin> snd ` set as"
proof -
  from assms have "\<exists>n\<in>set ns. snd n = X" by auto
  then obtain as n ms where "ns = as @ n # ms" "snd n = X" "\<forall>m\<in>set as. snd m \<noteq> X"
    by (erule split_list_first_propE)
  then show thesis by (intro that [of as n ms]) auto
qed

text \<open>\<open>Delete\<close> of an absent element changes nothing.\<close>

lemma List_Delete_absent:
  assumes "is_list h L ns" "X \<notin> snd ` set ns"
  shows "List_Delete X h (Some L) = Some (Inr h)"
proof -
  from assms obtain e where sg: "seg h (Some L) ((L, e) # ns) None" by (auto simp: is_list_def)
  obtain bs a x where b: "(L, e) # ns = bs @ [(a, x)]" by (metis prod.exhaust rev_exhaust list.distinct(1))
  have "h a = Some \<lparr>Element = x, Next = None\<rparr>" using sg unfolding b by (auto simp: seg_append)
  moreover have "FindPrevious X h (Some L) = Some (Inr a)"
    using FindPrevious_seg [OF sg, of X] b by (simp only: takeWhile_absent [OF assms(2)]) simp
  ultimately show ?thesis by (simp add: List_Delete_def IsLast_def node_at_def)
qed

text \<open>\<open>Delete\<close> of an element that is there unlinks and frees its first node.\<close>

lemma List_Delete_present:
  assumes l: "is_list h L (as @ n # ms)" and n: "snd n = X" and as: "X \<notin> snd ` set as"
  shows "\<exists>h'. List_Delete X h (Some L) = Some (Inr h') \<and> is_list h' L (as @ ms) \<and> h' (fst n) = None \<and>
    (\<forall>a. a \<notin> insert L (fst ` set (as @ n # ms)) \<longrightarrow> h' a = h a)"
proof -
  from l obtain e where sg: "seg h (Some L) ((L, e) # as @ n # ms) None" by (auto simp: is_list_def)
  obtain bs a x where b: "(L, e) # as = bs @ [(a, x)]" by (metis prod.exhaust rev_exhaust list.distinct(1))
  have d: "distinct (map fst (bs @ (a, x) # n # ms))"
  proof -
    have "bs @ (a, x) # n # ms = (L, e) # as @ n # ms" using arg_cong [OF b, of "\<lambda>z. z @ n # ms"] by simp
    with l show ?thesis by (simp only: is_list_def list.map fst_conv)
  qed
  have "seg h (Some L) (bs @ (a, x) # n # ms) None"
    using sg arg_cong [OF b, of "\<lambda>z. z @ n # ms"] by (simp only: append_Cons append_Nil append_assoc)
  then obtain nx where pre: "seg h (Some L) (bs @ [(a, x)]) (Some (fst n))"
    and ha: "h a = Some \<lparr>Element = x, Next = Some (fst n)\<rparr>"
    and hn: "h (fst n) = Some \<lparr>Element = snd n, Next = nx\<rparr>" and post: "seg h nx ms None"
    by (auto simp: seg_append)
  define h' where "h' = h(a \<mapsto> \<lparr>Element = x, Next = nx\<rparr>, fst n := None)"
  have "FindPrevious X h (Some L) = Some (Inr a)"
    using FindPrevious_seg [OF sg, of X] b by (simp only: takeWhile_split [OF n as]) simp
  then have run: "List_Delete X h (Some L) = Some (Inr h')"
    using ha hn d by (auto simp: List_Delete_def IsLast_def node_at_def free_node_def h'_def)
  have "seg h' (Some L) (bs @ [(a, x)]) nx"
    unfolding h'_def using seg_redirect [OF pre, of nx] d by (subst seg_upd) auto
  moreover have "seg h' nx ms None" unfolding h'_def using post d by (subst seg_upd, simp)+ simp
  ultimately have "seg h' (Some L) (((L, e) # as) @ ms) None" unfolding b seg_append by blast
  moreover have "distinct (L # map fst (as @ ms))" using l by (auto simp: is_list_def)
  ultimately have "is_list h' L (as @ ms)" unfolding is_list_def by auto
  moreover have "a \<in> insert L (fst ` set as)" using arg_cong [OF b, of set] by (auto simp: image_iff) force
  ultimately show ?thesis using run by (auto simp: h'_def)
qed

text \<open>The address of the last node, the header's when there is none.\<close>

abbreviation last_node :: "addr \<Rightarrow> (addr \<times> cint) list \<Rightarrow> addr" where
  "last_node L ns \<equiv> last (L # map fst ns)"

lemma is_list_dom: "is_list h L ns \<Longrightarrow> insert L (fst ` set ns) \<subseteq> dom h"
proof -
  have "seg h p ns q \<Longrightarrow> fst ` set ns \<subseteq> dom h" for p q by (induction ns arbitrary: p) auto
  then show "is_list h L ns \<Longrightarrow> insert L (fst ` set ns) \<subseteq> dom h"
    by (fastforce simp: is_list_def)
qed

lemma List_Insert_is_list:
  assumes l: "is_list h L (ns @ ms)" and new: "b \<notin> dom h"
  shows "\<exists>h'. List_Insert X h (Some (last_node L ns)) (Some b) = Inr h' \<and>
    is_list h' L (ns @ (b, X) # ms) \<and> Advance h' (Some (last_node L ns)) = Inr (Some b) \<and>
    dom h' = insert b (dom h) \<and>
    (\<forall>c. c \<notin> insert b (insert L (fst ` set (ns @ ms))) \<longrightarrow> h' c = h c)"
proof -
  from l obtain e where sg: "seg h (Some L) (((L, e) # ns) @ ms) None" by (auto simp: is_list_def)
  obtain bs a x where b: "(L, e) # ns = bs @ [(a, x)]" by (metis prod.exhaust rev_exhaust list.distinct(1))
  have a: "last_node L ns = a" using arg_cong [OF b, of "\<lambda>z. last (map fst z)"] by simp
  have addrs: "L # map fst ns = map fst bs @ [a]" using arg_cong [OF b, of "map fst"] by simp
  have fresh: "b \<notin> insert L (fst ` set (ns @ ms))" using is_list_dom [OF l] new by blast
  have d: "distinct (map fst bs @ a # b # map fst ms)"
  proof -
    have "distinct ((L # map fst ns) @ b # map fst ms)" using l fresh by (auto simp: is_list_def)
    then show ?thesis unfolding addrs by simp
  qed
  from sg obtain nx where pre: "seg h (Some L) (bs @ [(a, x)]) nx" and post: "seg h nx ms None"
    and ha: "h a = Some \<lparr>Element = x, Next = nx\<rparr>"
    unfolding b by (auto simp: seg_append)
  define h' where "h' = h(b \<mapsto> \<lparr>Element = X, Next = nx\<rparr>, a \<mapsto> \<lparr>Element = x, Next = Some b\<rparr>)"
  have run: "List_Insert X h (Some a) (Some b) = Inr h'"
    using ha by (simp add: List_Insert_def node_at_def h'_def)
  have "seg (h(b \<mapsto> \<lparr>Element = X, Next = nx\<rparr>)) (Some L) (bs @ [(a, x)]) nx"
    using pre d by (subst seg_upd) auto
  then have "seg h' (Some L) (bs @ [(a, x)]) (Some b)"
    unfolding h'_def using d by (intro seg_redirect) auto
  moreover have "seg h' nx ms None" unfolding h'_def using post d by (subst seg_upd, simp)+ simp
  ultimately have "seg h' (Some L) (((L, e) # ns) @ (b, X) # ms) None"
    unfolding b seg_append using d by (auto simp: h'_def)
  moreover have "distinct (L # map fst (ns @ (b, X) # ms))" using l fresh by (auto simp: is_list_def)
  ultimately have "is_list h' L (ns @ (b, X) # ms)" unfolding is_list_def by auto
  moreover have "Advance h' (Some a) = Inr (Some b)" by (simp add: Advance_def node_at_def h'_def)
  moreover have "a \<in> insert L (fst ` set ns)" using arg_cong [OF addrs, of set] by auto
  moreover have "dom h' = insert b (dom h)" using ha by (auto simp: h'_def)
  ultimately show ?thesis unfolding a using run by (auto simp: h'_def)
qed

lemma MakeEmpty_NULL:
  "MakeEmpty junk h None (Some a) = Some (Inr (h(a \<mapsto> junk\<lparr>Next := None\<rparr>), a))"
  "MakeEmpty junk h None None = Some (Inl (ExitCall 1))"
  by (simp_all add: MakeEmpty_def)

lemma MakeEmpty_is_list: "is_list (h(a \<mapsto> junk\<lparr>Next := None\<rparr>)) a []"
  by (cases junk) (simp add: is_list_def)

text \<open>The list with header \<open>L\<close> holds \<open>n\<close> times the value \<open>us\<close>, and \<open>pos\<close> is its last node.\<close>

definition built :: "int \<Rightarrow> node_heap \<Rightarrow> addr \<Rightarrow> addr option \<Rightarrow> int \<Rightarrow> bool" where
  "built us h L pos n \<longleftrightarrow>
     (\<exists>ns. is_list h L ns \<and> map snd ns = replicate (nat n) (word_of_int us) \<and> pos = Some (last_node L ns))"

lemma built_init: "built us (h(a \<mapsto> junk\<lparr>Next := None\<rparr>)) a (Some a) 0"
  unfolding built_def using MakeEmpty_is_list by (intro exI [of _ "[]"]) auto

lemma replicate_nat_Suc:
  "0 \<le> n \<Longrightarrow> replicate (nat (n + 1)) x = replicate (nat n) x @ [x]"
  by (simp add: nat_add_distrib replicate_append_same)

lemma insert_advance_built:
  assumes "built us h L pos n" "0 \<le> n" "b \<notin> dom h"
  shows "\<exists>h' pos'. insert_advance (word_of_int us) h pos (Some b) = Inr (h', pos') \<and>
    built us h' L pos' (n + 1) \<and> dom h' = insert b (dom h)"
proof -
  from assms(1) obtain ns where ns: "is_list h L ns" "map snd ns = replicate (nat n) (word_of_int us)"
    "pos = Some (last_node L ns)" by (auto simp: built_def)
  then obtain h' where h': "List_Insert (word_of_int us) h pos (Some b) = Inr h'"
    "is_list h' L (ns @ [(b, word_of_int us)])" "Advance h' pos = Inr (Some b)" "dom h' = insert b (dom h)"
    using List_Insert_is_list [of h L ns "[]" b "word_of_int us"] assms(3) by auto
  have "built us h' L (Some b) (n + 1)"
    unfolding built_def replicate_nat_Suc [OF assms(2)] using h'(2) ns(2)
    by (intro exI [of _ "ns @ [(b, word_of_int us)]"] conjI) (simp_all only: map_append list.map snd_conv, simp)
  with h' show ?thesis by (auto simp: insert_advance_def bindR_def)
qed

lemma insert_advance_oom: "insert_advance X h pos None = Inl (ExitCall 1)"
  by (simp add: insert_advance_def List_Insert_def bindR_def)

text \<open>
  C17. \<open>Delete\<close> on a list always returns, without touching a node that is not of the list.  When no
  node holds the element nothing changes; otherwise the first node that holds it is unlinked and
  freed, and the others keep their order.  On an empty or non-empty list alike, \<open>Find\<close> afterwards
  answers as on the shortened list.
\<close>

theorem Delete_correct:
  assumes "is_list h L ns"
  shows "\<exists>h'. List_Delete X h (Some L) = Some (Inr h') \<and> is_list h' L (remove_node X ns) \<and>
    map snd (remove_node X ns) = remove1 X (map snd ns) \<and>
    (\<forall>a. a \<notin> insert L (fst ` set ns) \<longrightarrow> h' a = h a) \<and>
    (\<forall>a. a \<in> fst ` set ns \<longrightarrow> a \<notin> fst ` set (remove_node X ns) \<longrightarrow> h' a = None) \<and>
    (X \<notin> snd ` set ns \<longrightarrow> h' = h) \<and>
    Find Y h' (Some L) = Some (Inr (map_option fst (List.find (\<lambda>n. snd n = Y) (remove_node X ns))))"
proof (cases "X \<in> snd ` set ns")
  case True
  then obtain as n ms where ns: "ns = as @ n # ms" "snd n = X" "X \<notin> snd ` set as"
    by (rule first_with)
  have rn: "remove_node X ns = as @ ms" using ns by (simp add: remove_node_split)
  from List_Delete_present [of h L as n ms X] assms ns obtain h' where
    h': "List_Delete X h (Some L) = Some (Inr h')" "is_list h' L (as @ ms)" "h' (fst n) = None"
      "\<forall>a. a \<notin> insert L (fst ` set ns) \<longrightarrow> h' a = h a" by auto
  have "\<forall>a. a \<in> fst ` set ns \<longrightarrow> a \<notin> fst ` set (as @ ms) \<longrightarrow> h' a = None"
    using h'(3) ns(1) by (auto simp: image_Un)
  then show ?thesis
    using h' True Find_is_list [OF h'(2), of Y] remove_node_elements [of X ns] unfolding rn by blast
next
  case False
  with assms show ?thesis
    by (simp add: List_Delete_absent remove_node_absent Find_is_list remove1_idem)
qed

theorem Delete_correct_witness:
  "\<exists>h'. List_Delete 7 [1 \<mapsto> \<lparr>Element = 0, Next = Some 2\<rparr>, 2 \<mapsto> \<lparr>Element = 7, Next = Some 3\<rparr>,
       3 \<mapsto> \<lparr>Element = 7, Next = None\<rparr>] (Some 1) = Some (Inr h') \<and>
     is_list h' 1 [(3, 7)] \<and> h' 2 = None \<and> Find 7 h' (Some 1) = Some (Inr (Some 3))"
proof -
  let ?h = "[1 \<mapsto> \<lparr>Element = 0, Next = Some 2\<rparr>, 2 \<mapsto> \<lparr>Element = 7, Next = Some 3\<rparr>,
       3 \<mapsto> \<lparr>Element = 7, Next = None\<rparr>] :: node_heap"
  have "is_list ?h 1 [(2, 7), (3, 7)]" by (auto simp: is_list_def)
  from Delete_correct [OF this, of 7 7] show ?thesis by (auto simp: remove_node_def)
qed

text \<open>
  \<open>MakeEmpty\<close> of an existing list frees every node of the list and gives a fresh empty list, but
  the old header stays allocated: nothing refers to it any more.
\<close>

theorem MakeEmpty_leaks_header:
  assumes "is_list h L ns" "a \<notin> dom h"
  shows "\<exists>h'. MakeEmpty junk h (Some L) (Some a) = Some (Inr (h', a)) \<and> is_list h' a [] \<and>
    dom h' = insert a (dom h - fst ` set ns) \<and> L \<in> dom h'"
proof -
  from DeleteList_is_list [OF assms(1)] obtain e where del: "DeleteList h (Some L) =
      Some (Inr (\<lambda>a. if a = L then Some \<lparr>Element = e, Next = None\<rparr>
                  else if a \<in> fst ` set ns then None else h a))" (is "_ = Some (Inr ?h)") by blast
  have L: "L \<in> dom h" "L \<notin> fst ` set ns" using is_list_dom [OF assms(1)] assms(1) by (auto simp: is_list_def)
  have "c \<in> dom ?h \<longleftrightarrow> c \<in> dom h - fst ` set ns" for c
    using L by (cases "c = L"; cases "c \<in> fst ` set ns") (simp_all add: domIff)
  then have "dom ?h = dom h - fst ` set ns" by blast
  then have "dom (?h(a \<mapsto> junk\<lparr>Next := None\<rparr>)) = insert a (dom h - fst ` set ns)" by simp
  with del L show ?thesis
    by (intro exI [of _ "?h(a \<mapsto> junk\<lparr>Next := None\<rparr>)"]) (auto simp: MakeEmpty_def MakeEmpty_is_list)
qed

end
