(* ===== verification/StepSystem.thy ===== *)
theory StepSystem
  imports Main
begin

text \<open>
  The interface of the systems of interleaved processes (\<open>SharedIpc\<close>, \<open>SharedMemoryTrial\<close>, \<open>Benchmarks\<close>,
  \<open>RequestResponse\<close>, \<open>ServiceRuns\<close>): a step relation, its initial states, an invariant and a measure.  From the three
  laws follow what every such system needs: the invariant holds in every reachable state, no run is
  infinite, and from every reachable state a state without a step is reached.
\<close>

locale step_system =
  fixes step :: "'s \<Rightarrow> 's \<Rightarrow> bool" and init :: "'s \<Rightarrow> bool" and inv :: "'s \<Rightarrow> bool" and steps_left :: "'s \<Rightarrow> nat"
  assumes inv_init: "init s \<Longrightarrow> inv s"
    and inv_step: "step s s' \<Longrightarrow> inv s \<Longrightarrow> inv s'"
    and steps_left_less: "step s s' \<Longrightarrow> inv s \<Longrightarrow> steps_left s' < steps_left s"
begin

lemma inv_reachable: "step\<^sup>*\<^sup>* s s' \<Longrightarrow> init s \<Longrightarrow> inv s'"
  by (induction rule: rtranclp_induct) (auto intro: inv_init inv_step)

lemma no_infinite_run:
  assumes "init s"
  shows "\<nexists>f. f 0 = s \<and> (\<forall>i. step (f i) (f (Suc i)))"
proof
  assume "\<exists>f. f 0 = s \<and> (\<forall>i. step (f i) (f (Suc i)))"
  then obtain f where f: "f 0 = s" "\<And>i. step (f i) (f (Suc i))" by blast
  have "step\<^sup>*\<^sup>* s (f i)" for i
    using f by (induction i) (auto intro: rtranclp.rtrancl_into_rtrancl)
  then have "(f (Suc i), f i) \<in> measure steps_left" for i
    using steps_left_less [OF f(2)] inv_reachable [OF _ assms] by simp
  then show False using wf_iff_no_infinite_down_chain [of "measure steps_left"] by blast
qed

lemma comes_to_rest:
  assumes "init s" "step\<^sup>*\<^sup>* s t"
  shows "\<exists>t'. step\<^sup>*\<^sup>* t t' \<and> (\<nexists>u. step t' u)"
  using assms(2)
proof (induction "steps_left t" arbitrary: t rule: less_induct)
  case less
  show ?case
  proof (cases "\<exists>u. step t u")
    case True
    then obtain u where u: "step t u" by blast
    then have "steps_left u < steps_left t" using steps_left_less inv_reachable [OF less.prems assms(1)] by blast
    with less.hyps [of u] less.prems u show ?thesis
      by (meson converse_rtranclp_into_rtranclp rtranclp.rtrancl_into_rtrancl)
  qed blast
qed

end

end
