(* ===== verification/SharedIpc.thy ===== *)
theory SharedIpc
  imports LinkedList StepSystem "HOL-Library.Signed_Division"
begin

text \<open>
  The shared-memory benchmark (\<open>nano_benchmarking/ipc/shared_ipc/shared_ipc.c\<close>): \<open>thread_count\<close> client
  processes run \<open>send_proc\<close>, one server runs \<open>recv_proc\<close>, and they share a bounded buffer guarded by
  three semaphores.  A process is a program counter that names its next statement and its local
  variables; a step of the system is one statement of one process, in any interleaving.  The history
  fields \<open>sent\<close> and \<open>taken\<close> record what went through the buffer; no statement reads them.  The
  theorems: mutual exclusion and in-bounds accesses, first-in first-out delivery, no deadlock, no
  infinite run, and the list the server has built when the system comes to rest.
\<close>

section \<open>Definitions\<close>

text \<open>\<open>int\<close> arithmetic at 32 bits.\<close>

definition c_int :: "int \<Rightarrow> int" where
  "c_int x = signed_take_bit 31 x"

definition BUFFER_SIZE :: nat where
  "BUFFER_SIZE = 10000"

record prod_cons_shared =
  sem_empty_addr :: nat
  sem_full_addr :: nat
  sem_mutex_addr :: nat
  in_pos :: int
  out_pos :: int
  count :: int
  buffer :: "int list"

datatype send_pc =
    S_wait_empty | S_wait_mutex | S_write | S_in | S_count | S_post_mutex | S_post_full | S_return

record sender =
  s_pc :: send_pc
  s_i :: int

text \<open>One statement of \<open>send_proc\<close>: \<open>None\<close> when it blocks or has returned.\<close>

definition send_proc :: "int \<Rightarrow> prod_cons_shared \<Rightarrow> sender \<Rightarrow> (prod_cons_shared \<times> sender) res option" where
  "send_proc update_count sh p =
     (case s_pc p of
        S_wait_empty \<Rightarrow>
          if s_i p < update_count
          then (if 0 < sem_empty_addr sh
                then Some (Inr (sh\<lparr>sem_empty_addr := sem_empty_addr sh - 1\<rparr>, p\<lparr>s_pc := S_wait_mutex\<rparr>))
                else None)
          else Some (Inr (sh, p\<lparr>s_pc := S_return\<rparr>))
      | S_wait_mutex \<Rightarrow>
          if 0 < sem_mutex_addr sh
          then Some (Inr (sh\<lparr>sem_mutex_addr := sem_mutex_addr sh - 1\<rparr>, p\<lparr>s_pc := S_write\<rparr>))
          else None
      | S_write \<Rightarrow>
          if 0 \<le> in_pos sh \<and> nat (in_pos sh) < length (buffer sh)
          then Some (Inr (sh\<lparr>buffer := (buffer sh)[nat (in_pos sh) := s_i p]\<rparr>, p\<lparr>s_pc := S_in\<rparr>))
          else Some (Inl OutOfBounds)
      | S_in \<Rightarrow>
          Some (Inr (sh\<lparr>in_pos := c_int (in_pos sh + 1) smod int BUFFER_SIZE\<rparr>, p\<lparr>s_pc := S_count\<rparr>))
      | S_count \<Rightarrow> Some (Inr (sh\<lparr>count := c_int (count sh + 1)\<rparr>, p\<lparr>s_pc := S_post_mutex\<rparr>))
      | S_post_mutex \<Rightarrow>
          Some (Inr (sh\<lparr>sem_mutex_addr := sem_mutex_addr sh + 1\<rparr>, p\<lparr>s_pc := S_post_full\<rparr>))
      | S_post_full \<Rightarrow>
          Some (Inr (sh\<lparr>sem_full_addr := sem_full_addr sh + 1\<rparr>,
                     p\<lparr>s_pc := S_wait_empty, s_i := c_int (s_i p + 1)\<rparr>))
      | S_return \<Rightarrow> None)"

datatype recv_pc =
    R_wait_full | R_wait_mutex | R_read | R_out | R_count | R_post_mutex | R_post_empty | R_consume
  | R_rmid | R_return | R_exited

record receiver =
  r_pc :: recv_pc
  r_i :: int
  r_item :: int
  r_heap :: node_heap
  r_list :: addr
  r_pos :: "addr option"
  r_removed :: bool

text \<open>
  One statement of \<open>recv_proc\<close>.  \<open>blk\<close> is what \<open>malloc\<close> returns in \<open>Insert\<close>; the list belongs to the
  server alone, so its two list calls are one step.
\<close>

definition recv_proc ::
  "int \<Rightarrow> int \<Rightarrow> int \<Rightarrow> addr option \<Rightarrow> prod_cons_shared \<Rightarrow> receiver \<Rightarrow>
   (prod_cons_shared \<times> receiver) res option" where
  "recv_proc thread_count update_count update_size blk sh r =
     (case r_pc r of
        R_wait_full \<Rightarrow>
          if r_i r < c_int (update_count * thread_count)
          then (if 0 < sem_full_addr sh
                then Some (Inr (sh\<lparr>sem_full_addr := sem_full_addr sh - 1\<rparr>, r\<lparr>r_pc := R_wait_mutex\<rparr>))
                else None)
          else Some (Inr (sh, r\<lparr>r_pc := R_rmid\<rparr>))
      | R_wait_mutex \<Rightarrow>
          if 0 < sem_mutex_addr sh
          then Some (Inr (sh\<lparr>sem_mutex_addr := sem_mutex_addr sh - 1\<rparr>, r\<lparr>r_pc := R_read\<rparr>))
          else None
      | R_read \<Rightarrow>
          if 0 \<le> out_pos sh \<and> nat (out_pos sh) < length (buffer sh)
          then Some (Inr (sh, r\<lparr>r_pc := R_out, r_item := buffer sh ! nat (out_pos sh)\<rparr>))
          else Some (Inl OutOfBounds)
      | R_out \<Rightarrow>
          Some (Inr (sh\<lparr>out_pos := c_int (out_pos sh + 1) smod int BUFFER_SIZE\<rparr>, r\<lparr>r_pc := R_count\<rparr>))
      | R_count \<Rightarrow> Some (Inr (sh\<lparr>count := c_int (count sh - 1)\<rparr>, r\<lparr>r_pc := R_post_mutex\<rparr>))
      | R_post_mutex \<Rightarrow>
          Some (Inr (sh\<lparr>sem_mutex_addr := sem_mutex_addr sh + 1\<rparr>, r\<lparr>r_pc := R_post_empty\<rparr>))
      | R_post_empty \<Rightarrow>
          Some (Inr (sh\<lparr>sem_empty_addr := sem_empty_addr sh + 1\<rparr>, r\<lparr>r_pc := R_consume\<rparr>))
      | R_consume \<Rightarrow> Some
          (bindR (insert_advance (word_of_int update_size) (r_heap r) (r_pos r) blk) (\<lambda>(h, pos).
             Inr (sh, r\<lparr>r_pc := R_wait_full, r_i := c_int (r_i r + 1), r_heap := h, r_pos := pos\<rparr>)))
      | R_rmid \<Rightarrow> Some (Inr (sh, r\<lparr>r_pc := R_return, r_removed := True\<rparr>))
      | R_return \<Rightarrow> None
      | R_exited \<Rightarrow> None)"

record ipc =
  shared_stuff :: prod_cons_shared
  senders :: "sender list"
  server :: receiver
  sent :: "(nat \<times> int) list"
  taken :: "int list"

text \<open>
  One step of the system.  A client that has filled its slot has its item recorded when it moves \<open>in\<close>
  on, the server's item when it moves \<open>out\<close> on.  When \<open>malloc\<close> fails the server exits.
\<close>

inductive ipc_step :: "int \<Rightarrow> int \<Rightarrow> int \<Rightarrow> ipc \<Rightarrow> ipc \<Rightarrow> bool" for tc uc us where
  send: "k < length (senders s) \<Longrightarrow> p = senders s ! k \<Longrightarrow>
    send_proc uc (shared_stuff s) p = Some (Inr (sh, p')) \<Longrightarrow>
    ipc_step tc uc us s
      (s\<lparr>shared_stuff := sh, senders := (senders s)[k := p'],
         sent := (if s_pc p = S_in then sent s @ [(k, s_i p)] else sent s)\<rparr>)"
| recv: "recv_proc tc uc us blk (shared_stuff s) (server s) = Some (Inr (sh, r)) \<Longrightarrow>
    (\<And>b. blk = Some b \<Longrightarrow> b \<notin> dom (r_heap (server s))) \<Longrightarrow>
    ipc_step tc uc us s
      (s\<lparr>shared_stuff := sh, server := r,
         taken := (if r_pc (server s) = R_out then taken s @ [r_item (server s)] else taken s)\<rparr>)"
| oom: "recv_proc tc uc us None (shared_stuff s) (server s) = Some (Inl (ExitCall e)) \<Longrightarrow>
    ipc_step tc uc us s (s\<lparr>server := (server s)\<lparr>r_pc := R_exited\<rparr>\<rparr>)"

text \<open>
  \<open>main\<close>: the results of the system calls are arguments.  \<open>Inl\<close> is the returned status; otherwise the
  server has the initialised shared memory and goes on with \<open>recv_proc\<close>, a client with \<open>send_proc\<close>.
\<close>

datatype role = Server prod_cons_shared | Client prod_cons_shared

definition init_shared :: "prod_cons_shared \<Rightarrow> prod_cons_shared" where
  "init_shared sh = sh\<lparr>sem_empty_addr := BUFFER_SIZE, sem_full_addr := 0, sem_mutex_addr := 1,
     in_pos := 0, out_pos := 0, count := 0, buffer := replicate BUFFER_SIZE 0\<rparr>"

definition shared_main ::
  "char \<Rightarrow> int \<Rightarrow> 64 word \<Rightarrow> int \<times> int \<times> int \<Rightarrow> prod_cons_shared \<Rightarrow> int + role" where
  "shared_main execution_mode shmid addr sem_init sh =
     (if execution_mode \<noteq> CHR ''s'' \<and> execution_mode \<noteq> CHR ''c'' then Inl (-1)
      else if shmid < 0 then Inl (-1)
      else if (ucast addr :: 32 word) = -1 then Inl (-1)
      else if execution_mode = CHR ''s''
      then (case sem_init of (e1, e2, e3) \<Rightarrow>
              if e1 = -1 then Inl (-1) else if e2 = -1 then Inl (-1) else if e3 = -1 then Inl (-1)
              else Inr (Server (init_shared sh)))
      else Inr (Client sh))"

text \<open>
  The system once the server has initialised the memory and the list and \<open>n\<close> clients have attached.
\<close>

definition init_ipc :: "nat \<Rightarrow> prod_cons_shared \<Rightarrow> node_heap \<Rightarrow> addr \<Rightarrow> Node \<Rightarrow> ipc" where
  "init_ipc n sh h L junk =
     \<lparr>shared_stuff = init_shared sh,
      senders = replicate n \<lparr>s_pc = S_wait_empty, s_i = 0\<rparr>,
      server = \<lparr>r_pc = R_wait_full, r_i = 0, r_item = 0, r_heap = h(L \<mapsto> junk\<lparr>Next := None\<rparr>),
        r_list = L, r_pos = Header (Some L), r_removed = False\<rparr>,
      sent = [], taken = []\<rparr>"

section \<open>The invariant\<close>

definition ind :: "'a set \<Rightarrow> 'a \<Rightarrow> nat" where
  "ind A x = (if x \<in> A then 1 else 0)"

lemma ind_simps [simp]: "x \<in> A \<Longrightarrow> ind A x = 1" "x \<notin> A \<Longrightarrow> ind A x = 0"
  by (simp_all add: ind_def)

lemma ind_le: "ind A x \<le> 1"
  by (simp add: ind_def)

definition cnt :: "send_pc set \<Rightarrow> sender list \<Rightarrow> nat" where
  "cnt A ps = length (filter (\<lambda>p. s_pc p \<in> A) ps)"

lemma cnt_update:
  "k < length ps \<Longrightarrow>
   cnt A (ps[k := p']) + ind A (s_pc (ps ! k)) = cnt A ps + ind A (s_pc p')"
proof (induction ps arbitrary: k)
  case (Cons p ps)
  then show ?case by (cases k) (auto simp: cnt_def ind_def)
qed simp

lemma cnt_pos: "k < length ps \<Longrightarrow> s_pc (ps ! k) \<in> A \<Longrightarrow> 0 < cnt A ps"
  by (auto simp: cnt_def filter_empty_conv)

lemma cnt_two:
  assumes "j < length ps" "k < length ps" "j \<noteq> k" "s_pc (ps ! j) \<in> A" "s_pc (ps ! k) \<in> A"
  shows "2 \<le> cnt A ps"
proof -
  have "{j, k} \<subseteq> {i. i < length ps \<and> s_pc (ps ! i) \<in> A}" using assms by auto
  then have "card {j, k} \<le> cnt A ps"
    unfolding cnt_def length_filter_conv_card by (rule card_mono [rotated]) simp
  then show ?thesis using assms(3) by simp
qed

lemma cnt_zero: "cnt A ps = 0 \<longleftrightarrow> (\<forall>k<length ps. s_pc (ps ! k) \<notin> A)"
  by (fastforce simp: cnt_def filter_empty_conv in_set_conv_nth)

lemma c_int_id: "- (2 ^ 31) \<le> x \<Longrightarrow> x < 2 ^ 31 \<Longrightarrow> c_int x = x"
  by (simp add: c_int_def signed_take_bit_int_eq_self)

lemma smod_nonneg: "0 \<le> (a::int) \<Longrightarrow> 0 < b \<Longrightarrow> a smod b = a mod b"
  by (cases "a = 0") (simp_all add: smod_int_alt_def)

lemma next_pos:
  "c_int (int (n mod BUFFER_SIZE) + 1) smod int BUFFER_SIZE = int (Suc n mod BUFFER_SIZE)"
proof -
  have "n mod BUFFER_SIZE < BUFFER_SIZE" by (simp add: BUFFER_SIZE_def)
  then have "c_int (int (n mod BUFFER_SIZE) + 1) = int (Suc (n mod BUFFER_SIZE))"
    by (subst c_int_id) (simp_all add: BUFFER_SIZE_def)
  then show ?thesis
    by (simp add: smod_nonneg BUFFER_SIZE_def del: of_nat_Suc) (metis mod_Suc_eq of_nat_mod of_nat_numeral)
qed

text \<open>Inside the lock; between taking an empty slot and filling it; between filling it and announcing it.\<close>

abbreviation "in_lock \<equiv> {S_write, S_in, S_count, S_post_mutex}"
abbreviation "claimed \<equiv> {S_wait_mutex, S_write, S_in}"
abbreviation "filled \<equiv> {S_count, S_post_mutex, S_post_full}"
abbreviation "r_in_lock \<equiv> {R_read, R_out, R_count, R_post_mutex}"
abbreviation "r_claimed \<equiv> {R_wait_mutex, R_read, R_out}"
abbreviation "r_emptied \<equiv> {R_count, R_post_mutex, R_post_empty}"

definition sem_inv :: "ipc \<Rightarrow> bool" where
  "sem_inv s \<longleftrightarrow>
     (let sh = shared_stuff s; ps = senders s; pc = r_pc (server s) in
      sem_mutex_addr sh + cnt in_lock ps + ind r_in_lock pc = 1 \<and>
      sem_empty_addr sh + cnt claimed ps + ind r_emptied pc + length (sent s) =
        BUFFER_SIZE + length (taken s) \<and>
      sem_full_addr sh + cnt filled ps + ind r_claimed pc + length (taken s) =
        length (sent s) \<and>
      count sh + int (cnt {S_count} ps) + int (length (taken s)) =
        int (length (sent s)) + int (ind {R_count} pc))"

lemma cnt_mono: "A \<subseteq> B \<Longrightarrow> cnt A ps \<le> cnt B ps"
  by (induction ps) (auto simp: cnt_def)

lemma count_bound:
  assumes "sem_inv s"
  shows "0 \<le> count (shared_stuff s) \<and> count (shared_stuff s) \<le> int BUFFER_SIZE + 1"
  using assms cnt_mono [of "{S_count}" filled "senders s"]
    ind_le [of r_claimed "r_pc (server s)"] ind_le [of "{R_count}" "r_pc (server s)"]
  by (simp add: sem_inv_def Let_def)

lemma count_step:
  assumes "sem_inv s"
  shows "c_int (count (shared_stuff s) + 1) = count (shared_stuff s) + 1"
    "c_int (count (shared_stuff s) - 1) = count (shared_stuff s) - 1"
  using count_bound [OF assms] by (auto intro!: c_int_id simp: BUFFER_SIZE_def)

lemma sem_inv_send:
  assumes inv: "sem_inv s" and k: "k < length (senders s)" "p = senders s ! k"
    and st: "send_proc uc (shared_stuff s) p = Some (Inr (sh, p'))"
  shows "sem_inv (s\<lparr>shared_stuff := sh, senders := (senders s)[k := p'],
         sent := (if s_pc p = S_in then sent s @ [(k, s_i p)] else sent s)\<rparr>)"
proof -
  note c = cnt_update [OF k(1), of _ p', folded k(2)]
  have "s_pc p' = (case s_pc p of S_wait_empty \<Rightarrow> if s_i p < uc then S_wait_mutex else S_return
      | S_wait_mutex \<Rightarrow> S_write | S_write \<Rightarrow> S_in | S_in \<Rightarrow> S_count | S_count \<Rightarrow> S_post_mutex
      | S_post_mutex \<Rightarrow> S_post_full | S_post_full \<Rightarrow> S_wait_empty)"
    using st by (auto simp: send_proc_def split: send_pc.splits if_splits)
  with st inv c [of in_lock] c [of claimed] c [of filled] c [of "{S_count}"] count_step [OF inv]
  show ?thesis
    by (cases "s_pc p") (auto simp: send_proc_def sem_inv_def Let_def split: if_split_asm)
qed

lemma sem_inv_recv:
  assumes inv: "sem_inv s" and st: "recv_proc tc uc us blk (shared_stuff s) (server s) = Some (Inr (sh, r))"
  shows "sem_inv (s\<lparr>shared_stuff := sh, server := r,
         taken := (if r_pc (server s) = R_out then taken s @ [r_item (server s)] else taken s)\<rparr>)"
  using st inv count_step [OF inv]
  by (cases "r_pc (server s)")
     (auto simp: recv_proc_def sem_inv_def Let_def bindR_def split: if_split_asm sum.splits)

text \<open>At most one process is inside the lock.\<close>

lemma lock_exclusive:
  assumes "sem_inv s" "k < length (senders s)" "s_pc (senders s ! k) \<in> in_lock"
  shows "r_pc (server s) \<notin> r_in_lock"
    "\<And>j. j < length (senders s) \<Longrightarrow> j \<noteq> k \<Longrightarrow> s_pc (senders s ! j) \<notin> in_lock"
proof -
  have "0 < cnt in_lock (senders s)" using assms(2,3) by (rule cnt_pos)
  moreover have eq: "sem_mutex_addr (shared_stuff s) + cnt in_lock (senders s) +
      ind r_in_lock (r_pc (server s)) = 1"
    using assms(1) by (simp add: sem_inv_def Let_def)
  ultimately have z: "ind r_in_lock (r_pc (server s)) = 0" and one: "cnt in_lock (senders s) \<le> 1" by arith+
  show "r_pc (server s) \<notin> r_in_lock" using z by (auto simp: ind_def split: if_splits)
  show "s_pc (senders s ! j) \<notin> in_lock" if "j < length (senders s)" "j \<noteq> k" for j
    using cnt_two [of j "senders s" k in_lock] that assms(2,3) one by fastforce
qed

lemma used_le: "sem_inv s \<Longrightarrow> length (taken s) \<le> length (sent s)"
  by (simp add: sem_inv_def Let_def)

lemma used_claimed:
  assumes "sem_inv s" "k < length (senders s)" "s_pc (senders s ! k) \<in> claimed"
  shows "length (sent s) < length (taken s) + BUFFER_SIZE"
  using assms(1) cnt_pos [OF assms(2,3)] by (simp add: sem_inv_def Let_def)

lemma used_pos: "sem_inv s \<Longrightarrow> r_pc (server s) \<in> r_claimed \<Longrightarrow> length (taken s) < length (sent s)"
  by (simp add: sem_inv_def Let_def)

definition buf_inv :: "ipc \<Rightarrow> bool" where
  "buf_inv s \<longleftrightarrow>
     (let sh = shared_stuff s; a = length (sent s); b = length (taken s) in
      length (buffer sh) = BUFFER_SIZE \<and>
      in_pos sh = int (a mod BUFFER_SIZE) \<and> out_pos sh = int (b mod BUFFER_SIZE) \<and>
      taken s = map snd (take b (sent s)) \<and>
      (\<forall>k. b \<le> k \<longrightarrow> k < a \<longrightarrow> buffer sh ! (k mod BUFFER_SIZE) = snd (sent s ! k)) \<and>
      (\<forall>k<length (senders s). s_pc (senders s ! k) = S_in \<longrightarrow>
         buffer sh ! (a mod BUFFER_SIZE) = s_i (senders s ! k)) \<and>
      (r_pc (server s) = R_out \<longrightarrow> r_item (server s) = buffer sh ! (b mod BUFFER_SIZE)))"

lemma mod_distinct:
  fixes k a b n :: nat
  assumes "b \<le> k" "k < a" "a < b + n"
  shows "k mod n \<noteq> a mod n"
proof
  assume "k mod n = a mod n"
  then have "n dvd a - k" using assms(2) mod_eq_dvd_iff_nat [of k a n] by simp
  then show False using assms by (auto dest: dvd_imp_le)
qed

lemma BUFFER_SIZE_pos [simp]: "0 < BUFFER_SIZE" "k mod BUFFER_SIZE < BUFFER_SIZE"
  by (simp_all add: BUFFER_SIZE_def)

text \<open>Statements of a client that touch neither the buffer nor its positions.\<close>

lemma buf_inv_send_other:
  assumes inv: "buf_inv s" and k: "k < length (senders s)" "p = senders s ! k"
    and "buffer sh = buffer (shared_stuff s)" "in_pos sh = in_pos (shared_stuff s)"
    "out_pos sh = out_pos (shared_stuff s)" "s_pc p' \<noteq> S_in"
  shows "buf_inv (s\<lparr>shared_stuff := sh, senders := (senders s)[k := p']\<rparr>)"
  using assms by (auto simp: buf_inv_def Let_def nth_list_update)

lemma buf_inv_send:
  assumes inv: "buf_inv s" and sem: "sem_inv s" and k: "k < length (senders s)" "p = senders s ! k"
    and st: "send_proc uc (shared_stuff s) p = Some (Inr (sh, p'))"
  shows "buf_inv (s\<lparr>shared_stuff := sh, senders := (senders s)[k := p'],
         sent := (if s_pc p = S_in then sent s @ [(k, s_i p)] else sent s)\<rparr>)"
proof -
  consider (wr) "s_pc p = S_write" | (inc) "s_pc p = S_in" | (other) "s_pc p \<noteq> S_write" "s_pc p \<noteq> S_in"
    by blast
  then show ?thesis
  proof cases
    case wr
    then have lock: "s_pc (senders s ! k) \<in> in_lock" "s_pc (senders s ! k) \<in> claimed" using k by simp_all
    have "s_pc (senders s ! j) \<noteq> S_in" if "j < length (senders s)" "j \<noteq> k" for j
      using lock_exclusive(2) [OF sem k(1) lock(1) that] by simp
    moreover have "r_pc (server s) \<noteq> R_out" using lock_exclusive(1) [OF sem k(1) lock(1)] by auto
    moreover have "length (sent s) mod BUFFER_SIZE \<noteq> j mod BUFFER_SIZE"
      if "length (taken s) \<le> j" "j < length (sent s)" for j
      using mod_distinct [OF that, of BUFFER_SIZE] used_claimed [OF sem k(1) lock(2)] by simp
    ultimately show ?thesis
      using st inv k wr by (auto simp: send_proc_def buf_inv_def Let_def nth_list_update split: if_splits)
  next
    case inc
    then have lock: "s_pc (senders s ! k) \<in> in_lock" using k by simp
    have "s_pc (senders s ! j) \<noteq> S_in" if "j < length (senders s)" "j \<noteq> k" for j
      using lock_exclusive(2) [OF sem k(1) lock(1) that] by simp
    then show ?thesis
      using st inv k inc used_le [OF sem]
      by (auto simp: send_proc_def buf_inv_def Let_def nth_list_update next_pos nth_append less_Suc_eq)
  next
    case other
    then have "buf_inv (s\<lparr>shared_stuff := sh, senders := (senders s)[k := p']\<rparr>)"
      using st by (intro buf_inv_send_other [OF inv k]) (auto simp: send_proc_def split: send_pc.splits if_splits)
    then show ?thesis using other by simp
  qed
qed

lemma buf_inv_recv:
  assumes inv: "buf_inv s" and sem: "sem_inv s"
    and st: "recv_proc tc uc us blk (shared_stuff s) (server s) = Some (Inr (sh, r))"
  shows "buf_inv (s\<lparr>shared_stuff := sh, server := r,
         taken := (if r_pc (server s) = R_out then taken s @ [r_item (server s)] else taken s)\<rparr>)"
proof (cases "r_pc (server s) = R_out")
  case True
  have lt: "length (taken s) < length (sent s)" using used_pos [OF sem] True by simp
  then have "take (Suc (length (taken s))) (sent s) = take (length (taken s)) (sent s) @ [sent s ! length (taken s)]"
    by (rule take_Suc_conv_app_nth)
  with st inv True lt show ?thesis
    by (auto simp: recv_proc_def buf_inv_def Let_def next_pos)
next
  case False
  with st inv show ?thesis
    by (cases "r_pc (server s)")
       (auto simp: recv_proc_def buf_inv_def Let_def bindR_def split: if_split_asm sum.splits)
qed

text \<open>What a client has put into the buffer, and where its loop is.\<close>

definition sender_inv :: "int \<Rightarrow> (nat \<times> int) list \<Rightarrow> nat \<Rightarrow> sender \<Rightarrow> bool" where
  "sender_inv uc w k p \<longleftrightarrow>
     0 \<le> s_i p \<and> s_i p \<le> uc \<and> (s_pc p \<notin> {S_wait_empty, S_return} \<longrightarrow> s_i p < uc) \<and>
     (s_pc p = S_return \<longrightarrow> s_i p = uc) \<and>
     map snd (filter (\<lambda>x. fst x = k) w) = map int [0..<nat (s_i p) + ind filled (s_pc p)]"

definition senders_inv :: "int \<Rightarrow> ipc \<Rightarrow> bool" where
  "senders_inv uc s \<longleftrightarrow>
     (\<forall>k<length (senders s). sender_inv uc (sent s) k (senders s ! k)) \<and>
     (\<forall>x\<in>set (sent s). fst x < length (senders s))"

lemma sender_inv_step:
  assumes "sender_inv uc w k p" "uc < 2 ^ 31" "send_proc uc sh p = Some (Inr (sh', p'))"
  shows "sender_inv uc (if s_pc p = S_in then w @ [(k, s_i p)] else w) k p'"
proof -
  have "c_int (s_i p + 1) = s_i p + 1" if "s_pc p = S_post_full"
    using assms(1,2) that by (intro c_int_id) (auto simp: sender_inv_def)
  moreover have "nat (s_i p + 1) = Suc (nat (s_i p))" "int (nat (s_i p)) = s_i p"
    using assms(1) by (auto simp: sender_inv_def)
  ultimately show ?thesis
    using assms by (cases "s_pc p") (auto simp: send_proc_def sender_inv_def split: if_split_asm)
qed

lemma sender_inv_other: "j \<noteq> k \<Longrightarrow> sender_inv uc (w @ [(k, x)]) j p = sender_inv uc w j p"
  by (simp add: sender_inv_def)

lemma senders_inv_send:
  assumes inv: "senders_inv uc s" and uc: "uc < 2 ^ 31" and k: "k < length (senders s)" "p = senders s ! k"
    and st: "send_proc uc (shared_stuff s) p = Some (Inr (sh, p'))"
  shows "senders_inv uc (s\<lparr>shared_stuff := sh, senders := (senders s)[k := p'],
         sent := (if s_pc p = S_in then sent s @ [(k, s_i p)] else sent s)\<rparr>)"
  using inv k sender_inv_step [OF _ uc st]
  by (auto simp: senders_inv_def nth_list_update sender_inv_other)

definition server_inv :: "int \<Rightarrow> int \<Rightarrow> int \<Rightarrow> ipc \<Rightarrow> bool" where
  "server_inv tc uc us s \<longleftrightarrow>
     (let r = server s in
      0 \<le> r_i r \<and> r_i r \<le> uc * tc \<and>
      (r_pc r \<notin> {R_wait_full, R_rmid, R_return} \<longrightarrow> r_i r < uc * tc) \<and>
      (r_pc r \<in> {R_rmid, R_return} \<longrightarrow> r_i r = uc * tc) \<and>
      length (taken s) = nat (r_i r) + ind (r_emptied \<union> {R_consume, R_exited}) (r_pc r) \<and>
      (r_pc r = R_return \<longrightarrow> r_removed r) \<and>
      built us (r_heap r) (r_list r) (r_pos r) (r_i r))"

lemma server_inv_recv:
  assumes inv: "server_inv tc uc us s" and tot: "0 \<le> uc * tc" "uc * tc < 2 ^ 31"
    and st: "recv_proc tc uc us blk (shared_stuff s) (server s) = Some (Inr (sh, r))"
    and new: "\<And>b. blk = Some b \<Longrightarrow> b \<notin> dom (r_heap (server s))"
  shows "server_inv tc uc us (s\<lparr>shared_stuff := sh, server := r,
         taken := (if r_pc (server s) = R_out then taken s @ [r_item (server s)] else taken s)\<rparr>)"
proof -
  have tot': "c_int (uc * tc) = uc * tc" using tot by (intro c_int_id) auto
  show ?thesis
  proof (cases "r_pc (server s) = R_consume")
    case False
    with st inv tot' show ?thesis
      by (cases "r_pc (server s)") (auto simp: recv_proc_def server_inv_def Let_def split: if_split_asm)
  next
    case True
    let ?r = "server s"
    from inv True have i: "0 \<le> r_i ?r" "r_i ?r < uc * tc" "length (taken s) = Suc (nat (r_i ?r))"
      by (simp_all add: server_inv_def Let_def)
    from st True obtain h pos b where run:
      "insert_advance (word_of_int us) (r_heap ?r) (r_pos ?r) (Some b) = Inr (h, pos)" and b: "blk = Some b"
      and r: "r = ?r\<lparr>r_pc := R_wait_full, r_i := c_int (r_i ?r + 1), r_heap := h, r_pos := pos\<rparr>"
      by (cases blk) (auto simp: recv_proc_def bindR_def insert_advance_oom split: sum.splits)
    have "built us h (r_list ?r) pos (r_i ?r + 1)"
      using insert_advance_built [of us "r_heap ?r" "r_list ?r" "r_pos ?r" "r_i ?r" b] inv i(1) new [OF b] run
      by (auto simp: server_inv_def Let_def)
    moreover have "c_int (r_i ?r + 1) = r_i ?r + 1" using i tot by (intro c_int_id) auto
    moreover have "nat (r_i ?r + 1) = Suc (nat (r_i ?r))" using i(1) by simp
    ultimately show ?thesis
      using True i unfolding r server_inv_def Let_def by simp
  qed
qed

definition ipc_inv :: "int \<Rightarrow> int \<Rightarrow> int \<Rightarrow> ipc \<Rightarrow> bool" where
  "ipc_inv tc uc us s \<longleftrightarrow>
     sem_inv s \<and> buf_inv s \<and> senders_inv uc s \<and> server_inv tc uc us s"

text \<open>The arguments of the two kinds of processes: the total count of updates is an \<open>int\<close>.\<close>

definition args_ok :: "int \<Rightarrow> int \<Rightarrow> bool" where
  "args_ok tc uc \<longleftrightarrow> 0 \<le> tc \<and> 0 \<le> uc \<and> uc < 2 ^ 31 \<and> uc * tc < 2 ^ 31"

lemma ipc_inv_init:
  assumes "args_ok tc uc"
  shows "ipc_inv tc uc us (init_ipc n sh h L junk)"
proof -
  have "cnt A (replicate m \<lparr>s_pc = S_wait_empty, s_i = 0\<rparr>) = 0" if "S_wait_empty \<notin> A" for A m
    using that by (simp add: cnt_def)
  then have "sem_inv (init_ipc n sh h L junk)"
    by (simp add: sem_inv_def init_ipc_def init_shared_def Let_def)
  moreover have "buf_inv (init_ipc n sh h L junk)"
    by (simp add: buf_inv_def init_ipc_def init_shared_def Let_def)
  moreover have "senders_inv uc (init_ipc n sh h L junk)"
    using assms by (simp add: senders_inv_def init_ipc_def sender_inv_def args_ok_def)
  moreover note built_init [of us h L junk]
  then have "server_inv tc uc us (init_ipc n sh h L junk)"
    using assms by (simp add: server_inv_def init_ipc_def args_ok_def Let_def Header_def)
  ultimately show ?thesis by (simp add: ipc_inv_def)
qed

lemma ipc_inv_oom:
  assumes inv: "ipc_inv tc uc us s"
    and st: "recv_proc tc uc us None (shared_stuff s) (server s) = Some (Inl (ExitCall e))"
  shows "ipc_inv tc uc us (s\<lparr>server := (server s)\<lparr>r_pc := R_exited\<rparr>\<rparr>)"
proof -
  have "r_pc (server s) = R_consume"
    using st by (auto simp: recv_proc_def split: recv_pc.splits if_splits)
  with inv show ?thesis
    by (auto simp: ipc_inv_def sem_inv_def buf_inv_def senders_inv_def server_inv_def Let_def)
qed

lemma ipc_inv_step:
  assumes "ipc_step tc uc us s s'" "ipc_inv tc uc us s" "args_ok tc uc"
  shows "ipc_inv tc uc us s'"
  using assms
proof (induction rule: ipc_step.induct)
  case (send k s p sh p')
  then have "senders_inv uc s" "uc < 2 ^ 31" "sem_inv s" "buf_inv s"
    by (simp_all add: ipc_inv_def args_ok_def)
  with send show ?case
    using sem_inv_send [of s k p uc sh p'] buf_inv_send [of s k p uc sh p'] senders_inv_send [of uc s k p sh p']
    by (simp add: ipc_inv_def server_inv_def)
next
  case (recv blk s sh r)
  then have "server_inv tc uc us s" "0 \<le> uc * tc" "uc * tc < 2 ^ 31" "sem_inv s" "buf_inv s"
    by (simp_all add: ipc_inv_def args_ok_def)
  with recv show ?case
    using sem_inv_recv [of s tc uc us blk sh r] buf_inv_recv [of s tc uc us blk sh r]
      server_inv_recv [of tc uc us s blk sh r]
    by (auto simp: ipc_inv_def senders_inv_def)
next
  case (oom s e)
  then show ?case by (intro ipc_inv_oom)
qed

lemma ipc_step_clients: "ipc_step tc uc us s s' \<Longrightarrow> length (senders s') = length (senders s)"
  by (induction rule: ipc_step.induct) simp_all

section \<open>Progress\<close>

text \<open>Every statement but the two waits can run.\<close>

lemma send_proc_runs:
  assumes inv: "ipc_inv tc uc us s" and k: "k < length (senders s)"
  shows "(\<exists>x. send_proc uc (shared_stuff s) (senders s ! k) = Some (Inr x)) \<or>
    s_pc (senders s ! k) = S_return \<or>
    (s_pc (senders s ! k) = S_wait_empty \<and> s_i (senders s ! k) < uc \<and> sem_empty_addr (shared_stuff s) = 0) \<or>
    (s_pc (senders s ! k) = S_wait_mutex \<and> sem_mutex_addr (shared_stuff s) = 0)"
  using inv by (cases "s_pc (senders s ! k)")
    (auto simp: send_proc_def ipc_inv_def buf_inv_def Let_def)

lemma send_proc_no_fault:
  assumes "ipc_inv tc uc us s" "k < length (senders s)"
  shows "send_proc uc (shared_stuff s) (senders s ! k) \<noteq> Some (Inl e)"
  using assms by (cases "s_pc (senders s ! k)") (auto simp: send_proc_def ipc_inv_def buf_inv_def Let_def)

lemma recv_proc_total:
  assumes inv: "ipc_inv tc uc us s" and args: "args_ok tc uc"
    and new: "\<And>b. blk = Some b \<Longrightarrow> b \<notin> dom (r_heap (server s))"
  shows "(\<exists>x. recv_proc tc uc us blk (shared_stuff s) (server s) = Some (Inr x)) \<or>
    (blk = None \<and> recv_proc tc uc us blk (shared_stuff s) (server s) = Some (Inl (ExitCall 1))) \<or>
    r_pc (server s) \<in> {R_return, R_exited} \<or>
    (r_pc (server s) = R_wait_full \<and> r_i (server s) < uc * tc \<and> sem_full_addr (shared_stuff s) = 0) \<or>
    (r_pc (server s) = R_wait_mutex \<and> sem_mutex_addr (shared_stuff s) = 0)"
proof -
  have "0 \<le> uc * tc" using args by (simp add: args_ok_def)
  then have tot: "c_int (uc * tc) = uc * tc"
    using args by (intro c_int_id order_trans [OF _ \<open>0 \<le> uc * tc\<close>]) (simp_all add: args_ok_def)
  show ?thesis
  proof (cases "r_pc (server s) = R_consume")
    case False
    with inv tot show ?thesis
      by (cases "r_pc (server s)") (auto simp: recv_proc_def ipc_inv_def buf_inv_def Let_def)
  next
    case True
    show ?thesis
    proof (cases blk)
      case None
      with True show ?thesis by (simp add: recv_proc_def insert_advance_oom bindR_def)
    next
      case (Some b)
      with insert_advance_built [of us "r_heap (server s)" "r_list (server s)" "r_pos (server s)"
          "r_i (server s)" b] inv new
      show ?thesis using True by (auto simp: recv_proc_def bindR_def ipc_inv_def server_inv_def Let_def)
    qed
  qed
qed

text \<open>The number of items sent, counted client by client.\<close>

lemma length_by_key:
  fixes w :: "(nat \<times> 'b) list"
  assumes "\<forall>x\<in>set w. fst x < n"
  shows "length w = (\<Sum>k<n. length (filter (\<lambda>x. fst x = k) w))"
  using assms
proof (induction w)
  case (Cons x w)
  then have "(\<Sum>k<n. length (filter (\<lambda>y. fst y = k) (x # w))) =
      (\<Sum>k<n. (if fst x = k then 1 else 0) + length (filter (\<lambda>y. fst y = k) w))"
    by (intro sum.cong) auto
  also have "\<dots> = (\<Sum>k<n. if fst x = k then 1 else 0) + length w" using Cons by (simp add: sum.distrib)
  also have "(\<Sum>k<n. if fst x = k then 1 else 0 :: nat) = 1" using Cons.prems by (subst sum.delta') auto
  finally show ?case by simp
qed simp

lemma sent_by_sender:
  assumes "senders_inv uc s" "k < length (senders s)"
  shows "length (filter (\<lambda>x. fst x = k) (sent s)) =
    nat (s_i (senders s ! k)) + ind filled (s_pc (senders s ! k))"
proof -
  have "length (map snd (filter (\<lambda>x. fst x = k) (sent s))) =
      length (map int [0..<nat (s_i (senders s ! k)) + ind filled (s_pc (senders s ! k))])"
    using assms by (simp add: senders_inv_def sender_inv_def)
  then show ?thesis by simp
qed

lemma sent_per_sender_le:
  assumes "senders_inv uc s" "k < length (senders s)"
  shows "length (filter (\<lambda>x. fst x = k) (sent s)) \<le> nat uc"
    "s_pc (senders s ! k) = S_wait_empty \<Longrightarrow> s_i (senders s ! k) < uc \<Longrightarrow>
     length (filter (\<lambda>x. fst x = k) (sent s)) < nat uc"
    "s_pc (senders s ! k) = S_return \<Longrightarrow> length (filter (\<lambda>x. fst x = k) (sent s)) = nat uc"
proof -
  have inv: "sender_inv uc (sent s) k (senders s ! k)" using assms by (simp add: senders_inv_def)
  show "length (filter (\<lambda>x. fst x = k) (sent s)) \<le> nat uc"
    using inv sent_by_sender [OF assms] by (cases "s_pc (senders s ! k)") (auto simp: sender_inv_def)
  show "s_pc (senders s ! k) = S_wait_empty \<Longrightarrow> s_i (senders s ! k) < uc \<Longrightarrow>
     length (filter (\<lambda>x. fst x = k) (sent s)) < nat uc"
    using inv sent_by_sender [OF assms] by (auto simp: sender_inv_def)
  show "s_pc (senders s ! k) = S_return \<Longrightarrow> length (filter (\<lambda>x. fst x = k) (sent s)) = nat uc"
    using inv sent_by_sender [OF assms] by (auto simp: sender_inv_def)
qed

lemma sent_total_less:
  assumes "senders_inv uc s" "k < length (senders s)" "s_pc (senders s ! k) = S_wait_empty"
    "s_i (senders s ! k) < uc"
  shows "length (sent s) < length (senders s) * nat uc"
proof -
  let ?f = "\<lambda>k. length (filter (\<lambda>x. fst x = k) (sent s))"
  have "length (sent s) = (\<Sum>k<length (senders s). ?f k)"
    using assms(1) by (intro length_by_key) (simp add: senders_inv_def)
  also have "\<dots> < (\<Sum>k<length (senders s). nat uc)"
    using sent_per_sender_le [OF assms(1)] assms by (intro sum_strict_mono_ex1) auto
  finally show ?thesis by simp
qed

lemma sent_total:
  assumes "senders_inv uc s" "\<And>k. k < length (senders s) \<Longrightarrow> s_pc (senders s ! k) = S_return"
  shows "length (sent s) = length (senders s) * nat uc"
proof -
  let ?f = "\<lambda>k. length (filter (\<lambda>x. fst x = k) (sent s))"
  have "length (sent s) = (\<Sum>k<length (senders s). ?f k)"
    using assms(1) by (intro length_by_key) (simp add: senders_inv_def)
  also have "\<dots> = (\<Sum>k<length (senders s). nat uc)"
    using sent_per_sender_le(3) [OF assms(1)] assms(2) by (intro sum.cong) auto
  finally show ?thesis by simp
qed

text \<open>A state without a step is one where everybody is done, unless the server has run out of memory.\<close>

definition finished :: "int \<Rightarrow> int \<Rightarrow> ipc \<Rightarrow> bool" where
  "finished tc uc s \<longleftrightarrow>
     r_pc (server s) = R_return \<and> (\<forall>k<length (senders s). s_pc (senders s ! k) = S_return)"

lemma lock_free_when_stuck:
  assumes inv: "ipc_inv tc uc us s" and args: "args_ok tc uc" and stuck: "\<And>s'. \<not> ipc_step tc uc us s s'"
  shows "0 < sem_mutex_addr (shared_stuff s)"
proof (rule ccontr)
  assume "\<not> ?thesis"
  then consider "r_pc (server s) \<in> r_in_lock" | "0 < cnt in_lock (senders s)"
    using inv by (fastforce simp: ipc_inv_def sem_inv_def Let_def ind_def split: if_splits)
  then show False
  proof cases
    case 1
    then show False
      using recv_proc_total [OF inv args, of None] stuck ipc_step.recv [of tc uc us None s]
        ipc_step.oom [of tc uc us s]
      by (auto simp del: not_None_eq)
  next
    case 2
    then obtain k where k: "k < length (senders s)" "s_pc (senders s ! k) \<in> in_lock"
      using cnt_zero [of in_lock "senders s"] by auto
    then show False
      using send_proc_runs [OF inv k(1)] stuck ipc_step.send [OF k(1) refl, of uc _ _ tc us] by auto
  qed
qed

text \<open>
  What a state without a step looks like: the clients are done or wait for room in a full buffer, and the
  server is done, out of memory, or waits for an item of an empty buffer.
\<close>

lemma stuck_processes:
  assumes inv: "ipc_inv tc uc us s" and args: "args_ok tc uc" and stuck: "\<And>s'. \<not> ipc_step tc uc us s s'"
  shows "\<And>k. k < length (senders s) \<Longrightarrow> s_pc (senders s ! k) = S_return \<or>
      (s_pc (senders s ! k) = S_wait_empty \<and> s_i (senders s ! k) < uc \<and> sem_empty_addr (shared_stuff s) = 0)"
    and "r_pc (server s) \<in> {R_return, R_exited} \<or>
      (r_pc (server s) = R_wait_full \<and> r_i (server s) < uc * tc \<and> sem_full_addr (shared_stuff s) = 0)"
    and "cnt claimed (senders s) = 0" "cnt filled (senders s) = 0"
proof -
  have mutex: "0 < sem_mutex_addr (shared_stuff s)" using assms by (rule lock_free_when_stuck)
  show S: "s_pc (senders s ! k) = S_return \<or>
      (s_pc (senders s ! k) = S_wait_empty \<and> s_i (senders s ! k) < uc \<and> sem_empty_addr (shared_stuff s) = 0)"
    if k: "k < length (senders s)" for k
    using send_proc_runs [OF inv k] stuck ipc_step.send [OF k refl, of uc _ _ tc us] mutex by auto
  show "r_pc (server s) \<in> {R_return, R_exited} \<or>
      (r_pc (server s) = R_wait_full \<and> r_i (server s) < uc * tc \<and> sem_full_addr (shared_stuff s) = 0)"
    using recv_proc_total [OF inv args, of None] stuck ipc_step.recv [of tc uc us None s]
      ipc_step.oom [of tc uc us s] mutex by (auto simp del: not_None_eq)
  show "cnt claimed (senders s) = 0" "cnt filled (senders s) = 0"
    using S by (fastforce simp: cnt_zero)+
qed

text \<open>With enough items on the way the server ends.\<close>

lemma stuck_server:
  assumes inv: "ipc_inv tc uc us s" and args: "args_ok tc uc" and stuck: "\<And>s'. \<not> ipc_step tc uc us s s'"
    and run: "r_pc (server s) \<noteq> R_exited"
  shows "if length (senders s) * nat uc < nat (uc * tc)
    then r_pc (server s) = R_wait_full \<and> length (taken s) = length (sent s) \<and>
      (\<forall>k<length (senders s). s_pc (senders s ! k) = S_return)
    else r_pc (server s) = R_return \<and>
      ((\<forall>k<length (senders s). s_pc (senders s ! k) = S_return) \<longleftrightarrow>
        length (senders s) * nat uc \<le> nat (uc * tc) + BUFFER_SIZE)"
proof -
  have sem: "sem_inv s" and snd_inv: "senders_inv uc s" and srv: "server_inv tc uc us s"
    using inv by (simp_all add: ipc_inv_def)
  note S = stuck_processes(1) [OF inv args stuck] and R = stuck_processes(2) [OF inv args stuck]
    and idle = stuck_processes(3,4) [OF inv args stuck]
  have le: "length (taken s) \<le> length (sent s)" using sem by (rule used_le)
  let ?all = "\<forall>k<length (senders s). s_pc (senders s ! k) = S_return"
  have all: "length (sent s) = length (senders s) * nat uc" if ?all using sent_total [OF snd_inv] that by simp
  have some: "length (sent s) < length (senders s) * nat uc \<and> sem_empty_addr (shared_stuff s) = 0" if "\<not> ?all"
    using sent_total_less [OF snd_inv] S that by blast
  from R run consider (done_) "r_pc (server s) = R_return"
    | (wait) "r_pc (server s) = R_wait_full" "r_i (server s) < uc * tc" "sem_full_addr (shared_stuff s) = 0" by fastforce
  then show ?thesis
  proof cases
    case done_
    then have t: "length (taken s) = nat (uc * tc)" using srv by (simp add: server_inv_def Let_def)
    have empty: "sem_empty_addr (shared_stuff s) + length (sent s) = BUFFER_SIZE + length (taken s)"
      using sem idle done_ le by (simp add: sem_inv_def Let_def)
    show ?thesis
    proof (cases ?all)
      case True
      then show ?thesis using all t le done_ empty by auto
    next
      case False
      then show ?thesis using some t le done_ empty by auto
    qed
  next
    case wait
    then have t: "length (taken s) < nat (uc * tc)" using srv by (auto simp: server_inv_def Let_def)
    have eq: "length (taken s) = length (sent s)" "sem_empty_addr (shared_stuff s) = BUFFER_SIZE"
      using sem idle wait le by (simp_all add: sem_inv_def Let_def)
    then have ?all using some by (auto simp: BUFFER_SIZE_def)
    with all t eq wait show ?thesis by simp
  qed
qed

lemma stuck_finished:
  assumes inv: "ipc_inv tc uc us s" and args: "args_ok tc uc" and stuck: "\<And>s'. \<not> ipc_step tc uc us s s'"
    and n: "length (senders s) = nat tc"
  shows "finished tc uc s \<or> r_pc (server s) = R_exited"
proof -
  have "length (senders s) * nat uc = nat (uc * tc)"
    using args n by (simp add: args_ok_def nat_mult_distrib)
  then show ?thesis using stuck_server [OF inv args stuck] by (auto simp: finished_def)
qed

section \<open>Termination\<close>

fun s_rank :: "send_pc \<Rightarrow> nat" where
  "s_rank S_wait_empty = 8" | "s_rank S_wait_mutex = 7" | "s_rank S_write = 6" | "s_rank S_in = 5"
| "s_rank S_count = 4" | "s_rank S_post_mutex = 3" | "s_rank S_post_full = 2" | "s_rank S_return = 0"

fun r_rank :: "recv_pc \<Rightarrow> nat" where
  "r_rank R_wait_full = 10" | "r_rank R_wait_mutex = 9" | "r_rank R_read = 8" | "r_rank R_out = 7"
| "r_rank R_count = 6" | "r_rank R_post_mutex = 5" | "r_rank R_post_empty = 4" | "r_rank R_consume = 3"
| "r_rank R_rmid = 2" | "r_rank R_return = 0" | "r_rank R_exited = 0"

definition s_measure :: "int \<Rightarrow> sender \<Rightarrow> nat" where
  "s_measure uc p = 9 * nat (uc - s_i p) + s_rank (s_pc p)"

definition ipc_measure :: "int \<Rightarrow> int \<Rightarrow> ipc \<Rightarrow> nat" where
  "ipc_measure tc uc s = sum_list (map (s_measure uc) (senders s)) +
     (11 * nat (uc * tc - r_i (server s)) + r_rank (r_pc (server s)))"

lemma s_measure_less:
  assumes "sender_inv uc w k p" "uc < 2 ^ 31" "send_proc uc sh p = Some (Inr (sh', p'))"
  shows "s_measure uc p' < s_measure uc p"
proof -
  have "c_int (s_i p + 1) = s_i p + 1" if "s_pc p = S_post_full"
    using assms(1,2) that by (intro c_int_id) (auto simp: sender_inv_def)
  then show ?thesis
    using assms by (cases "s_pc p") (auto simp: send_proc_def s_measure_def sender_inv_def split: if_split_asm)
qed

lemma sum_list_update_less:
  fixes f :: "'a \<Rightarrow> nat"
  assumes "k < length xs" "f y < f (xs ! k)"
  shows "sum_list (map f (xs[k := y])) < sum_list (map f xs)"
  using assms
proof (induction xs arbitrary: k)
  case (Cons x xs)
  then show ?case by (cases k) auto
qed simp

lemma ipc_measure_less:
  assumes "ipc_step tc uc us s s'" "ipc_inv tc uc us s" "args_ok tc uc"
  shows "ipc_measure tc uc s' < ipc_measure tc uc s"
  using assms
proof (induction rule: ipc_step.induct)
  case (send k s p sh p')
  then have "s_measure uc p' < s_measure uc (senders s ! k)"
    by (intro s_measure_less [of uc "sent s" k]) (auto simp: ipc_inv_def senders_inv_def args_ok_def)
  with send(1) show ?case by (simp add: ipc_measure_def sum_list_update_less)
next
  case (recv blk s sh r)
  from recv have i: "0 \<le> r_i (server s)"
    "r_pc (server s) = R_consume \<Longrightarrow> r_i (server s) < uc * tc" "uc * tc < 2 ^ 31"
    by (auto simp: ipc_inv_def server_inv_def args_ok_def Let_def)
  then have "c_int (r_i (server s) + 1) = r_i (server s) + 1" if "r_pc (server s) = R_consume"
    using that by (intro c_int_id) auto
  with recv(1) i show ?case
    by (cases "r_pc (server s)")
       (auto simp: recv_proc_def ipc_measure_def bindR_def split: if_split_asm sum.splits)
next
  case (oom s e)
  then have "r_pc (server s) = R_consume"
    by (auto simp: recv_proc_def split: recv_pc.splits if_splits)
  then show ?case by (simp add: ipc_measure_def)
qed

interpretation ipc_system: step_system "ipc_step tc uc us"
    "\<lambda>s. args_ok tc uc \<and> (\<exists>sh h L junk. s = init_ipc n sh h L junk)"
    "\<lambda>s. args_ok tc uc \<and> ipc_inv tc uc us s \<and> length (senders s) = n" "ipc_measure tc uc" for tc uc us n
proof unfold_locales
  show "args_ok tc uc \<and> ipc_inv tc uc us s \<and> length (senders s) = n"
    if "args_ok tc uc \<and> (\<exists>sh h L junk. s = init_ipc n sh h L junk)" for s
    using that ipc_inv_init by (auto simp: init_ipc_def)
qed (use ipc_inv_step ipc_step_clients ipc_measure_less in auto)

section \<open>The theorems\<close>

lemma recv_proc_fault:
  assumes inv: "ipc_inv tc uc us s" and args: "args_ok tc uc"
    and new: "\<And>b. blk = Some b \<Longrightarrow> b \<notin> dom (r_heap (server s))"
    and st: "recv_proc tc uc us blk (shared_stuff s) (server s) = Some (Inl e)"
  shows "blk = None \<and> e = ExitCall 1"
proof -
  have "r_pc (server s) \<in> {R_read, R_consume}"
    using st by (auto simp: recv_proc_def split: recv_pc.splits if_splits)
  with recv_proc_total [OF inv args, of blk] new st show ?thesis by auto
qed

lemma sent_in_order:
  assumes sv: "senders_inv uc s" and k: "k < length (senders s)"
  shows "\<exists>n\<le>nat uc. map snd (filter (\<lambda>x. fst x = k) (sent s)) = map int [0..<n]"
proof -
  have "map snd (filter (\<lambda>x. fst x = k) (sent s)) =
      map int [0..<nat (s_i (senders s ! k)) + ind filled (s_pc (senders s ! k))]"
    using sv k by (simp add: senders_inv_def sender_inv_def)
  moreover have "nat (s_i (senders s ! k)) + ind filled (s_pc (senders s ! k)) \<le> nat uc"
    using sent_per_sender_le(1) [OF sv k] sent_by_sender [OF sv k] by simp
  ultimately show ?thesis by blast
qed

lemma finished_result:
  assumes inv: "ipc_inv tc uc us s" and fin: "finished tc uc s" and args: "args_ok tc uc"
    and n: "length (senders s) = nat tc"
  shows "taken s = map snd (sent s) \<and> count (shared_stuff s) = 0 \<and> r_removed (server s) \<and>
    built us (r_heap (server s)) (r_list (server s)) (r_pos (server s)) (uc * tc)"
proof -
  have sv: "senders_inv uc s" using inv by (simp add: ipc_inv_def)
  have "length (sent s) = nat tc * nat uc" using sent_total [OF sv] fin n by (simp add: finished_def)
  also have "\<dots> = nat (uc * tc)" using args by (simp add: args_ok_def nat_mult_distrib)
  finally have eq: "length (sent s) = length (taken s)" and i: "r_i (server s) = uc * tc"
    using inv fin by (simp_all add: ipc_inv_def server_inv_def finished_def Let_def)
  have "cnt {S_count} (senders s) = 0" using fin by (auto simp: cnt_zero finished_def)
  with inv fin eq i show ?thesis
    by (auto simp: ipc_inv_def sem_inv_def buf_inv_def server_inv_def finished_def Let_def)
qed

text \<open>
  C18. In every reachable state of the shared-memory system, for any number of clients and whatever the interleaving: at most one
  process is inside the lock; no statement reads or writes outside the buffer or the list; what the
  server has taken is exactly the beginning of what was put in, in that order; each client's items
  went in as 0, 1, 2, ...; and the number of items in the buffer never exceeds its size.
\<close>

theorem shared_buffer_safe:
  assumes "(ipc_step tc uc us)\<^sup>*\<^sup>* (init_ipc n sh h L junk) s" "args_ok tc uc"
  shows "cnt in_lock (senders s) + ind r_in_lock (r_pc (server s)) \<le> 1 \<and>
    (\<forall>k<length (senders s). \<forall>e. send_proc uc (shared_stuff s) (senders s ! k) \<noteq> Some (Inl e)) \<and>
    (\<forall>blk e. (\<forall>b. blk = Some b \<longrightarrow> b \<notin> dom (r_heap (server s))) \<longrightarrow>
       recv_proc tc uc us blk (shared_stuff s) (server s) = Some (Inl e) \<longrightarrow> blk = None \<and> e = ExitCall 1) \<and>
    taken s = map snd (take (length (taken s)) (sent s)) \<and>
    (\<forall>k<length (senders s).
       \<exists>n\<le>nat uc. map snd (filter (\<lambda>x. fst x = k) (sent s)) = map int [0..<n]) \<and>
    length (sent s) \<le> length (taken s) + BUFFER_SIZE"
proof (intro conjI allI impI)
  have inv: "ipc_inv tc uc us s" using ipc_system.inv_reachable [OF assms(1)] assms(2) by blast
  show "cnt in_lock (senders s) + ind r_in_lock (r_pc (server s)) \<le> 1"
    "length (sent s) \<le> length (taken s) + BUFFER_SIZE"
    using inv by (auto simp: ipc_inv_def sem_inv_def Let_def)
  show "taken s = map snd (take (length (taken s)) (sent s))"
    using inv by (simp add: ipc_inv_def buf_inv_def Let_def)
  show "send_proc uc (shared_stuff s) (senders s ! k) \<noteq> Some (Inl e)" if "k < length (senders s)" for k e
    using send_proc_no_fault [OF inv that] .
  show "\<exists>n\<le>nat uc. map snd (filter (\<lambda>x. fst x = k) (sent s)) = map int [0..<n]"
    if "k < length (senders s)" for k
    using inv that by (intro sent_in_order) (simp_all add: ipc_inv_def)
  show "blk = None" "e = ExitCall 1" if "\<forall>b. blk = Some b \<longrightarrow> b \<notin> dom (r_heap (server s))"
    "recv_proc tc uc us blk (shared_stuff s) (server s) = Some (Inl e)" for blk e
    using recv_proc_fault [OF inv assms(2) _ that(2)] that(1) by auto
qed

definition init_demo :: prod_cons_shared where
  "init_demo =
     \<lparr>sem_empty_addr = 0, sem_full_addr = 0, sem_mutex_addr = 0, in_pos = 0, out_pos = 0, count = 0, buffer = []\<rparr>"

definition demo_ipc :: ipc where
  "demo_ipc = init_ipc 2 init_demo Map.empty 1 \<lparr>Element = 0, Next = None\<rparr>"

lemma demo_fields:
  "senders demo_ipc = [\<lparr>s_pc = S_wait_empty, s_i = 0\<rparr>, \<lparr>s_pc = S_wait_empty, s_i = 0\<rparr>]"
  "sem_empty_addr (shared_stuff demo_ipc) = BUFFER_SIZE" "sent demo_ipc = []"
  by (simp_all add: demo_ipc_def init_ipc_def init_shared_def numeral_2_eq_2)

lemma demo_step:
  "ipc_step 2 3 10 demo_ipc
     (demo_ipc\<lparr>shared_stuff := (shared_stuff demo_ipc)\<lparr>sem_empty_addr := BUFFER_SIZE - 1\<rparr>,
        senders := [\<lparr>s_pc = S_wait_empty, s_i = 0\<rparr>, \<lparr>s_pc = S_wait_mutex, s_i = 0\<rparr>], sent := []\<rparr>)"
proof -
  have "send_proc 3 (shared_stuff demo_ipc) \<lparr>s_pc = S_wait_empty, s_i = 0\<rparr> =
      Some (Inr ((shared_stuff demo_ipc)\<lparr>sem_empty_addr := BUFFER_SIZE - 1\<rparr>, \<lparr>s_pc = S_wait_mutex, s_i = 0\<rparr>))"
    unfolding send_proc_def demo_fields by simp
  from ipc_step.send [OF _ _ this, of 1 2 10] show ?thesis unfolding demo_fields by simp
qed

theorem shared_buffer_safe_witness:
  "\<exists>s. (ipc_step 2 3 10)\<^sup>*\<^sup>* demo_ipc s \<and> s_pc (senders s ! 1) = S_wait_mutex \<and>
     cnt in_lock (senders s) + ind r_in_lock (r_pc (server s)) \<le> 1 \<and>
     send_proc 3 (shared_stuff s) (senders s ! 1) \<noteq> Some (Inl OutOfBounds)"
proof -
  let ?s = "demo_ipc\<lparr>shared_stuff := (shared_stuff demo_ipc)\<lparr>sem_empty_addr := BUFFER_SIZE - 1\<rparr>,
        senders := [\<lparr>s_pc = S_wait_empty, s_i = 0\<rparr>, \<lparr>s_pc = S_wait_mutex, s_i = 0\<rparr>], sent := []\<rparr>"
  have run: "(ipc_step 2 3 10)\<^sup>*\<^sup>* demo_ipc ?s" using demo_step by (rule r_into_rtranclp)
  have args: "args_ok 2 3" by (simp add: args_ok_def)
  have "cnt in_lock (senders ?s) + ind r_in_lock (r_pc (server ?s)) \<le> 1 \<and>
      (\<forall>k<length (senders ?s). \<forall>e. send_proc 3 (shared_stuff ?s) (senders ?s ! k) \<noteq> Some (Inl e))"
    using shared_buffer_safe [OF run [unfolded demo_ipc_def] args]
    unfolding demo_ipc_def by blast
  then show ?thesis using run by (intro exI [of _ ?s]) auto
qed

text \<open>
  C8. The shared-memory benchmark always comes to rest: no run is infinite, and a reachable state
  without a further step either is one where \<open>malloc\<close> failed in the server, or all processes have
  returned, the server has taken every item of every client (each client's in order), the buffer is
  empty, the shared segment is removed and the server's list holds \<open>update_count * thread_count\<close> times
  \<open>update_size\<close>.
\<close>

theorem shared_buffer_completes:
  assumes "args_ok tc uc"
  shows "(\<nexists>f. f 0 = init_ipc (nat tc) sh h L junk \<and> (\<forall>i. ipc_step tc uc us (f i) (f (Suc i)))) \<and>
    (\<forall>s. (ipc_step tc uc us)\<^sup>*\<^sup>* (init_ipc (nat tc) sh h L junk) s \<longrightarrow> (\<nexists>s'. ipc_step tc uc us s s') \<longrightarrow>
       r_pc (server s) \<noteq> R_exited \<longrightarrow>
       finished tc uc s \<and> taken s = map snd (sent s) \<and>
       (\<forall>k<nat tc. map snd (filter (\<lambda>x. fst x = k) (sent s)) = map int [0..<nat uc]) \<and>
       count (shared_stuff s) = 0 \<and> r_removed (server s) \<and>
       built us (r_heap (server s)) (r_list (server s)) (r_pos (server s)) (uc * tc))"
proof (intro conjI allI impI)
  have init: "args_ok tc uc \<and> (\<exists>sh' h' L' junk'. init_ipc (nat tc) sh h L junk = init_ipc (nat tc) sh' h' L' junk')"
    using assms by blast
  show "\<nexists>f. f 0 = init_ipc (nat tc) sh h L junk \<and> (\<forall>i. ipc_step tc uc us (f i) (f (Suc i)))"
    using ipc_system.no_infinite_run [OF init] .
  fix s
  assume run: "(ipc_step tc uc us)\<^sup>*\<^sup>* (init_ipc (nat tc) sh h L junk) s"
    and stop: "\<nexists>s'. ipc_step tc uc us s s'" "r_pc (server s) \<noteq> R_exited"
  have inv: "ipc_inv tc uc us s" and n: "length (senders s) = nat tc"
    using ipc_system.inv_reachable [OF run init] by simp_all
  have fin: "finished tc uc s" using stuck_finished [OF inv assms _ n] stop by blast
  show "finished tc uc s" by fact
  show "taken s = map snd (sent s)" "count (shared_stuff s) = 0" "r_removed (server s)"
    "built us (r_heap (server s)) (r_list (server s)) (r_pos (server s)) (uc * tc)"
    using finished_result [OF inv fin assms n] by simp_all
  show "map snd (filter (\<lambda>x. fst x = k) (sent s)) = map int [0..<nat uc]" if "k < nat tc" for k
    using inv fin n that by (simp add: ipc_inv_def senders_inv_def sender_inv_def finished_def)
qed

text \<open>A system without clients: the server removes the segment and returns.\<close>

definition demo_start :: ipc where
  "demo_start = init_ipc 0 init_demo Map.empty 1 \<lparr>Element = 0, Next = None\<rparr>"

definition demo_end :: ipc where
  "demo_end = demo_start\<lparr>server := (server demo_start)\<lparr>r_pc := R_return, r_removed := True\<rparr>\<rparr>"

lemma demo_start_fields:
  "r_pc (server demo_start) = R_wait_full" "r_i (server demo_start) = 0" "senders demo_start = []"
  by (simp_all add: demo_start_def init_ipc_def)

lemma demo_end_reached: "(ipc_step 0 0 10)\<^sup>*\<^sup>* demo_start demo_end"
proof -
  let ?r1 = "(server demo_start)\<lparr>r_pc := R_rmid\<rparr>"
  have "recv_proc 0 0 10 None (shared_stuff demo_start) (server demo_start) =
      Some (Inr (shared_stuff demo_start, ?r1))"
    by (simp add: recv_proc_def demo_start_fields c_int_id)
  from ipc_step.recv [OF this] have 1: "ipc_step 0 0 10 demo_start (demo_start\<lparr>server := ?r1\<rparr>)"
    by (simp add: demo_start_fields)
  have "recv_proc 0 0 10 None (shared_stuff (demo_start\<lparr>server := ?r1\<rparr>)) (server (demo_start\<lparr>server := ?r1\<rparr>)) =
      Some (Inr (shared_stuff demo_start, ?r1\<lparr>r_pc := R_return, r_removed := True\<rparr>))"
    by (simp add: recv_proc_def)
  from ipc_step.recv [OF this] have 2: "ipc_step 0 0 10 (demo_start\<lparr>server := ?r1\<rparr>) demo_end"
    by (simp add: demo_end_def)
  from 1 2 show ?thesis by (meson r_into_rtranclp rtranclp.rtrancl_into_rtrancl)
qed

lemma demo_end_stuck: "\<not> ipc_step 0 0 10 demo_end s'"
proof
  have end_pc: "r_pc (server demo_end) = R_return" "senders demo_end = []"
    by (simp_all add: demo_end_def demo_start_fields)
  assume "ipc_step 0 0 10 demo_end s'"
  then show False by cases (auto simp: end_pc recv_proc_def)
qed

theorem shared_buffer_completes_witness:
  "(\<nexists>f. f 0 = demo_ipc \<and> (\<forall>i. ipc_step 2 3 10 (f i) (f (Suc i)))) \<and>
   finished 0 0 demo_end \<and>
   built 10 (r_heap (server demo_end)) (r_list (server demo_end)) (r_pos (server demo_end)) 0"
proof -
  have args: "args_ok 2 3" "args_ok 0 0" by (simp_all add: args_ok_def)
  have two: "nat 2 = 2" "nat 0 = 0" "(0::int) * 0 = 0" by simp_all
  have "r_pc (server demo_end) \<noteq> R_exited" by (simp add: demo_end_def)
  with shared_buffer_completes [OF args(2), unfolded two] demo_end_reached [unfolded demo_start_def] demo_end_stuck
  have "finished 0 0 demo_end \<and>
      built 10 (r_heap (server demo_end)) (r_list (server demo_end)) (r_pos (server demo_end)) 0" by blast
  then show ?thesis
    using shared_buffer_completes [OF args(1), unfolded two(1)] unfolding demo_ipc_def init_demo_def by blast
qed

end
