(* ===== verification/Benchmarks.thy ===== *)
theory Benchmarks
  imports SharedIpc StepSystem
begin

text \<open>
  The other benchmark programs that fill the linked list: the threads of
  \<open>nano_benchmarking/inproc/pthread_inproc/pthread_inproc.c\<close>, which append under a mutex, and the servers of
  \<open>nano_benchmarking/ipc/pipe_ipc/pipe_ipc.c\<close> and \<open>nano_benchmarking/ipc/dns_ipc/dns_ipc.c\<close>, which poll one
  stream per client until they have counted enough reads.
\<close>

section \<open>Threads and a mutex\<close>

text \<open>
  One statement of \<open>add_proc\<close> is a step, so that threads interleave between \<open>Insert\<close> and \<open>Advance\<close>;
  the mutex records the thread that holds it.
\<close>

datatype add_pc = A_lock | A_insert | A_advance | A_unlock | A_exit

record adder =
  a_pc :: add_pc
  a_i :: int

record inproc =
  mutex :: "nat option"
  g_heap :: node_heap
  g_pos :: "addr option"

definition add_proc ::
  "int \<Rightarrow> int \<Rightarrow> addr option \<Rightarrow> nat \<Rightarrow> inproc \<Rightarrow> adder \<Rightarrow> (inproc \<times> adder) res option" where
  "add_proc update_count update_size blk self g p =
     (case a_pc p of
        A_lock \<Rightarrow>
          if a_i p < update_count
          then (if mutex g = None then Some (Inr (g\<lparr>mutex := Some self\<rparr>, p\<lparr>a_pc := A_insert\<rparr>)) else None)
          else Some (Inr (g, p\<lparr>a_pc := A_exit\<rparr>))
      | A_insert \<Rightarrow> Some
          (bindR (List_Insert (word_of_int update_size) (g_heap g) (g_pos g) blk) (\<lambda>h.
             Inr (g\<lparr>g_heap := h\<rparr>, p\<lparr>a_pc := A_advance\<rparr>)))
      | A_advance \<Rightarrow> Some
          (bindR (Advance (g_heap g) (g_pos g)) (\<lambda>q. Inr (g\<lparr>g_pos := q\<rparr>, p\<lparr>a_pc := A_unlock\<rparr>)))
      | A_unlock \<Rightarrow> Some (Inr (g\<lparr>mutex := None\<rparr>, p\<lparr>a_pc := A_lock, a_i := c_int (a_i p + 1)\<rparr>))
      | A_exit \<Rightarrow> None)"

text \<open>
  \<open>main\<close> creates the list and starts the threads one after the other, while those started run already,
  and then joins them in the same order.  \<open>M_return\<close> and \<open>M_error\<close> carry the status it returns, with
  which the process ends.
\<close>

datatype main_pc = M_create nat | M_join nat | M_return int | M_error int

record threads =
  globals :: inproc
  adders :: "adder list"
  main :: main_pc
  aborted :: bool

definition inproc_main :: "node_heap \<Rightarrow> addr \<Rightarrow> Node \<Rightarrow> threads" where
  "inproc_main h L junk =
     \<lparr>globals = \<lparr>mutex = None, g_heap = h(L \<mapsto> junk\<lparr>Next := None\<rparr>), g_pos = Header (Some L)\<rparr>,
      adders = [], main = M_create 0, aborted = False\<rparr>"

text \<open>
  A call of \<open>pthread_create\<close> or \<open>pthread_join\<close> in \<open>main\<close>; \<open>ok\<close> says whether it succeeds.  A join waits for
  its thread.
\<close>

definition main_step :: "nat \<Rightarrow> bool \<Rightarrow> threads \<Rightarrow> threads option" where
  "main_step thread_count ok s =
     (case main s of
        M_create i \<Rightarrow>
          if i < thread_count
          then (if ok then Some (s\<lparr>adders := adders s @ [\<lparr>a_pc = A_lock, a_i = 0\<rparr>], main := M_create (Suc i)\<rparr>)
                else Some (s\<lparr>main := M_error (-1)\<rparr>))
          else Some (s\<lparr>main := M_join 0\<rparr>)
      | M_join i \<Rightarrow>
          if i < thread_count
          then (if ok then (if a_pc (adders s ! i) = A_exit then Some (s\<lparr>main := M_join (Suc i)\<rparr>) else None)
                else Some (s\<lparr>main := M_error 0\<rparr>))
          else Some (s\<lparr>main := M_return 0\<rparr>)
      | M_return _ \<Rightarrow> None
      | M_error _ \<Rightarrow> None)"

fun ended :: "main_pc \<Rightarrow> bool" where
  "ended (M_return _) = True"
| "ended (M_error _) = True"
| "ended _ = False"

definition alive :: "threads \<Rightarrow> bool" where
  "alive s \<longleftrightarrow> \<not> aborted s \<and> \<not> ended (main s)"

inductive add_step :: "nat \<Rightarrow> int \<Rightarrow> int \<Rightarrow> threads \<Rightarrow> threads \<Rightarrow> bool" for n uc us where
  run: "alive s \<Longrightarrow> k < length (adders s) \<Longrightarrow>
    add_proc uc us blk k (globals s) (adders s ! k) = Some (Inr (g, p)) \<Longrightarrow>
    (\<And>b. blk = Some b \<Longrightarrow> b \<notin> dom (g_heap (globals s))) \<Longrightarrow>
    add_step n uc us s (s\<lparr>globals := g, adders := (adders s)[k := p]\<rparr>)"
| fatal: "alive s \<Longrightarrow> k < length (adders s) \<Longrightarrow>
    add_proc uc us None k (globals s) (adders s ! k) = Some (Inl (ExitCall e)) \<Longrightarrow>
    add_step n uc us s (s\<lparr>aborted := True\<rparr>)"
| main: "alive s \<Longrightarrow> main_step n ok s = Some s' \<Longrightarrow> add_step n uc us s s'"

definition joinable :: "threads \<Rightarrow> bool" where
  "joinable s \<longleftrightarrow> (\<forall>k<length (adders s). a_pc (adders s ! k) = A_exit)"

text \<open>Appended so far by a thread; by all of them.\<close>

definition added :: "adder \<Rightarrow> nat" where
  "added p = nat (a_i p) + ind {A_unlock} (a_pc p)"

definition adder_inv :: "int \<Rightarrow> adder \<Rightarrow> bool" where
  "adder_inv uc p \<longleftrightarrow>
     0 \<le> a_i p \<and> a_i p \<le> uc \<and> (a_pc p \<notin> {A_lock, A_exit} \<longrightarrow> a_i p < uc) \<and> (a_pc p = A_exit \<longrightarrow> a_i p = uc)"

text \<open>Between \<open>Insert\<close> and \<open>Advance\<close> the new node follows \<open>pos\<close>.\<close>

definition half_built :: "int \<Rightarrow> node_heap \<Rightarrow> addr \<Rightarrow> addr option \<Rightarrow> nat \<Rightarrow> bool" where
  "half_built us h L pos n \<longleftrightarrow> (\<exists>pos'. Advance h pos = Inr pos' \<and> built us h L pos' (int n + 1))"

definition lock_inv :: "nat option \<Rightarrow> adder list \<Rightarrow> bool" where
  "lock_inv m ps \<longleftrightarrow>
     (\<forall>k<length ps. a_pc (ps ! k) \<in> {A_insert, A_advance, A_unlock} \<longleftrightarrow> m = Some k) \<and>
     (\<forall>k. m = Some k \<longrightarrow> k < length ps)"

definition advancing :: "adder list \<Rightarrow> bool" where
  "advancing ps \<longleftrightarrow> (\<exists>k<length ps. a_pc (ps ! k) = A_advance)"

definition list_inv :: "int \<Rightarrow> addr \<Rightarrow> inproc \<Rightarrow> adder list \<Rightarrow> bool" where
  "list_inv us L g ps \<longleftrightarrow>
     (let n = sum_list (map added ps) in
      if advancing ps then half_built us (g_heap g) L (g_pos g) n
      else built us (g_heap g) L (g_pos g) (int n))"

definition threads_inv :: "int \<Rightarrow> int \<Rightarrow> addr \<Rightarrow> threads \<Rightarrow> bool" where
  "threads_inv uc us L s \<longleftrightarrow>
     (\<forall>k<length (adders s). adder_inv uc (adders s ! k)) \<and>
     lock_inv (mutex (globals s)) (adders s) \<and> list_inv us L (globals s) (adders s)"

lemma advancing_update:
  "k < length ps \<Longrightarrow> a_pc (ps ! k) \<noteq> A_advance \<Longrightarrow> a_pc p \<noteq> A_advance \<Longrightarrow>
   advancing (ps[k := p]) = advancing ps"
  unfolding advancing_def by (metis length_list_update nth_list_update)

lemma advancing_lock:
  "lock_inv m ps \<Longrightarrow> advancing ps \<longleftrightarrow> (\<exists>k<length ps. m = Some k \<and> a_pc (ps ! k) = A_advance)"
  unfolding advancing_def lock_inv_def by auto

lemma lock_inv_keep:
  "lock_inv m ps \<Longrightarrow> k < length ps \<Longrightarrow>
   a_pc p \<in> {A_insert, A_advance, A_unlock} \<longleftrightarrow> a_pc (ps ! k) \<in> {A_insert, A_advance, A_unlock} \<Longrightarrow>
   lock_inv m (ps[k := p])"
  unfolding lock_inv_def by (auto simp: nth_list_update)

lemma lock_inv_acquire:
  "lock_inv None ps \<Longrightarrow> k < length ps \<Longrightarrow> a_pc p = A_insert \<Longrightarrow> lock_inv (Some k) (ps[k := p])"
  unfolding lock_inv_def by (auto simp: nth_list_update)

lemma lock_inv_release:
  "lock_inv (Some k) ps \<Longrightarrow> k < length ps \<Longrightarrow> a_pc p = A_lock \<Longrightarrow> lock_inv None (ps[k := p])"
  unfolding lock_inv_def by (auto simp: nth_list_update)

lemma lock_owner:
  "lock_inv m ps \<Longrightarrow> k < length ps \<Longrightarrow> a_pc (ps ! k) \<in> {A_insert, A_advance, A_unlock} \<Longrightarrow> m = Some k"
  unfolding lock_inv_def by blast

lemma insert_half_built:
  assumes "built us h L pos (int n)" "b \<notin> dom h"
  shows "\<exists>h'. List_Insert (word_of_int us) h pos (Some b) = Inr h' \<and> half_built us h' L pos n"
  using insert_advance_built [OF assms(1) _ assms(2)]
  by (auto simp: insert_advance_def bindR_def half_built_def split: sum.splits)

lemma sum_list_map_update:
  fixes f :: "'a \<Rightarrow> nat"
  shows "k < length xs \<Longrightarrow> sum_list (map f (xs[k := y])) + f (xs ! k) = sum_list (map f xs) + f y"
proof (induction xs arbitrary: k)
  case (Cons x xs)
  then show ?case by (cases k) auto
qed simp

lemma list_inv_update:
  assumes "k < length ps" "a_pc (ps ! k) \<noteq> A_advance" "a_pc p \<noteq> A_advance" "added p = added (ps ! k)"
    "g_heap g' = g_heap g" "g_pos g' = g_pos g"
  shows "list_inv us L g' (ps[k := p]) = list_inv us L g ps"
  using assms sum_list_map_update [OF assms(1), of added p] by (simp add: list_inv_def advancing_update)

lemma list_inv_insert:
  assumes "list_inv us L g ps" "lock_inv (Some k) ps" "k < length ps" "a_pc (ps ! k) = A_insert"
    "List_Insert (word_of_int us) (g_heap g) (g_pos g) (Some b) = Inr h'" "b \<notin> dom (g_heap g)"
    "p = (ps ! k)\<lparr>a_pc := A_advance\<rparr>"
  shows "list_inv us L (g\<lparr>g_heap := h'\<rparr>) (ps[k := p])"
proof -
  have "\<not> advancing ps" using assms(2,4) by (simp add: advancing_lock)
  then have "built us (g_heap g) L (g_pos g) (int (sum_list (map added ps)))"
    using assms(1) by (simp add: list_inv_def)
  then have "half_built us h' L (g_pos g) (sum_list (map added ps))"
    using insert_half_built [of us "g_heap g" L "g_pos g" "sum_list (map added ps)" b] assms(5,6) by auto
  moreover have "advancing (ps[k := p])" unfolding advancing_def using assms(3,7) by (intro exI [of _ k]) simp
  moreover have "sum_list (map added (ps[k := p])) = sum_list (map added ps)"
    using sum_list_map_update [OF assms(3), of added p] assms(4,7) by (simp add: added_def)
  ultimately show ?thesis by (simp add: list_inv_def)
qed

lemma list_inv_advance:
  assumes "list_inv us L g ps" "lock_inv (Some k) ps" "k < length ps" "a_pc (ps ! k) = A_advance"
    "Advance (g_heap g) (g_pos g) = Inr q" "p = (ps ! k)\<lparr>a_pc := A_unlock\<rparr>"
  shows "list_inv us L (g\<lparr>g_pos := q\<rparr>) (ps[k := p])"
proof -
  have "advancing ps" unfolding advancing_def using assms(3,4) by blast
  then have "built us (g_heap g) L q (int (sum_list (map added ps)) + 1)"
    using assms(1,5) by (simp add: list_inv_def half_built_def)
  moreover have "lock_inv (Some k) (ps[k := p])" using assms(2,3,4,6) by (intro lock_inv_keep) auto
  then have "\<not> advancing (ps[k := p])" using assms(3,6) by (simp add: advancing_lock)
  moreover have "sum_list (map added (ps[k := p])) = Suc (sum_list (map added ps))"
    using sum_list_map_update [OF assms(3), of added p] assms(4,6) by (simp add: added_def)
  ultimately show ?thesis by (simp add: list_inv_def add.commute)
qed

lemma adder_inv_step:
  assumes "adder_inv uc p" "uc < 2 ^ 31" "add_proc uc us blk k g p = Some (Inr (g', p'))"
  shows "adder_inv uc p'"
proof -
  have "c_int (a_i p + 1) = a_i p + 1" if "a_pc p = A_unlock"
    using assms(1,2) that by (intro c_int_id) (auto simp: adder_inv_def)
  then show ?thesis
    using assms by (cases "a_pc p") (auto simp: add_proc_def adder_inv_def bindR_def split: if_split_asm sum.splits)
qed

text \<open>The statements of a thread under the invariant.\<close>

lemma threads_inv_step:
  assumes inv: "threads_inv uc us L s" and uc: "uc < 2 ^ 31" and k: "k < length (adders s)"
    and st: "add_proc uc us blk k (globals s) (adders s ! k) = Some (Inr (g, p))"
    and new: "\<And>b. blk = Some b \<Longrightarrow> b \<notin> dom (g_heap (globals s))"
  shows "threads_inv uc us L (s\<lparr>globals := g, adders := (adders s)[k := p]\<rparr>)"
proof -
  let ?p = "adders s ! k" and ?ps = "adders s" and ?g = "globals s"
  have ai: "adder_inv uc ?p" and lock: "lock_inv (mutex ?g) ?ps" and lst: "list_inv us L ?g ?ps"
    using inv k by (simp_all add: threads_inv_def)
  have adders: "\<forall>j<length ?ps. adder_inv uc (?ps[k := p] ! j)"
    using inv adder_inv_step [OF ai uc st] k by (auto simp: threads_inv_def nth_list_update)
  have "lock_inv (mutex g) (?ps[k := p]) \<and> list_inv us L g (?ps[k := p])"
  proof (cases "a_pc ?p")
    case A_lock
    show ?thesis
    proof (cases "a_i ?p < uc")
      case True
      with st A_lock have gp: "mutex ?g = None" "g = ?g\<lparr>mutex := Some k\<rparr>" "p = ?p\<lparr>a_pc := A_insert\<rparr>"
        by (auto simp: add_proc_def split: if_splits)
      then show ?thesis
        using lock lst A_lock k list_inv_update [of k ?ps p g ?g] by (auto simp: added_def intro: lock_inv_acquire)
    next
      case False
      with st A_lock have gp: "g = ?g" "p = ?p\<lparr>a_pc := A_exit\<rparr>" by (auto simp: add_proc_def)
      then show ?thesis
        using lock lst A_lock k list_inv_update [of k ?ps p g ?g] by (auto simp: added_def intro: lock_inv_keep)
    qed
  next
    case A_insert
    then have m: "mutex ?g = Some k" using lock_owner [OF lock k] by simp
    obtain b h' where b: "blk = Some b"
      and h': "List_Insert (word_of_int us) (g_heap ?g) (g_pos ?g) (Some b) = Inr h'"
      and gp: "g = ?g\<lparr>g_heap := h'\<rparr>" "p = ?p\<lparr>a_pc := A_advance\<rparr>"
      using st A_insert by (cases blk) (auto simp: add_proc_def List_Insert_def bindR_def split: sum.splits)
    have "list_inv us L g (?ps[k := p])"
      unfolding gp(1) using list_inv_insert [OF lst lock [unfolded m] k A_insert h' new [OF b] gp(2)] .
    then show ?thesis using lock k A_insert gp by (auto intro: lock_inv_keep)
  next
    case A_advance
    then have m: "mutex ?g = Some k" using lock_owner [OF lock k] by simp
    obtain q where q: "Advance (g_heap ?g) (g_pos ?g) = Inr q"
      and gp: "g = ?g\<lparr>g_pos := q\<rparr>" "p = ?p\<lparr>a_pc := A_unlock\<rparr>"
      using st A_advance by (auto simp: add_proc_def bindR_def split: sum.splits)
    have "list_inv us L g (?ps[k := p])"
      unfolding gp(1) using list_inv_advance [OF lst lock [unfolded m] k A_advance q gp(2)] .
    then show ?thesis using lock k A_advance gp by (auto intro: lock_inv_keep)
  next
    case A_unlock
    then have m: "mutex ?g = Some k" using lock_owner [OF lock k] by simp
    have ci: "c_int (a_i ?p + 1) = a_i ?p + 1" using ai A_unlock uc by (intro c_int_id) (auto simp: adder_inv_def)
    have gp: "g = ?g\<lparr>mutex := None\<rparr>" "p = ?p\<lparr>a_pc := A_lock, a_i := a_i ?p + 1\<rparr>"
      using st A_unlock ci by (auto simp: add_proc_def)
    moreover have "added p = added ?p" using gp A_unlock ai by (simp add: added_def adder_inv_def nat_add_distrib)
    ultimately show ?thesis
      using lock lst m A_unlock k list_inv_update [of k ?ps p g ?g] by (auto intro: lock_inv_release)
  next
    case A_exit
    then show ?thesis using st by (simp add: add_proc_def)
  qed
  with adders show ?thesis by (simp add: threads_inv_def)
qed

lemma threads_inv_init: "threads_inv uc us L (inproc_main h L junk)"
  using built_init [of us h L junk]
  by (simp add: threads_inv_def inproc_main_def lock_inv_def list_inv_def advancing_def Header_def)

text \<open>A new thread holds nothing and has appended nothing.\<close>

lemma threads_inv_new:
  assumes "threads_inv uc us L s" "0 \<le> uc"
  shows "threads_inv uc us L (s\<lparr>adders := adders s @ [\<lparr>a_pc = A_lock, a_i = 0\<rparr>], main := x\<rparr>)"
proof -
  let ?a = "\<lparr>a_pc = A_lock, a_i = 0\<rparr>"
  have "advancing (adders s @ [?a]) = advancing (adders s)"
    by (auto simp: advancing_def nth_append less_Suc_eq)
  moreover have "lock_inv m (adders s) \<Longrightarrow> lock_inv m (adders s @ [?a])" for m
    by (auto simp: lock_inv_def nth_append less_Suc_eq)
  ultimately show ?thesis
    using assms by (auto simp: threads_inv_def list_inv_def adder_inv_def added_def nth_append less_Suc_eq)
qed

text \<open>How far \<open>main\<close> is.\<close>

definition main_inv :: "nat \<Rightarrow> threads \<Rightarrow> bool" where
  "main_inv n s \<longleftrightarrow>
     (case main s of
        M_create i \<Rightarrow> length (adders s) = i \<and> i \<le> n
      | M_join i \<Rightarrow> length (adders s) = n \<and> i \<le> n \<and> (\<forall>j<i. a_pc (adders s ! j) = A_exit)
      | M_return c \<Rightarrow> c = 0 \<and> length (adders s) = n \<and> joinable s
      | M_error c \<Rightarrow> True)"

definition system_inv :: "nat \<Rightarrow> int \<Rightarrow> int \<Rightarrow> addr \<Rightarrow> threads \<Rightarrow> bool" where
  "system_inv n uc us L s \<longleftrightarrow> 0 \<le> uc \<and> uc < 2 ^ 31 \<and> threads_inv uc us L s \<and> main_inv n s"

lemma exited_stays: "add_proc uc us blk k g p = Some r \<Longrightarrow> a_pc p \<noteq> A_exit"
  by (auto simp: add_proc_def)

lemma system_inv_step:
  assumes "add_step n uc us s s'" "system_inv n uc us L s"
  shows "system_inv n uc us L s'"
  using assms(1)
proof cases
  case (run k blk g p)
  have "threads_inv uc us L s'"
    using threads_inv_step [OF _ _ run(3,4) run(5)] run(1) assms(2) by (simp add: system_inv_def)
  moreover have "a_pc ((adders s)[k := p] ! j) = A_exit" if "a_pc (adders s ! j) = A_exit" for j
    using that exited_stays [OF run(4)] by (cases "j = k") auto
  then have "main_inv n s'"
    using assms(2) run(1,2) by (auto simp: system_inv_def main_inv_def alive_def split: main_pc.splits)
  ultimately show ?thesis using assms(2) by (simp add: system_inv_def)
next
  case (fatal k e)
  with assms(2) show ?thesis
    by (simp add: system_inv_def threads_inv_def main_inv_def joinable_def split: main_pc.splits)
next
  case (main ok)
  show ?thesis
  proof (cases "main s")
    case (M_create i)
    then show ?thesis
      using main assms(2) threads_inv_new [of uc us L s]
      by (auto simp: main_step_def system_inv_def main_inv_def threads_inv_def split: if_splits)
  next
    case (M_join i)
    then show ?thesis
      using main assms(2)
      by (auto simp: main_step_def system_inv_def main_inv_def threads_inv_def joinable_def less_Suc_eq
          split: if_splits)
  qed (use main in \<open>simp_all add: main_step_def\<close>)
qed

text \<open>Whoever holds the lock can move; whoever waits can move when nobody holds it.\<close>

lemma add_proc_runs:
  assumes inv: "threads_inv uc us L s" and k: "k < length (adders s)"
    and new: "\<And>b. blk = Some b \<Longrightarrow> b \<notin> dom (g_heap (globals s))"
  shows "(\<exists>x. add_proc uc us blk k (globals s) (adders s ! k) = Some (Inr x)) \<or>
    (blk = None \<and> add_proc uc us blk k (globals s) (adders s ! k) = Some (Inl (ExitCall 1))) \<or>
    a_pc (adders s ! k) = A_exit \<or> (a_pc (adders s ! k) = A_lock \<and> mutex (globals s) \<noteq> None)"
proof (cases "a_pc (adders s ! k)")
  case A_insert
  have lock: "lock_inv (mutex (globals s)) (adders s)" and lst: "list_inv us L (globals s) (adders s)"
    using inv by (simp_all add: threads_inv_def)
  have "\<not> advancing (adders s)"
    using lock_owner [OF lock k] A_insert by (simp add: advancing_lock [OF lock])
  then have blt: "built us (g_heap (globals s)) L (g_pos (globals s)) (int (sum_list (map added (adders s))))"
    using lst by (simp add: list_inv_def)
  show ?thesis
  proof (cases blk)
    case None
    then show ?thesis using A_insert by (simp add: add_proc_def List_Insert_def bindR_def)
  next
    case (Some b)
    with insert_half_built [OF blt new [OF Some]] A_insert show ?thesis by (auto simp: add_proc_def bindR_def)
  qed
next
  case A_advance
  then have "advancing (adders s)" using k by (auto simp: advancing_def)
  then show ?thesis
    using inv A_advance by (auto simp: threads_inv_def list_inv_def half_built_def add_proc_def bindR_def)
qed (auto simp: add_proc_def)

lemma add_stuck:
  assumes inv: "system_inv n uc us L s" and stuck: "\<nexists>s'. add_step n uc us s s'" and run: "\<not> aborted s"
  shows "main s = M_return 0 \<or> (\<exists>c. main s = M_error c)"
proof (rule ccontr)
  assume no: "\<not> ?thesis"
  then have al: "alive s"
    using run inv by (cases "main s") (auto simp: alive_def system_inv_def main_inv_def)
  have thr: "threads_inv uc us L s" using inv by (simp add: system_inv_def)
  have blocked: "a_pc (adders s ! k) = A_exit \<or> (a_pc (adders s ! k) = A_lock \<and> mutex (globals s) \<noteq> None)"
    if k: "k < length (adders s)" for k
    using add_proc_runs [OF thr k, of None] stuck add_step.run [OF al k, of uc us None]
      add_step.fatal [OF al k, of uc us] by fastforce
  have "mutex (globals s) = None"
  proof (cases "mutex (globals s)")
    case (Some k)
    then have "k < length (adders s)" "a_pc (adders s ! k) \<in> {A_insert, A_advance, A_unlock}"
      using thr by (auto simp: threads_inv_def lock_inv_def)
    with blocked [of k] show ?thesis by auto
  qed
  with blocked have "a_pc (adders s ! k) = A_exit" if "k < length (adders s)" for k using that by blast
  then have "main_step n True s \<noteq> None"
    using al inv by (cases "main s") (auto simp: main_step_def alive_def system_inv_def main_inv_def)
  with stuck add_step.main [OF al] show False by fastforce
qed

fun a_rank :: "add_pc \<Rightarrow> nat" where
  "a_rank A_lock = 5" | "a_rank A_insert = 4" | "a_rank A_advance = 3" | "a_rank A_unlock = 2" | "a_rank A_exit = 0"

definition a_measure :: "int \<Rightarrow> adder \<Rightarrow> nat" where
  "a_measure uc p = 6 * nat (uc - a_i p) + a_rank (a_pc p)"

text \<open>What \<open>main\<close> has still to do, with all that the threads it has not started will do.\<close>

definition main_left :: "nat \<Rightarrow> int \<Rightarrow> main_pc \<Rightarrow> nat" where
  "main_left n uc m =
     (case m of M_create i \<Rightarrow> (n - i) * (6 * nat uc + 7) + n + 2 | M_join i \<Rightarrow> n - i + 1 | _ \<Rightarrow> 0)"

definition threads_measure :: "nat \<Rightarrow> int \<Rightarrow> threads \<Rightarrow> nat" where
  "threads_measure n uc s =
     sum_list (map (a_measure uc) (adders s)) + main_left n uc (main s) + (if aborted s then 0 else 1)"

lemma a_measure_less:
  assumes "adder_inv uc p" "uc < 2 ^ 31" "add_proc uc us blk k g p = Some (Inr (g', p'))"
  shows "a_measure uc p' < a_measure uc p"
proof -
  have "c_int (a_i p + 1) = a_i p + 1" if "a_pc p = A_unlock"
    using assms(1,2) that by (intro c_int_id) (auto simp: adder_inv_def)
  then show ?thesis
    using assms by (cases "a_pc p")
      (auto simp: add_proc_def adder_inv_def a_measure_def bindR_def split: if_split_asm sum.splits)
qed

lemma threads_measure_less:
  assumes "add_step n uc us s s'" "system_inv n uc us L s"
  shows "threads_measure n uc s' < threads_measure n uc s"
  using assms(1)
proof cases
  case (run k blk g p)
  then have "a_measure uc p < a_measure uc (adders s ! k)"
    using assms(2) by (intro a_measure_less) (auto simp: system_inv_def threads_inv_def)
  with run show ?thesis by (simp add: threads_measure_def sum_list_update_less)
next
  case (fatal k e)
  then show ?thesis by (simp add: threads_measure_def alive_def)
next
  case (main ok)
  show ?thesis
  proof (cases "main s")
    case (M_create i)
    have "(n - i) * w = (n - Suc i) * w + w" if "i < n" for w
      using that by (metis Suc_diff_Suc add.commute mult_Suc)
    with main M_create show ?thesis
      by (auto simp: main_step_def threads_measure_def main_left_def a_measure_def split: if_splits)
  qed (use main in \<open>auto simp: main_step_def threads_measure_def main_left_def split: if_splits\<close>)
qed

interpretation thread_system: step_system "add_step n uc us"
    "\<lambda>s. 0 \<le> uc \<and> uc < 2 ^ 31 \<and> (\<exists>h junk. s = inproc_main h L junk)" "system_inv n uc us L"
    "threads_measure n uc" for n uc us L
proof unfold_locales
  show "system_inv n uc us L s" if "0 \<le> uc \<and> uc < 2 ^ 31 \<and> (\<exists>h junk. s = inproc_main h L junk)" for s
    using that threads_inv_init by (auto simp: system_inv_def main_inv_def) (simp add: inproc_main_def)
qed (use system_inv_step threads_measure_less in blast)+

lemma joinable_added:
  assumes "threads_inv uc us L s" "joinable s"
  shows "sum_list (map added (adders s)) = length (adders s) * nat uc"
proof -
  have "map added (adders s) = replicate (length (adders s)) (nat uc)"
    using assms by (auto simp: list_eq_iff_nth_eq threads_inv_def joinable_def adder_inv_def added_def)
  then show ?thesis by (simp add: sum_list_replicate)
qed

text \<open>
  C15. The in-process benchmark never loses or duplicates an append, whatever the interleaving of \<open>main\<close> and
  the threads it starts: no run is infinite, and when nothing can move and \<open>malloc\<close> has not failed,
  either a call of \<open>main\<close> failed and it returned, or \<open>main\<close> returned 0 after all its threads have exited
  and the list holds \<open>thread_count * update_count\<close> elements.
\<close>

theorem inproc_threads_complete:
  assumes "0 \<le> uc" "uc < 2 ^ 31"
  shows "(\<nexists>f. f 0 = inproc_main h L junk \<and> (\<forall>i. add_step n uc us (f i) (f (Suc i)))) \<and>
    (\<forall>s. (add_step n uc us)\<^sup>*\<^sup>* (inproc_main h L junk) s \<longrightarrow> (\<nexists>s'. add_step n uc us s s') \<longrightarrow> \<not> aborted s \<longrightarrow>
       (\<exists>c. main s = M_error c) \<or>
       (main s = M_return 0 \<and> length (adders s) = n \<and> joinable s \<and>
        built us (g_heap (globals s)) L (g_pos (globals s)) (int n * uc)))"
proof (intro conjI allI impI)
  have init: "0 \<le> uc \<and> uc < 2 ^ 31 \<and> (\<exists>h' junk'. inproc_main h L junk = inproc_main h' L junk')"
    using assms by blast
  show "\<nexists>f. f 0 = inproc_main h L junk \<and> (\<forall>i. add_step n uc us (f i) (f (Suc i)))"
    using thread_system.no_infinite_run [OF init] .
  fix s
  assume run: "(add_step n uc us)\<^sup>*\<^sup>* (inproc_main h L junk) s" and stop: "\<nexists>s'. add_step n uc us s s'" "\<not> aborted s"
  have inv: "system_inv n uc us L s" using thread_system.inv_reachable [OF run init] .
  consider "\<exists>c. main s = M_error c" | "main s = M_return 0" using add_stuck [OF inv stop] by blast
  then show "(\<exists>c. main s = M_error c) \<or>
       (main s = M_return 0 \<and> length (adders s) = n \<and> joinable s \<and>
        built us (g_heap (globals s)) L (g_pos (globals s)) (int n * uc))"
  proof cases
    case 2
    then have join: "joinable s" "length (adders s) = n" and thr: "threads_inv uc us L s"
      using inv by (auto simp: system_inv_def main_inv_def)
    have "\<not> advancing (adders s)" using join by (auto simp: joinable_def advancing_def)
    then have "built us (g_heap (globals s)) L (g_pos (globals s)) (int n * uc)"
      using thr join joinable_added [OF thr join(1)] assms(1) by (simp add: threads_inv_def list_inv_def)
    with 2 join show ?thesis by simp
  qed simp
qed

text \<open>One thread with nothing to do: it is created, exits and is joined.\<close>

definition demo_threads :: "adder list \<Rightarrow> main_pc \<Rightarrow> threads" where
  "demo_threads ps m =
     \<lparr>globals = \<lparr>mutex = None, g_heap = [1 \<mapsto> \<lparr>Element = 0, Next = None\<rparr>], g_pos = Header (Some 1)\<rparr>,
      adders = ps, main = m, aborted = False\<rparr>"

lemma demo_threads_main:
  "\<not> ended m \<Longrightarrow> main_step 1 True (demo_threads ps m) = Some s' \<Longrightarrow> add_step 1 0 10 (demo_threads ps m) s'"
  by (rule add_step.main [of _ _ True]) (simp_all add: alive_def demo_threads_def)

lemma demo_threads_reached:
  "(add_step 1 0 10)\<^sup>*\<^sup>* (demo_threads [] (M_create 0)) (demo_threads [\<lparr>a_pc = A_exit, a_i = 0\<rparr>] (M_return 0))"
proof -
  have s1: "add_step 1 0 10 (demo_threads [] (M_create 0)) (demo_threads [\<lparr>a_pc = A_lock, a_i = 0\<rparr>] (M_create 1))"
    by (rule demo_threads_main) (simp_all add: main_step_def demo_threads_def)
  have "add_proc 0 10 None 0 (globals (demo_threads [\<lparr>a_pc = A_lock, a_i = 0\<rparr>] (M_create 1)))
      (adders (demo_threads [\<lparr>a_pc = A_lock, a_i = 0\<rparr>] (M_create 1)) ! 0) =
      Some (Inr (globals (demo_threads [] (M_create 0)), \<lparr>a_pc = A_exit, a_i = 0\<rparr>))"
    by (simp add: demo_threads_def add_proc_def)
  from add_step.run [OF _ _ this, of 1] have s2: "add_step 1 0 10 (demo_threads [\<lparr>a_pc = A_lock, a_i = 0\<rparr>] (M_create 1))
      (demo_threads [\<lparr>a_pc = A_exit, a_i = 0\<rparr>] (M_create 1))"
    by (simp add: demo_threads_def alive_def)
  have s3: "add_step 1 0 10 (demo_threads [\<lparr>a_pc = A_exit, a_i = 0\<rparr>] (M_create 1))
      (demo_threads [\<lparr>a_pc = A_exit, a_i = 0\<rparr>] (M_join 0))"
    by (rule demo_threads_main) (simp_all add: main_step_def demo_threads_def)
  have s4: "add_step 1 0 10 (demo_threads [\<lparr>a_pc = A_exit, a_i = 0\<rparr>] (M_join 0))
      (demo_threads [\<lparr>a_pc = A_exit, a_i = 0\<rparr>] (M_join 1))"
    by (rule demo_threads_main) (simp_all add: main_step_def demo_threads_def)
  have s5: "add_step 1 0 10 (demo_threads [\<lparr>a_pc = A_exit, a_i = 0\<rparr>] (M_join 1))
      (demo_threads [\<lparr>a_pc = A_exit, a_i = 0\<rparr>] (M_return 0))"
    by (rule demo_threads_main) (simp_all add: main_step_def demo_threads_def)
  note run = r_into_rtranclp [of "add_step 1 0 10", OF s5]
  note run = converse_rtranclp_into_rtranclp [of "add_step 1 0 10", OF s4 run]
  note run = converse_rtranclp_into_rtranclp [of "add_step 1 0 10", OF s3 run]
  note run = converse_rtranclp_into_rtranclp [of "add_step 1 0 10", OF s2 run]
  show ?thesis using converse_rtranclp_into_rtranclp [of "add_step 1 0 10", OF s1 run] .
qed

lemma demo_threads_stuck: "\<nexists>s'. add_step 1 0 10 (demo_threads ps (M_return 0)) s'"
  by (auto simp: demo_threads_def alive_def elim!: add_step.cases)

theorem inproc_threads_complete_witness:
  "(\<nexists>f. f 0 = inproc_main Map.empty 1 \<lparr>Element = 0, Next = None\<rparr> \<and> (\<forall>i. add_step 3 4 10 (f i) (f (Suc i)))) \<and>
   (\<exists>s. (add_step 1 0 10)\<^sup>*\<^sup>* (inproc_main Map.empty 1 \<lparr>Element = 0, Next = None\<rparr>) s \<and> main s = M_return 0 \<and>
      joinable s \<and> built 10 (g_heap (globals s)) 1 (g_pos (globals s)) 0)"
proof -
  let ?s = "demo_threads [\<lparr>a_pc = A_exit, a_i = 0\<rparr>] (M_return 0)"
  have zero: "int 1 * 0 = (0::int)" "(0::int) \<le> 0" "(0::int) < 2 ^ 31" "(0::int) \<le> 4" "(4::int) < 2 ^ 31" by simp_all
  have start: "inproc_main Map.empty 1 \<lparr>Element = 0, Next = None\<rparr> = demo_threads [] (M_create 0)"
    by (simp add: inproc_main_def demo_threads_def)
  have "\<not> aborted ?s" "main ?s = M_return 0" by (simp_all add: demo_threads_def)
  with inproc_threads_complete [OF zero(2,3), of Map.empty 1 "\<lparr>Element = 0, Next = None\<rparr>" 1 10, unfolded zero(1)]
    demo_threads_stuck [of "[\<lparr>a_pc = A_exit, a_i = 0\<rparr>]"] demo_threads_reached
  have "joinable ?s \<and> built 10 (g_heap (globals ?s)) 1 (g_pos (globals ?s)) 0"
    unfolding start by fastforce
  then have "\<exists>s. (add_step 1 0 10)\<^sup>*\<^sup>* (demo_threads [] (M_create 0)) s \<and> main s = M_return 0 \<and>
      joinable s \<and> built 10 (g_heap (globals s)) 1 (g_pos (globals s)) 0"
    using demo_threads_reached \<open>main ?s = M_return 0\<close> by blast
  moreover note inproc_threads_complete [OF zero(4,5), THEN conjunct1, of Map.empty 1 "\<lparr>Element = 0, Next = None\<rparr>" 3 10]
  ultimately show ?thesis unfolding start by blast
qed

section \<open>Servers that poll one stream per client\<close>

text \<open>
  \<open>malloc\<close> is a function of the heap; what the \<open>read\<close> calls of one round over the clients return is
  a list of counts, and \<open>env r\<close> is the list of round \<open>r\<close>.
\<close>

record rx =
  x_i :: int
  x_heap :: node_heap
  x_pos :: "addr option"

text \<open>One \<open>read\<close>: only a positive count appends and counts.\<close>

definition recv_one :: "(node_heap \<Rightarrow> addr option) \<Rightarrow> int \<Rightarrow> int \<Rightarrow> rx \<Rightarrow> rx res" where
  "recv_one malloc update_size rs x =
     (if 0 < rs
      then bindR (insert_advance (word_of_int update_size) (x_heap x) (x_pos x) (malloc (x_heap x))) (\<lambda>(h, q).
             Inr \<lparr>x_i = c_int (x_i x + 1), x_heap = h, x_pos = q\<rparr>)
      else Inr x)"

fun recv_round :: "(node_heap \<Rightarrow> addr option) \<Rightarrow> int \<Rightarrow> int list \<Rightarrow> rx \<Rightarrow> rx res" where
  "recv_round malloc us [] x = Inr x"
| "recv_round malloc us (rs # rss) x = bindR (recv_one malloc us rs x) (recv_round malloc us rss)"

partial_function (option) pipe_recv_proc ::
  "(node_heap \<Rightarrow> addr option) \<Rightarrow> int \<Rightarrow> int \<Rightarrow> int \<Rightarrow> (nat \<Rightarrow> int list) \<Rightarrow> nat \<Rightarrow> rx \<Rightarrow> rx res option" where
  "pipe_recv_proc malloc thread_count update_count update_size env r x =
     (if x_i x < c_int (thread_count * update_count)
      then (case recv_round malloc update_size (env r) x of
              Inl e \<Rightarrow> Some (Inl e)
            | Inr x' \<Rightarrow> pipe_recv_proc malloc thread_count update_count update_size env (Suc r) x')
      else Some (Inr x))"

text \<open>
  \<open>dns_ipc\<close> first accepts every client; when that fails \<open>recv_proc\<close> returns with the list untouched.
  Its polling loop differs from the one above in the message for a failed \<open>read\<close> only.
\<close>

definition dns_recv_proc ::
  "(node_heap \<Rightarrow> addr option) \<Rightarrow> int \<Rightarrow> int \<Rightarrow> int \<Rightarrow> int list \<Rightarrow> (nat \<Rightarrow> int list) \<Rightarrow> rx \<Rightarrow> rx res option" where
  "dns_recv_proc malloc thread_count update_count update_size accepts env x =
     (if \<exists>c\<in>set accepts. c < 0 then Some (Inr x)
      else pipe_recv_proc malloc thread_count update_count update_size env 0 (x\<lparr>x_i := 0\<rparr>))"

text \<open>How many messages \<open>send_proc\<close> got into the stream, given what its \<open>write\<close> calls returned.\<close>

fun pipe_send_proc :: "int list \<Rightarrow> nat" where
  "pipe_send_proc [] = 0"
| "pipe_send_proc (ws # wss) = (if ws < 0 then 0 else 1) + pipe_send_proc wss"

text \<open>\<open>main\<close> of \<open>pipe_ipc\<close> up to the work: what \<open>open\<close> returned per pipe decides.\<close>

definition pipe_main :: "char \<Rightarrow> int list \<Rightarrow> int + unit" where
  "pipe_main execution_mode fds =
     (if execution_mode \<noteq> CHR ''s'' \<and> execution_mode \<noteq> CHR ''c'' then Inl (-1)
      else if \<exists>fd\<in>set fds. fd < 0 then Inl (-1)
      else Inr ())"

text \<open>The server's state before \<open>recv_proc\<close>: an empty list.\<close>

definition rx_init :: "node_heap \<Rightarrow> addr \<Rightarrow> Node \<Rightarrow> rx" where
  "rx_init h L junk = \<lparr>x_i = 0, x_heap = h(L \<mapsto> junk\<lparr>Next := None\<rparr>), x_pos = Header (Some L)\<rparr>"

definition malloc_ok :: "(node_heap \<Rightarrow> addr option) \<Rightarrow> bool" where
  "malloc_ok malloc \<longleftrightarrow> (\<forall>h. finite (dom h) \<longrightarrow> (\<exists>b. malloc h = Some b \<and> b \<notin> dom h))"

abbreviation positives :: "int list \<Rightarrow> nat" where
  "positives rss \<equiv> length (filter (\<lambda>rs. 0 < rs) rss)"

definition received :: "(nat \<Rightarrow> int list) \<Rightarrow> nat \<Rightarrow> nat \<Rightarrow> nat" where
  "received env r n = (\<Sum>k<n. positives (env (r + k)))"

text \<open>A server's list so far.\<close>

definition rx_ok :: "int \<Rightarrow> addr \<Rightarrow> rx \<Rightarrow> bool" where
  "rx_ok us L x \<longleftrightarrow> 0 \<le> x_i x \<and> finite (dom (x_heap x)) \<and> built us (x_heap x) L (x_pos x) (x_i x)"

lemma recv_one_ok:
  assumes "rx_ok us L x" "malloc_ok malloc" "x_i x + 1 < 2 ^ 31" "0 < rs"
  shows "\<exists>x'. recv_one malloc us rs x = Inr x' \<and> rx_ok us L x' \<and> x_i x' = x_i x + 1"
proof -
  obtain b where b: "malloc (x_heap x) = Some b" "b \<notin> dom (x_heap x)"
    using assms(1,2) by (auto simp: rx_ok_def malloc_ok_def)
  moreover have "c_int (x_i x + 1) = x_i x + 1" using assms(1,3) by (intro c_int_id) (auto simp: rx_ok_def)
  ultimately show ?thesis
    using insert_advance_built [of us "x_heap x" L "x_pos x" "x_i x" b] assms(1,4)
    by (auto simp: recv_one_def rx_ok_def bindR_def)
qed

lemma recv_round_ok:
  assumes "rx_ok us L x" "malloc_ok malloc" "x_i x + int (positives rss) < 2 ^ 31"
  shows "\<exists>x'. recv_round malloc us rss x = Inr x' \<and> rx_ok us L x' \<and> x_i x' = x_i x + int (positives rss)"
  using assms
proof (induction rss arbitrary: x)
  case (Cons rs rss)
  show ?case
  proof (cases "0 < rs")
    case True
    with Cons.prems recv_one_ok [of us L x malloc rs] obtain x1 where
      x1: "recv_one malloc us rs x = Inr x1" "rx_ok us L x1" "x_i x1 = x_i x + 1" by auto
    with Cons.IH [of x1] Cons.prems True show ?thesis by (auto simp: bindR_def)
  next
    case False
    with Cons.IH [of x] Cons.prems show ?thesis by (simp add: recv_one_def bindR_def)
  qed
qed simp

lemma received_Suc: "received env r (Suc n) = positives (env r) + received env (Suc r) n"
  unfolding received_def sum.lessThan_Suc_shift by simp

text \<open>A server returns when enough reads have been positive, with at most one round too many.\<close>

lemma pipe_recv_returns:
  assumes "rx_ok us L x" "malloc_ok malloc" "c_int (tc * uc) = tc * uc"
    "tc * uc \<le> x_i x + int (received env r n)"
    "\<And>r. int (positives (env r)) \<le> tc" "tc * uc + tc < 2 ^ 31" "0 \<le> tc * uc"
  shows "\<exists>x' m. pipe_recv_proc malloc tc uc us env r x = Some (Inr x') \<and> rx_ok us L x' \<and> m \<le> n \<and>
    x_i x' = x_i x + int (received env r m) \<and> tc * uc \<le> x_i x' \<and> (x_i x' < tc * uc + tc \<or> x_i x' = x_i x)"
  using assms
proof (induction n arbitrary: r x)
  case 0
  then show ?case
    by (intro exI [of _ x] exI [of _ 0]) (subst pipe_recv_proc.simps, simp add: received_def)
next
  case (Suc n)
  show ?case
  proof (cases "x_i x < tc * uc")
    case False
    then show ?thesis
      using Suc.prems by (intro exI [of _ x] exI [of _ 0]) (subst pipe_recv_proc.simps, simp add: received_def)
  next
    case True
    have pos: "int (positives (env r)) \<le> tc" using Suc.prems(5) .
    with True Suc.prems(6) have "x_i x + int (positives (env r)) < 2 ^ 31" by linarith
    with recv_round_ok [OF Suc.prems(1,2)] obtain x1 where
      x1: "recv_round malloc us (env r) x = Inr x1" "rx_ok us L x1" "x_i x1 = x_i x + int (positives (env r))"
      by blast
    have run: "pipe_recv_proc malloc tc uc us env r x = pipe_recv_proc malloc tc uc us env (Suc r) x1"
      using True x1(1) Suc.prems(3) by (subst pipe_recv_proc.simps) simp
    have "\<exists>x' m. pipe_recv_proc malloc tc uc us env (Suc r) x1 = Some (Inr x') \<and> rx_ok us L x' \<and> m \<le> n \<and>
        x_i x' = x_i x1 + int (received env (Suc r) m) \<and> tc * uc \<le> x_i x' \<and>
        (x_i x' < tc * uc + tc \<or> x_i x' = x_i x1)"
      using Suc.prems x1 pos True by (intro Suc.IH) (simp_all add: received_Suc)
    then obtain x' m where x': "pipe_recv_proc malloc tc uc us env (Suc r) x1 = Some (Inr x')" "rx_ok us L x'"
      "m \<le> n" "x_i x' = x_i x1 + int (received env (Suc r) m)" "tc * uc \<le> x_i x'"
      "x_i x' < tc * uc + tc \<or> x_i x' = x_i x1" by blast
    then show ?thesis
      using run x1(3) pos True by (intro exI [of _ x'] exI [of _ "Suc m"]) (auto simp: received_Suc)
  qed
qed

definition needs :: "(node_heap \<Rightarrow> addr option) \<Rightarrow> int \<Rightarrow> int \<Rightarrow> int \<Rightarrow> addr \<Rightarrow> (nat \<Rightarrow> int list) \<Rightarrow> nat \<Rightarrow> rx \<Rightarrow> bool"
where
  "needs malloc tc uc us L env r x \<longleftrightarrow>
     (rx_ok us L x \<longrightarrow> malloc_ok malloc \<longrightarrow> c_int (tc * uc) = tc * uc \<longrightarrow>
      (\<forall>r. int (positives (env r)) \<le> tc) \<longrightarrow> tc * uc + tc < 2 ^ 31 \<longrightarrow>
      (\<exists>n. tc * uc \<le> x_i x + int (received env r n)))"

lemma pipe_recv_needs:
  assumes "pipe_recv_proc malloc tc uc us env r x = Some y"
  shows "needs malloc tc uc us L env r x"
proof -
  let ?P = "\<lambda>malloc tc uc us env r x (y :: rx res). needs malloc tc uc us L env r x"
  have "?P malloc tc uc us env r x y"
  proof (rule pipe_recv_proc.raw_induct [where P = ?P and xa = "((((((malloc, tc), uc), us), env), r), x)",
        unfolded prod.case, OF _ assms])
    fix rec malloc tc uc us env r x y
    assume IH: "\<And>malloc tc uc us env r x y. rec malloc tc uc us env r x = Some y \<Longrightarrow>
        needs malloc tc uc us L env r x"
      and body: "(if x_i x < c_int (tc * uc)
        then (case recv_round malloc us (env r) x of Inl e \<Rightarrow> Some (Inl e)
              | Inr x' \<Rightarrow> rec malloc tc uc us env (Suc r) x')
        else Some (Inr x)) = Some y"
    show "needs malloc tc uc us L env r x"
      unfolding needs_def
  proof (intro impI)
    assume ok: "rx_ok us L x" "malloc_ok malloc" "c_int (tc * uc) = tc * uc"
      "\<forall>r. int (positives (env r)) \<le> tc" "tc * uc + tc < 2 ^ 31"
    show "\<exists>n. tc * uc \<le> x_i x + int (received env r n)"
    proof (cases "x_i x < tc * uc")
      case False
      then show ?thesis by (intro exI [of _ 0]) (simp add: received_def)
    next
      case True
      have "int (positives (env r)) \<le> tc" using ok(4) ..
      with True ok(5) have "x_i x + int (positives (env r)) < 2 ^ 31" by linarith
      with recv_round_ok [OF ok(1,2)] obtain x1 where
        x1: "recv_round malloc us (env r) x = Inr x1" "rx_ok us L x1" "x_i x1 = x_i x + int (positives (env r))"
        by blast
      with body True ok(3) have "needs malloc tc uc us L env (Suc r) x1" by (intro IH [of _ _ _ _ _ _ _ y]) simp
      then obtain n where "tc * uc \<le> x_i x1 + int (received env (Suc r) n)"
        using x1(2) ok unfolding needs_def by blast
      with x1(3) show ?thesis by (intro exI [of _ "Suc n"]) (simp add: received_Suc)
    qed
  qed
  qed
  then show ?thesis by simp
qed

text \<open>
  C29. The polling server of the pipe benchmark returns exactly when enough \<open>read\<close> calls are positive,
  whatever their counts; while they are not it polls forever.  The list it leaves has as many elements
  as reads were counted: at least \<open>thread_count * update_count\<close>, and less than \<open>thread_count\<close> more,
  because the inner loop does not look at the count.
\<close>

theorem pipe_server_returns_iff:
  assumes "args_ok tc uc" "tc * uc + tc < 2 ^ 31" "malloc_ok malloc" "finite (dom h)"
    "\<And>r. length (env r) \<le> nat tc"
  shows "((\<exists>y. pipe_recv_proc malloc tc uc us env 0 (rx_init h L junk) = Some y) \<longleftrightarrow>
      (\<exists>n. tc * uc \<le> int (received env 0 n))) \<and>
    (\<forall>y. pipe_recv_proc malloc tc uc us env 0 (rx_init h L junk) = Some y \<longrightarrow>
      (\<exists>x'. y = Inr x' \<and> built us (x_heap x') L (x_pos x') (x_i x') \<and>
         tc * uc \<le> x_i x' \<and> (x_i x' < tc * uc + tc \<or> x_i x' = 0)))"
proof -
  let ?x = "rx_init h L junk"
  have ok: "rx_ok us L ?x" unfolding rx_init_def rx_ok_def using built_init assms(4) by (simp add: Header_def)
  have x0: "x_i ?x = 0" by (simp add: rx_init_def)
  have pos: "int (positives (env r)) \<le> tc" for r
  proof -
    have "int (positives (env r)) \<le> int (length (env r))" by simp
    also have "\<dots> \<le> int (nat tc)" using assms(5) by (simp only: of_nat_le_iff)
    finally show ?thesis using assms(1) by (simp add: args_ok_def)
  qed
  have tot: "0 \<le> tc * uc" using assms(1) by (simp add: args_ok_def)
  have "- (2 ^ 31) \<le> tc * uc" by (rule order_trans [OF _ tot]) simp
  then have ci: "c_int (tc * uc) = tc * uc"
    using assms(1) by (intro c_int_id) (simp_all add: args_ok_def mult.commute)
  have ret: "\<exists>x'. pipe_recv_proc malloc tc uc us env 0 ?x = Some (Inr x') \<and>
      built us (x_heap x') L (x_pos x') (x_i x') \<and> tc * uc \<le> x_i x' \<and> (x_i x' < tc * uc + tc \<or> x_i x' = 0)"
    if "tc * uc \<le> int (received env 0 n)" for n
    using pipe_recv_returns [OF ok assms(3) ci _ _ assms(2) tot, where r = 0 and n = n and env = env] that pos x0
    by (auto simp: rx_ok_def)
  have need: "\<exists>n. tc * uc \<le> int (received env 0 n)"
    if "pipe_recv_proc malloc tc uc us env 0 ?x = Some y" for y
    using pipe_recv_needs [OF that, of L] ok assms(2,3) ci pos x0 by (simp add: needs_def)
  show ?thesis using ret need by (metis option.inject)
qed

definition demo_malloc :: "node_heap \<Rightarrow> addr option" where
  "demo_malloc h = Some (if finite (dom h) then Suc (Max (insert 0 (dom h))) else 0)"

lemma demo_malloc_ok: "malloc_ok demo_malloc"
  unfolding malloc_ok_def
proof (intro allI impI)
  fix h :: node_heap
  assume fin: "finite (dom h)"
  have "Suc (Max (insert 0 (dom h))) \<notin> dom h"
  proof
    assume "Suc (Max (insert 0 (dom h))) \<in> dom h"
    then have "Suc (Max (insert 0 (dom h))) \<le> Max (insert 0 (dom h))" using fin by (intro Max_ge) auto
    then show False by simp
  qed
  with fin show "\<exists>b. demo_malloc h = Some b \<and> b \<notin> dom h" by (simp add: demo_malloc_def)
qed

theorem pipe_server_returns_iff_witness:
  "(\<exists>y. pipe_recv_proc demo_malloc 2 3 10 (\<lambda>r. [4, 0]) 0 (rx_init Map.empty 1 \<lparr>Element = 0, Next = None\<rparr>) = Some y) \<and>
   \<not> (\<exists>y. pipe_recv_proc demo_malloc 2 3 10 (\<lambda>r. [0, -1]) 0 (rx_init Map.empty 1 \<lparr>Element = 0, Next = None\<rparr>) = Some y)"
proof -
  have args: "args_ok 2 3" "(2::int) * 3 + 2 < 2 ^ 31" "finite (dom (Map.empty :: node_heap))"
    by (simp_all add: args_ok_def)
  have len: "length ((\<lambda>r. [4, 0 :: int]) (r :: nat)) \<le> nat 2" "length ((\<lambda>r. [0, -1 :: int]) (r :: nat)) \<le> nat 2" for r
    by simp_all
  have "(2::int) * 3 \<le> int (received (\<lambda>r. [4, 0]) 0 6)" "\<not> (2::int) * 3 \<le> int (received (\<lambda>r. [0, -1]) 0 n)" for n
    by (simp_all add: received_def)
  with pipe_server_returns_iff [OF args(1,2) demo_malloc_ok args(3) len(1)]
    pipe_server_returns_iff [OF args(1,2) demo_malloc_ok args(3) len(2)] show ?thesis by blast
qed

end
