(* ===== verification/NanoBench.thy ===== *)
theory NanoBench
  imports Benchmarks
begin

text \<open>
  The remaining benchmark programs of \<open>nano_benchmarking\<close>: the nanomsg pipeline between processes
  (\<open>ipc/nano_ipc/nano_ipc.c\<close>; \<open>tcp/nano_tcp/nano_tcp.c\<close> has the same loops) and between threads
  (\<open>inproc/nano_inproc/nano_inproc.c\<close>, and its predecessor in \<open>exploration/nanomsg_exploration\<close>), the single pipe (\<open>ipc/pipe_ipc/pipe_ipc_single_pipe.c\<close>) and the
  TCP sockets (\<open>tcp/socket_tcp/socket_tcp.c\<close>).  What the library and system calls return is an argument.
\<close>

section \<open>Definitions\<close>

text \<open>
  \<open>nano_ipc\<close>: call number \<open>r\<close> of \<open>nn_send\<close> or \<open>nn_recv\<close> returns \<open>fst (env r)\<close>; \<open>snd (env r)\<close> says
  whether \<open>errno\<close> is \<open>EAGAIN\<close> then.  \<open>nano_send_proc\<close> gives the number of messages sent.
\<close>

partial_function (option) nano_send_proc :: "int \<Rightarrow> (nat \<Rightarrow> int \<times> bool) \<Rightarrow> nat \<Rightarrow> int \<Rightarrow> int option" where
  "nano_send_proc update_count env r i =
     (if i < update_count
      then (if fst (env r) < 0
            then (if snd (env r) then nano_send_proc update_count env (Suc r) i else Some i)
            else if fst (env r) = 0 then Some i
            else nano_send_proc update_count env (Suc r) (c_int (i + 1)))
      else Some i)"

text \<open>
  \<open>nano_recv_proc\<close> allocates a buffer in every round; \<open>leaked\<close> counts the rounds that leave by
  \<open>continue\<close> or \<open>break\<close> and so do not free it.
\<close>

record nrx = rx +
  leaked :: nat

partial_function (option) nano_recv_proc ::
  "(node_heap \<Rightarrow> addr option) \<Rightarrow> int \<Rightarrow> int \<Rightarrow> int \<Rightarrow> (nat \<Rightarrow> int \<times> bool) \<Rightarrow> nat \<Rightarrow> nrx \<Rightarrow> nrx res option" where
  "nano_recv_proc malloc thread_count update_count update_size env r x =
     (if x_i x < c_int (thread_count * update_count)
      then (if fst (env r) < 0
            then (if snd (env r)
                  then nano_recv_proc malloc thread_count update_count update_size env (Suc r)
                         (x\<lparr>leaked := leaked x + 1\<rparr>)
                  else Some (Inr (x\<lparr>leaked := leaked x + 1\<rparr>)))
            else if fst (env r) = 0 then Some (Inr (x\<lparr>leaked := leaked x + 1\<rparr>))
            else (case insert_advance (word_of_int update_size) (x_heap x) (x_pos x) (malloc (x_heap x)) of
                    Inl e \<Rightarrow> Some (Inl e)
                  | Inr (h, q) \<Rightarrow>
                      nano_recv_proc malloc thread_count update_count update_size env (Suc r)
                        (x\<lparr>x_i := c_int (x_i x + 1), x_heap := h, x_pos := q\<rparr>)))
      else Some (Inr x))"

text \<open>\<open>nano_inproc\<close>: the result of \<open>nn_recv\<close> decides about a message on the screen only.\<close>

partial_function (option) inproc_recv_proc ::
  "(node_heap \<Rightarrow> addr option) \<Rightarrow> int \<Rightarrow> int \<Rightarrow> int \<Rightarrow> (nat \<Rightarrow> int) \<Rightarrow> nat \<Rightarrow> rx \<Rightarrow> rx res option" where
  "inproc_recv_proc malloc thread_count update_count update_size env r x =
     (if x_i x < c_int (thread_count * update_count)
      then (case insert_advance (word_of_int update_size) (x_heap x) (x_pos x) (malloc (x_heap x)) of
              Inl e \<Rightarrow> Some (Inl e)
            | Inr (h, q) \<Rightarrow>
                inproc_recv_proc malloc thread_count update_count update_size env (Suc r)
                  \<lparr>x_i = c_int (x_i x + 1), x_heap = h, x_pos = q\<rparr>)
      else Some (Inr x))"

text \<open>The single pipe is polled like one client of \<open>pipe_ipc\<close>, the sockets like those of \<open>dns_ipc\<close>.\<close>

definition single_pipe_recv_proc ::
  "(node_heap \<Rightarrow> addr option) \<Rightarrow> int \<Rightarrow> int \<Rightarrow> int \<Rightarrow> (nat \<Rightarrow> int) \<Rightarrow> rx \<Rightarrow> rx res option" where
  "single_pipe_recv_proc malloc thread_count update_count update_size env x =
     pipe_recv_proc malloc thread_count update_count update_size (\<lambda>r. [env r]) 0 (x\<lparr>x_i := 0\<rparr>)"

definition socket_recv_proc ::
  "(node_heap \<Rightarrow> addr option) \<Rightarrow> int \<Rightarrow> int \<Rightarrow> int \<Rightarrow> int list \<Rightarrow> (nat \<Rightarrow> int list) \<Rightarrow> rx \<Rightarrow> rx res option" where
  "socket_recv_proc malloc thread_count update_count update_size accepts env x =
     (if \<exists>c\<in>set accepts. c < 0 then Some (Inr x)
      else pipe_recv_proc malloc thread_count update_count update_size env 0 (x\<lparr>x_i := 0\<rparr>))"

text \<open>
  The sending loops, given what their calls return: how many messages are on the way.  All of them go on
  after a failed call, so that a failed message is lost for the server.
\<close>

definition single_pipe_send_proc :: "nat \<Rightarrow> (nat \<Rightarrow> int) \<Rightarrow> nat" where
  "single_pipe_send_proc update_count env = length (filter (\<lambda>i. 0 < env i) [0..<update_count])"

definition dns_send_proc :: "nat \<Rightarrow> (nat \<Rightarrow> int) \<Rightarrow> nat" where
  "dns_send_proc update_count env = length (filter (\<lambda>i. 0 < env i) [0..<update_count])"

definition socket_send_proc :: "nat \<Rightarrow> (nat \<Rightarrow> int) \<Rightarrow> nat" where
  "socket_send_proc update_count env = length (filter (\<lambda>i. 0 < env i) [0..<update_count])"

definition inproc_send_proc :: "nat \<Rightarrow> (nat \<Rightarrow> int) \<Rightarrow> nat" where
  "inproc_send_proc update_count env = length (filter (\<lambda>i. 0 \<le> env i) [0..<update_count])"

text \<open>\<open>nano_tcp\<close> has the loops of \<open>nano_ipc\<close> over an endpoint with another address.\<close>

definition nano_tcp_send_proc :: "int \<Rightarrow> (nat \<Rightarrow> int \<times> bool) \<Rightarrow> int option" where
  "nano_tcp_send_proc update_count env = nano_send_proc update_count env 0 0"

definition nano_tcp_recv_proc ::
  "(node_heap \<Rightarrow> addr option) \<Rightarrow> int \<Rightarrow> int \<Rightarrow> int \<Rightarrow> (nat \<Rightarrow> int \<times> bool) \<Rightarrow> nrx \<Rightarrow> nrx res option" where
  "nano_tcp_recv_proc malloc thread_count update_count update_size env x =
     nano_recv_proc malloc thread_count update_count update_size env 0 (x\<lparr>x_i := 0\<rparr>)"

text \<open>
  The trial with 30 threads and 10000 updates: its sending threads ignore the socket they are given and
  use socket 1, and its server counts failed calls as well.
\<close>

definition trial_send_sockets :: "int \<Rightarrow> int list" where
  "trial_send_sockets socket_id = replicate 10000 1"

definition trial_recv_proc ::
  "(node_heap \<Rightarrow> addr option) \<Rightarrow> (nat \<Rightarrow> int) \<Rightarrow> rx \<Rightarrow> rx res option" where
  "trial_recv_proc malloc env x = inproc_recv_proc malloc 30 10000 10 env 0 (x\<lparr>x_i := 0\<rparr>)"

text \<open>
  The \<open>main\<close> functions up to the work: \<open>Inl\<close> is the returned status, \<open>Inr\<close> says that the process goes
  on with \<open>recv_proc\<close> (\<open>True\<close>) or \<open>send_proc\<close>.
\<close>

definition nano_main :: "char \<Rightarrow> int \<Rightarrow> int \<Rightarrow> int + bool" where
  "nano_main execution_mode sock eid =
     (if execution_mode \<noteq> CHR ''s'' \<and> execution_mode \<noteq> CHR ''c'' then Inl (-1)
      else if sock < 0 then Inl (-1)
      else if eid < 1 then Inl (-1)
      else Inr (execution_mode = CHR ''s''))"

definition nano_tcp_main :: "char \<Rightarrow> int \<Rightarrow> int \<Rightarrow> int + bool" where
  "nano_tcp_main execution_mode sock eid =
     (if execution_mode \<noteq> CHR ''s'' \<and> execution_mode \<noteq> CHR ''c'' then Inl (-1)
      else if sock < 0 then Inl (-1)
      else if eid < 1 then Inl (-1)
      else Inr (execution_mode = CHR ''s''))"

definition socket_main :: "char \<Rightarrow> int \<Rightarrow> int \<Rightarrow> int \<Rightarrow> int \<Rightarrow> int + bool" where
  "socket_main execution_mode sock setsockopt eid listen =
     (if execution_mode \<noteq> CHR ''s'' \<and> execution_mode \<noteq> CHR ''c'' then Inl (-1)
      else if sock < 0 then Inl (-1)
      else if setsockopt < 0 then Inl (-1)
      else if eid < 0 then Inl (-1)
      else if execution_mode = CHR ''s'' \<and> listen < 0 then Inl (-1)
      else Inr (execution_mode = CHR ''s''))"

definition dns_main :: "char \<Rightarrow> int \<Rightarrow> int \<Rightarrow> int \<Rightarrow> int + bool" where
  "dns_main execution_mode sock eid listen =
     (if execution_mode \<noteq> CHR ''s'' \<and> execution_mode \<noteq> CHR ''c'' then Inl (-1)
      else if sock < 0 then Inl (-1)
      else if eid < 0 then Inl (-1)
      else if execution_mode = CHR ''s'' \<and> listen < 0 then Inl (-1)
      else Inr (execution_mode = CHR ''s''))"

definition single_pipe_main :: "char \<Rightarrow> int \<Rightarrow> int + bool" where
  "single_pipe_main execution_mode fd =
     (if execution_mode \<noteq> CHR ''s'' \<and> execution_mode \<noteq> CHR ''c'' then Inl (-1)
      else if fd < 0 then Inl (-1)
      else Inr (execution_mode = CHR ''s''))"

text \<open>
  \<open>nano_inproc\<close>: the sockets, the endpoints and the results of \<open>pthread_create\<close> and \<open>pthread_join\<close> in the
  order of the program; a failed join returns 0.
\<close>

definition nano_inproc_main ::
  "int \<Rightarrow> int list \<Rightarrow> int \<Rightarrow> int list \<Rightarrow> int \<Rightarrow> int list \<Rightarrow> int list \<Rightarrow> int" where
  "nano_inproc_main server_socket client_sockets bind connects create_server creates joins =
     (if server_socket < 0 then -1
      else if \<exists>c\<in>set client_sockets. c < 0 then -1
      else if bind < 1 then -1
      else if \<exists>r\<in>set connects. r < 1 then -1
      else if create_server \<noteq> 0 then -1
      else if \<exists>e\<in>set creates. e \<noteq> 0 then -1
      else if \<exists>e\<in>set joins. e \<noteq> 0 then 0
      else 0)"

definition trial_nano_main ::
  "int \<Rightarrow> int list \<Rightarrow> int \<Rightarrow> int list \<Rightarrow> int \<Rightarrow> int list \<Rightarrow> int list \<Rightarrow> int" where
  "trial_nano_main server_socket client_sockets bind connects create_server creates joins =
     (if server_socket < 0 then -1
      else if \<exists>c\<in>set client_sockets. c < 0 then -1
      else if bind < 1 then -1
      else if \<exists>r\<in>set connects. r < 1 then -1
      else if create_server \<noteq> 0 then -1
      else if \<exists>e\<in>set creates. e \<noteq> 0 then -1
      else 0)"

section \<open>The nanomsg server\<close>

text \<open>Calls that deliver a message, that ask for a retry, and that end the loop.\<close>

definition got :: "int \<times> bool \<Rightarrow> bool" where
  "got c \<longleftrightarrow> 0 < fst c"

definition retry :: "int \<times> bool \<Rightarrow> bool" where
  "retry c \<longleftrightarrow> fst c < 0 \<and> snd c"

definition gots :: "(nat \<Rightarrow> int \<times> bool) \<Rightarrow> nat \<Rightarrow> nat" where
  "gots env n = length (filter (\<lambda>r. got (env r)) [0..<n])"

lemma gots_Suc: "gots env (Suc n) = gots env n + of_bool (got (env n))"
  by (simp add: gots_def)

lemma gots_le: "gots env n \<le> n"
  unfolding gots_def by (metis length_filter_le length_upt minus_nat.diff_0)

definition nrx_ok :: "int \<Rightarrow> addr \<Rightarrow> nrx \<Rightarrow> bool" where
  "nrx_ok us L x \<longleftrightarrow> 0 \<le> x_i x \<and> finite (dom (x_heap x)) \<and> built us (x_heap x) L (x_pos x) (x_i x)"

definition nrx_init :: "node_heap \<Rightarrow> addr \<Rightarrow> Node \<Rightarrow> nrx" where
  "nrx_init h L junk = \<lparr>x_i = 0, x_heap = h(L \<mapsto> junk\<lparr>Next := None\<rparr>), x_pos = Header (Some L), leaked = 0\<rparr>"

text \<open>The state after \<open>n\<close> calls none of which ended the loop.\<close>

lemma nano_recv_rounds:
  assumes "nrx_ok us L x0" "x_i x0 = 0" "leaked x0 = 0" "malloc_ok malloc"
    "c_int (tc * uc) = tc * uc" "tc * uc < 2 ^ 31"
    "\<And>r. r < n \<Longrightarrow> got (env r) \<or> retry (env r)" "\<And>r. r < n \<Longrightarrow> int (gots env r) < tc * uc"
  shows "\<exists>x. nano_recv_proc malloc tc uc us env 0 x0 = nano_recv_proc malloc tc uc us env n x \<and>
    nrx_ok us L x \<and> x_i x = int (gots env n) \<and> leaked x = n - gots env n"
  using assms(7,8)
proof (induction n)
  case 0
  then show ?case using assms(1,2,3) by (intro exI [of _ x0]) (simp add: gots_def)
next
  case (Suc n)
  then obtain x where x: "nano_recv_proc malloc tc uc us env 0 x0 = nano_recv_proc malloc tc uc us env n x"
    "nrx_ok us L x" "x_i x = int (gots env n)" "leaked x = n - gots env n" by auto
  have lt: "x_i x < tc * uc" using Suc.prems(2) [of n] x(3) by simp
  show ?case
  proof (cases "got (env n)")
    case True
    obtain b where b: "malloc (x_heap x) = Some b" "b \<notin> dom (x_heap x)"
      using assms(4) x(2) by (auto simp: nrx_ok_def malloc_ok_def)
    then obtain h q where hq: "insert_advance (word_of_int us) (x_heap x) (x_pos x) (Some b) = Inr (h, q)"
      "built us h L q (x_i x + 1)" "dom h = insert b (dom (x_heap x))"
      using insert_advance_built [of us "x_heap x" L "x_pos x" "x_i x" b] x(2) by (auto simp: nrx_ok_def)
    have ci: "c_int (x_i x + 1) = x_i x + 1" using lt assms(6) x(3) by (intro c_int_id) auto
    let ?x = "x\<lparr>x_i := c_int (x_i x + 1), x_heap := h, x_pos := q\<rparr>"
    have "nano_recv_proc malloc tc uc us env n x = nano_recv_proc malloc tc uc us env (Suc n) ?x"
      using True lt b hq(1) assms(5) by (subst nano_recv_proc.simps) (simp add: got_def)
    then show ?thesis
      using x hq(2,3) ci True gots_le [of env n] by (intro exI [of _ ?x]) (simp add: nrx_ok_def gots_Suc)
  next
    case False
    then have "retry (env n)" using Suc.prems(1) [of n] by simp
    then have "nano_recv_proc malloc tc uc us env n x =
        nano_recv_proc malloc tc uc us env (Suc n) (x\<lparr>leaked := leaked x + 1\<rparr>)"
      using lt assms(5) by (subst nano_recv_proc.simps) (simp add: retry_def)
    then show ?thesis
      using x False gots_le [of env n]
      by (intro exI [of _ "x\<lparr>leaked := leaked x + 1\<rparr>"]) (simp add: nrx_ok_def gots_Suc Suc_diff_le)
  qed
qed

text \<open>
  C30. The nanomsg server between processes: while calls deliver or ask for a retry it goes on; it returns
  after the call that brings the number of messages to \<open>thread_count * update_count\<close>, with a list of
  that length, or at the first failed call, with the elements received before it.  Every call
  that delivered nothing has leaked its buffer.
\<close>

theorem nano_server_outcome:
  assumes "args_ok tc uc" "malloc_ok malloc" "finite (dom h)"
    "\<And>r. r < n \<Longrightarrow> got (env r) \<or> retry (env r)" "\<And>r. r < n \<Longrightarrow> int (gots env r) < tc * uc"
    "int (gots env n) = tc * uc \<or> \<not> (got (env n) \<or> retry (env n))" "int (gots env n) \<le> tc * uc"
  shows "\<exists>x. nano_recv_proc malloc tc uc us env 0 (nrx_init h L junk) = Some (Inr x) \<and>
    built us (x_heap x) L (x_pos x) (int (gots env n)) \<and>
    leaked x = n - gots env n + (if int (gots env n) = tc * uc then 0 else 1)"
proof -
  have tot: "0 \<le> tc * uc" "tc * uc < 2 ^ 31" using assms(1) by (simp_all add: args_ok_def mult.commute)
  then have ci: "c_int (tc * uc) = tc * uc" by (intro c_int_id order_trans [OF _ tot(1)]) simp_all
  have ok: "nrx_ok us L (nrx_init h L junk)" "x_i (nrx_init h L junk) = 0" "leaked (nrx_init h L junk) = 0"
    using built_init assms(3) by (simp_all add: nrx_ok_def nrx_init_def Header_def)
  obtain x where x: "nano_recv_proc malloc tc uc us env 0 (nrx_init h L junk) =
      nano_recv_proc malloc tc uc us env n x"
    "nrx_ok us L x" "x_i x = int (gots env n)" "leaked x = n - gots env n"
    using nano_recv_rounds [OF ok assms(2) ci tot(2) assms(4,5)] by blast
  show ?thesis
  proof (cases "int (gots env n) = tc * uc")
    case True
    then have "nano_recv_proc malloc tc uc us env n x = Some (Inr x)"
      using x(3) ci by (subst nano_recv_proc.simps) simp
    with x True show ?thesis by (auto simp: nrx_ok_def)
  next
    case False
    then have "x_i x < tc * uc" "\<not> got (env n)" "\<not> retry (env n)" using x(3) assms(6,7) by simp_all
    then have "nano_recv_proc malloc tc uc us env n x = Some (Inr (x\<lparr>leaked := leaked x + 1\<rparr>))"
      using ci by (subst nano_recv_proc.simps) (auto simp: got_def retry_def)
    with x False show ?thesis by (auto simp: nrx_ok_def)
  qed
qed

theorem nano_server_outcome_witness:
  "\<exists>x. nano_recv_proc demo_malloc 1 2 10 (\<lambda>r. if r = 1 then (-1, True) else (4, False)) 0
       (nrx_init Map.empty 1 \<lparr>Element = 0, Next = None\<rparr>) = Some (Inr x) \<and>
     built 10 (x_heap x) 1 (x_pos x) 2 \<and> leaked x = 1"
proof -
  let ?env = "\<lambda>r. if r = 1 then (-1, True) else (4 :: int, False)"
  have g: "gots ?env 0 = 0" "gots ?env 1 = 1" "gots ?env 2 = 1" "gots ?env 3 = 2"
    by (simp_all add: gots_def got_def upt_rec)
  have each: "got (?env r) \<or> retry (?env r)" "r < 3 \<Longrightarrow> int (gots ?env r) < 1 * 2" for r
    using g by (auto simp: got_def retry_def numeral_3_eq_3 less_Suc_eq numeral_2_eq_2)
  have last: "int (gots ?env 3) = 1 * 2" "int (gots ?env 3) \<le> 1 * 2" using g by simp_all
  from nano_server_outcome [of 1 2 demo_malloc Map.empty 3 ?env, OF _ demo_malloc_ok _ each(1,2)
      disjI1 [OF last(1)] last(2), of 10 1 "\<lparr>Element = 0, Next = None\<rparr>"] g(4)
  show ?thesis by (simp add: args_ok_def)
qed

section \<open>The nanomsg server between threads\<close>

text \<open>
  The server thread of \<open>nano_inproc\<close> counts calls, not messages: whatever \<open>nn_recv\<close> returns, errors
  included, it ends with a list of \<open>thread_count * update_count\<close> elements.
\<close>

lemma inproc_recv_counts_calls:
  assumes "rx_ok us L x" "malloc_ok malloc" "c_int (tc * uc) = tc * uc" "tc * uc < 2 ^ 31" "x_i x \<le> tc * uc"
  shows "\<exists>x'. inproc_recv_proc malloc tc uc us env r x = Some (Inr x') \<and> rx_ok us L x' \<and> x_i x' = tc * uc"
  using assms
proof (induction "nat (tc * uc - x_i x)" arbitrary: r x)
  case 0
  then show ?case by (subst inproc_recv_proc.simps) auto
next
  case (Suc n)
  then have lt: "x_i x < tc * uc" by simp
  obtain b where b: "malloc (x_heap x) = Some b" "b \<notin> dom (x_heap x)"
    using Suc.prems(1,2) by (auto simp: rx_ok_def malloc_ok_def)
  then obtain h q where hq: "insert_advance (word_of_int us) (x_heap x) (x_pos x) (Some b) = Inr (h, q)"
    "built us h L q (x_i x + 1)" "dom h = insert b (dom (x_heap x))"
    using insert_advance_built [of us "x_heap x" L "x_pos x" "x_i x" b] Suc.prems(1) by (auto simp: rx_ok_def)
  have ci: "c_int (x_i x + 1) = x_i x + 1" using lt Suc.prems(1,4) by (intro c_int_id) (auto simp: rx_ok_def)
  let ?x = "\<lparr>x_i = c_int (x_i x + 1), x_heap = h, x_pos = q\<rparr>"
  have "inproc_recv_proc malloc tc uc us env r x = inproc_recv_proc malloc tc uc us env (Suc r) ?x"
    using lt b(1) hq(1) Suc.prems(3) by (subst inproc_recv_proc.simps) simp
  moreover have "rx_ok us L ?x" using Suc.prems(1) hq(2,3) ci by (simp add: rx_ok_def)
  ultimately show ?case
    using Suc.hyps(1) [of ?x "Suc r"] Suc.hyps(2) Suc.prems lt ci by simp
qed

text \<open>So the trial builds its 300000 elements whatever it receives.\<close>

lemma trial_recv_counts_calls:
  assumes "rx_ok 10 L x" "x_i x = 0" "malloc_ok malloc"
  shows "\<exists>x'. trial_recv_proc malloc env x = Some (Inr x') \<and> rx_ok 10 L x' \<and> x_i x' = 300000"
proof -
  have c: "c_int (30 * 10000) = 30 * 10000" by (intro c_int_id) simp_all
  have x: "x\<lparr>x_i := 0\<rparr> = x" using assms(2) by (cases x) simp
  from c inproc_recv_counts_calls [of 10 L x malloc 30 10000 env 0] assms show ?thesis
    unfolding trial_recv_proc_def x by simp
qed

end
