(* ===== verification/QueueCapacity.thy ===== *)
theory QueueCapacity
  imports CircularMsgQ
begin

text \<open>
  How much room the queue guarantees.  A message is never split, so up to one message's length stays
  unused in front of the end of the segment after a roll-over, and an empty queue starts wherever the
  last one ended.  If no message is longer than \<open>S\<close>, a queue accepts every message that leaves \<open>S\<close>
  bytes of the segment free.  The unit test of the queue (\<open>test/circular_msgq_test.c\<close>) sends and receives
  one message at a time 50000 times; it passes for every number of times.
\<close>

section \<open>The unit test of the queue\<close>

text \<open>
  The first part of the test, on the queue that \<open>CreateQueue\<close> returned: \<open>Inl (-1)\<close> is \<open>return -1\<close>.
\<close>

definition basic_test :: "view \<Rightarrow> BarMsg option \<Rightarrow> Queue \<Rightarrow> (int + Queue) res" where
  "basic_test v blk q =
     bindR (BarMsg_create blk 5) (\<lambda>msg.
     bindR (Enqueue_body v q (MBar (BarMsg_setValue msg 10))) (\<lambda>(q1, _, res).
     case Peek_body q1 of
       None \<Rightarrow> Inl NullDeref
     | Some peeked \<Rightarrow>
         if load32 (qmem q1) (peeked + offset_of BarMsg_struct ''value'') \<noteq> 10 then Inr (Inl (-1))
         else bindR (Dequeue_body v q1) (\<lambda>(q2, poped).
           if poped = None then Inl NullDeref
           else bindR (Dequeue_body v q2) (\<lambda>(q3, r).
             if r \<noteq> None then Inr (Inl (-1))
             else if qhead q3 \<noteq> 128 then Inr (Inl (-1))
             else Inr (Inr q3)))))"

text \<open>One pass of the loop of its last part.\<close>

definition overflow_pass :: "view \<Rightarrow> message \<Rightarrow> Queue \<Rightarrow> (int + message \<times> Queue) res" where
  "overflow_pass v msg q2 =
     bindR (Enqueue_body v q2 msg) (\<lambda>(Q1, msg', res).
       if res = 0 then Inr (Inl (-1))
       else case Peek_body Q1 of
         None \<Rightarrow> Inr (Inl (-1))
       | Some p \<Rightarrow>
           if load32 (qmem Q1) (p + offset_of Message_struct ''tid'') \<noteq> 8 then Inr (Inl (-1))
           else if load32 (qmem Q1) (p + offset_of Message_struct ''tag'') \<noteq> 1 then Inr (Inl (-1))
           else bindR (Dequeue_body v Q1) (\<lambda>(Q2, r).
             case r of
               None \<Rightarrow> Inr (Inl (-1))
             | Some (d, ms) \<Rightarrow>
                 if load32 (qmem Q2) (d + offset_of RequestMsg_struct ''request_type'') \<noteq> 3 then Inr (Inl (-1))
                 else if load32 (qmem Q2) (d + offset_of Message_struct ''tid'') \<noteq> 8 then Inr (Inl (-1))
                 else if load32 (qmem Q2) (d + offset_of Message_struct ''tag'') \<noteq> 1 then Inr (Inl (-1))
                 else Inr (Inr (msg', Q2))))"

fun overflow_loop :: "nat \<Rightarrow> view \<Rightarrow> message \<Rightarrow> Queue \<Rightarrow> (int + message \<times> Queue) res" where
  "overflow_loop 0 v msg q2 = Inr (Inr (msg, q2))"
| "overflow_loop (Suc n) v msg q2 =
     bindR (overflow_pass v msg q2) (\<lambda>r.
       case r of Inl e \<Rightarrow> Inr (Inl e) | Inr (msg', q) \<Rightarrow> overflow_loop n v msg' q)"

definition overflow_test :: "view \<Rightarrow> RequestMsg option \<Rightarrow> Queue \<Rightarrow> (int + message \<times> Queue) res" where
  "overflow_test v blk q2 =
     bindR (RequestMsg_create blk 1) (\<lambda>msg. overflow_loop 50000 v (MRequest (msg\<lparr>request_type := 3\<rparr>)) q2)"

section \<open>The bytes a ring wastes\<close>

text \<open>What a roll-over has left unused is shorter than the longest message.\<close>

definition roll_tight :: "nat \<Rightarrow> nat \<Rightarrow> ring \<Rightarrow> bool" where
  "roll_tight hi S r \<longleftrightarrow> (case rroll r of None \<Rightarrow> True | Some q \<Rightarrow> hi < q + S)"

lemma enq_tight:
  "ring_enq lo hi len put x r = Some r' \<Longrightarrow> roll_tight hi S r \<Longrightarrow> len x \<le> S \<Longrightarrow> roll_tight hi S r'"
  by (auto simp: ring_enq_def roll_tight_def split: option.splits if_splits)

lemma deq_tight: "ring_deq lo slen touch r = Some (p, r') \<Longrightarrow> roll_tight hi S r \<Longrightarrow> roll_tight hi S r'"
  by (auto simp: ring_deq_def roll_tight_def Let_def split: option.splits if_splits)

lemma chain_sum: "chain len a bs b \<Longrightarrow> b = a + (\<Sum>px\<leftarrow>bs. len (snd px))"
  by (induction len a bs b rule: chain.induct) auto

context item_codec
begin

lemma room_accepts:
  assumes "rep r bs" "roll_tight hi S r" "len x \<le> S" "lo + (\<Sum>px\<leftarrow>bs. len (snd px)) + len x + S \<le> hi"
  shows "\<exists>r'. ring_enq lo hi len put x r = Some r'"
proof (cases "rroll r")
  case None
  then have "rtail r = rhead r + (\<Sum>px\<leftarrow>bs. len (snd px))"
    using assms(1) by (intro chain_sum) (simp add: rep_def)
  with None assms(3,4) show ?thesis by (auto simp: ring_enq_def)
next
  case (Some q)
  then obtain xs ys where bs: "bs = xs @ ys" "chain len (rhead r) xs q" "chain len lo ys (rtail r)"
    using assms(1) by (auto simp: rep_def)
  from chain_sum [OF bs(2)] chain_sum [OF bs(3)] Some bs(1) assms(2-4) show ?thesis
    by (auto simp: ring_enq_def roll_tight_def)
qed

end

section \<open>The queue\<close>

definition tight_inv :: "blocks \<Rightarrow> view \<Rightarrow> nat \<Rightarrow> Queue \<Rightarrow> bool" where
  "tight_inv b v S Q \<longleftrightarrow> queue_inv b v Q \<and> roll_tight Q_SIZE S (ring_of Q)"

lemma tight_send:
  assumes "tight_inv b v S Q" "wf_item b v (w, x)" "msg_len x \<le> S" "q_send (w, x) Q = Some Q'"
  shows "tight_inv b v S Q'"
proof -
  obtain bs where rep: "mq.rep b v (ring_of Q) bs"
    using assms(1) by (auto simp: tight_inv_def queue_inv_def)
  have "\<exists>r. ring_enq (sizeof Queue_struct) Q_SIZE (\<lambda>wx. msg_len (snd wx))
      (\<lambda>wx. write_mem (fst wx) (snd wx)) (w, x) (ring_of Q) = Some r \<and> ring_of Q' = r"
    using Enqueue_refines [OF rep assms(2)] assms(4)
    by (auto simp: q_send_def split: option.splits if_splits)
  with enq_tight [of _ _ "\<lambda>wx. msg_len (snd wx)" _ "(w, x)" _ _ S] assms
    cq.enq_invar [of b v Q "(w, x)" Q']
  show ?thesis by (auto simp: tight_inv_def)
qed

lemma tight_receive:
  assumes "tight_inv b v S Q" "q_receive b v Q = Some (y, Q')"
  shows "tight_inv b v S Q'"
proof -
  obtain bs where rep: "mq.rep b v (ring_of Q) bs"
    using assms(1) by (auto simp: tight_inv_def queue_inv_def)
  then obtain p w x bs' where bs: "bs = (p, w, x) # bs'"
    using assms(2) q_receive_empty by (cases bs) auto
  have "rroll (ring_of Q') = None \<or> rroll (ring_of Q') = rroll (ring_of Q)"
    using receive_ring [OF rep [unfolded bs]] assms(2) by auto
  then show ?thesis
    using assms cq.deq_invar by (auto simp: tight_inv_def roll_tight_def)
qed

text \<open>The stronger invariant is one of the same queue.\<close>

interpretation tq: bounded_fifo
    q_send "q_receive b v" "q_abs b v" "tight_inv b v S" "\<lambda>wx. wf_item b v wx \<and> msg_len (snd wx) \<le> S"
    "\<lambda>wx. norm_msg (snd wx)"
    for b v S
proof (unfold_locales, goal_cases)
  case (1 Q wx Q')
  then show ?case using tight_send [of b v S Q "fst wx" "snd wx"] by simp
next
  case (2 Q wx Q')
  then show ?case using cq.enq_absl by (simp add: tight_inv_def)
next
  case (3 Q)
  then show ?case using cq.deq_None by (simp add: tight_inv_def)
next
  case (4 Q y Q')
  then show ?case by (rule tight_receive)
next
  case (5 Q y Q')
  then show ?case using cq.deq_absl by (simp add: tight_inv_def)
qed

lemma tight_init [simp]: "tight_inv b v S (init_queue Q)"
  by (simp add: tight_inv_def roll_tight_def ring_fresh)

text \<open>The bytes of the queued messages.\<close>

definition q_bytes :: "blocks \<Rightarrow> view \<Rightarrow> Queue \<Rightarrow> nat" where
  "q_bytes b v Q = (\<Sum>y\<leftarrow>q_abs b v Q. msg_len y)"

lemma q_bytes_rep: "mq.rep b v (ring_of Q) bs \<Longrightarrow> q_bytes b v Q = (\<Sum>px\<leftarrow>bs. msg_len (snd (snd px)))"
  by (simp add: q_bytes_def q_abs_rep msg_len_def o_def)

lemma tight_room:
  assumes "tight_inv b v S Q" "wf_item b v (w, x)" "msg_len x \<le> S"
    "sizeof Queue_struct + q_bytes b v Q + msg_len x + S \<le> Q_SIZE"
  shows "\<exists>Q'. q_send (w, x) Q = Some Q' \<and> Enqueue_body w Q x = Inr (Q', after_write x, 1)"
proof -
  obtain bs where rep: "mq.rep b v (ring_of Q) bs"
    using assms(1) by (auto simp: tight_inv_def queue_inv_def)
  have "\<exists>r. ring_enq (sizeof Queue_struct) Q_SIZE (\<lambda>wx. msg_len (snd wx))
      (\<lambda>wx. write_mem (fst wx) (snd wx)) (w, x) (ring_of Q) = Some r"
    using assms(1,3,4) q_bytes_rep [OF rep] by (intro mq.room_accepts [OF rep]) (simp_all add: tight_inv_def)
  with Enqueue_refines [OF rep assms(2)] show ?thesis by (auto simp: q_send_def)
qed

text \<open>
  C12. The capacity a client can rely on: after any sequence of sends and receives of messages of at most
  \<open>S\<close> bytes on a queue that \<open>CreateQueue\<close> returned, a message that leaves \<open>S\<close> bytes of the segment free
  is accepted, wherever the head and the tail are.  In particular messages of at most half the ring
  can be sent and received in turn for ever.
\<close>

theorem room_is_enough:
  assumes "CreateQueue e s name = Inr (s', q)"
    "\<forall>wx \<in> set (puts ops). wf_item b v wx \<and> msg_len (snd wx) \<le> S"
    "run_ops q_send (q_receive b v) (shm_segs s' (qr_seg q)) ops = (Q, out, acc)"
    "wf_item b v (w, x)" "msg_len x \<le> S"
    "sizeof Queue_struct + q_bytes b v Q + msg_len x + S \<le> Q_SIZE"
  shows "\<exists>Q'. Enqueue_body w Q x = Inr (Q', after_write x, 1) \<and> q_abs b v Q' = q_abs b v Q @ [norm_msg x]"
proof -
  obtain Q0 where Q0: "shm_segs s' (qr_seg q) = init_queue Q0"
    using CreateQueue_seg [OF assms(1)] by blast
  have inv: "tight_inv b v S Q"
    using tq.run_fifo [OF tight_init assms(2), of Q0] assms(3) Q0 by simp
  from tight_room [OF inv assms(4-6)] tq.enq_absl [OF inv] assms(4,5) show ?thesis by fastforce
qed

theorem room_is_enough_witness:
  "\<exists>Q'. Enqueue_body sample_view (init_queue zero_segment) (sample_ints 100000) =
       Inr (Q', after_write (sample_ints 100000), 1) \<and>
     q_abs sample_blocks sample_view Q' = [norm_msg (sample_ints 100000)]"
  using room_is_enough [OF sample_queue_created [of "''/TS_T1''"], of "[]" sample_blocks sample_view 450000
      "init_queue zero_segment" "[]" "[]" sample_view "sample_ints 100000"]
  by (simp add: puts_def sample_ints_wf q_bytes_def Q_SIZE_def)

section \<open>The test passes\<close>

lemma map_sum_eq_Inr: "map_sum f g r = Inr y \<longleftrightarrow> (\<exists>z. r = Inr z \<and> y = g z)"
  by (cases r) auto

lemma RequestMsg_fields:
  assumes "clone_at b v (Some RequestC) m p = Inr y" "norm_msg y = norm_msg (MRequest x)"
  shows "load32 m (p + offset_of RequestMsg_struct ''request_type'') = request_type x"
    "load32 m (p + offset_of Message_struct ''tid'') = tid x"
    "load32 m (p + offset_of Message_struct ''tag'') = tag x"
proof -
  from assms(1) obtain r z where rz: "RequestMsg_at v (Some RequestC) m p = Inr r"
    "RequestMsg_clone (blk_req b) r = Inr z" "y = MRequest z"
    by (auto simp: clone_at_def map_sum_eq_Inr bindR_eq_Inr)
  then have "request_type z = request_type r" "tid z = tid r" "tag z = tag r"
    by (auto simp: RequestMsg_clone_def bindR_eq_Inr)
  moreover have "z = x" using assms(2) rz(3) by simp
  ultimately show "load32 m (p + offset_of RequestMsg_struct ''request_type'') = request_type x"
    "load32 m (p + offset_of Message_struct ''tid'') = tid x"
    "load32 m (p + offset_of Message_struct ''tag'') = tag x"
    using rz(1) by (auto simp: RequestMsg_at_def bindR_eq_Inr)
qed

lemma overflow_pass_ok:
  assumes "tight_inv b v 88 Q" "q_abs b v Q = []" "wf_item b v (v, MRequest x)"
    "msg_len (MRequest x) \<le> 88" "tag x = 1" "tid x = 8" "request_type x = 3"
  shows "\<exists>Q'. overflow_pass v (MRequest x) Q = Inr (Inr (MRequest x, Q')) \<and> tight_inv b v 88 Q' \<and> q_abs b v Q' = []"
proof -
  have "sizeof Queue_struct + q_bytes b v Q + msg_len (MRequest x) + 88 \<le> Q_SIZE"
    using assms(2,4) by (simp add: q_bytes_def Q_SIZE_def)
  from tight_room [OF assms(1,3,4) this] obtain Q1 where Q1: "q_send (v, MRequest x) Q = Some Q1"
    "Enqueue_body v Q (MRequest x) = Inr (Q1, MRequest x, 1)" by auto
  have inv1: "tight_inv b v 88 Q1" using tight_send [OF assms(1,3,4) Q1(1)] .
  have abs1: "q_abs b v Q1 = [MRequest x]"
    using tq.enq_absl [OF assms(1), of "(v, MRequest x)"] assms(2,3,4) Q1(1) by simp
  obtain bs where rep: "mq.rep b v (ring_of Q1) bs"
    using inv1 by (auto simp: tight_inv_def queue_inv_def)
  then obtain p w z where bs: "bs = [(p, w, z)]" and z: "norm_msg z = MRequest x"
    using abs1 q_abs_rep [OF rep] by (auto simp: Cons_eq_map_conv)
  then have zx: "z = MRequest x" by (cases z) auto
  obtain Q2 ms y where d: "Dequeue_body v Q1 = Inr (Q2, Some (p, ms))"
    "clone_at b v ms (qmem Q2) p = Inr y" "norm_msg y = norm_msg (MRequest x)" "ms = Some RequestC"
    using Dequeue_refines [OF rep [unfolded bs]] zx by (auto simp: RequestMsg_rebind_def)
  have st: "mq.stored b v (qmem Q1) (p, w, MRequest x)"
    using rep bs zx unfolding mq.rep_def by (simp add: ring_of_def)
  have q2: "q_receive b v Q1 = Some (norm_msg y, Q2)" using d by (simp add: q_receive_def)
  have "load32 (qmem Q1) (p + 4) = 8" "load32 (qmem Q1) p = 1"
    using stored_msg(1,6) [OF st] assms(5) by simp_all
  moreover have "Peek_body Q1 = Some p" by (rule Peek_of_Dequeue [OF d(1)])
  ultimately have "overflow_pass v (MRequest x) Q = Inr (Inr (MRequest x, Q2))"
    using Q1(2) d(1) RequestMsg_fields [OF d(2) [unfolded d(4)] d(3)] assms(5-7)
    by (simp add: overflow_pass_def)
  then show ?thesis
    using tight_receive [OF inv1 q2] tq.deq_absl [OF inv1 q2] abs1 by auto
qed

lemma overflow_loop_ok:
  assumes "tight_inv b v 88 Q" "q_abs b v Q = []" "wf_item b v (v, MRequest x)"
    "msg_len (MRequest x) \<le> 88" "tag x = 1" "tid x = 8" "request_type x = 3"
  shows "\<exists>Q'. overflow_loop n v (MRequest x) Q = Inr (Inr (MRequest x, Q'))"
  using assms(1,2)
proof (induction n arbitrary: Q)
  case (Suc n)
  then show ?case using overflow_pass_ok [OF Suc.prems assms(3-7)] by fastforce
qed simp

lemma bar_message:
  "MBar (BarMsg_setValue (bar\<lparr>tag := t, tid := 1, msg_size := 72, methods := Some BarC\<rparr>) n) = sample_bar t n"
  by (simp add: sample_bar_def BarMsg_setValue_def)

lemma basic_test_ok:
  assumes "receiver_ok b v"
  shows "\<exists>q. basic_test v (Some bar) (init_queue Q) = Inr (Inr q)"
proof -
  let ?x = "sample_bar 5 10"
  have wf: "wf_item b v (v, ?x)" "msg_len ?x = 72" using assms by simp_all
  have fit: "128 \<le> Q_SIZE" by (simp add: Q_SIZE_def)
  obtain Q1 where Q1: "q_send (v, ?x) (init_queue Q) = Some Q1" "mq.rep b v (ring_of Q1) [(56, v, ?x)]"
    "ring_of Q1 = (ring_of (init_queue Q))\<lparr>rtail := 128, rsize := 1, rmem := write_mem v ?x (qmem Q) 56\<rparr>"
    using send_behind_tail [OF rep_init_queue wf(1)] fit wf(2) by (fastforce simp: ring_fresh)
  have e: "\<exists>x'. Enqueue_body v (init_queue Q) ?x = Inr (Q1, x', 1)"
    using Q1(1) by (auto simp: q_send_def split: sum.splits if_splits)
  have "qmem Q1 = write_mem v ?x (qmem Q) 56"
    using Q1(3) by (simp add: ring_of_def)
  then have val: "load32 (qmem Q1) 104 = 10"
    by (simp add: write_mem_def writeAt_def as_msg_def BarMsg_writeAt_def sample_bar_def mem_simps)
  obtain Q2 ms where Q2: "Dequeue_body v Q1 = Inr (Q2, Some (56, ms))" "mq.rep b v (ring_of Q2) []"
    "rhead (ring_of Q2) = 128"
    using receive_ring [OF Q1(2)] wf(2) by auto
  have "Peek_body Q1 = Some 56" by (rule Peek_of_Dequeue [OF Q2(1)])
  moreover have "Dequeue_body v Q2 = Inr (Q2, None)" by (rule Dequeue_empty [OF Q2(2)])
  moreover have "qhead Q2 = 128" using Q2(3) by (simp add: ring_of_def word_unat_eq_iff)
  ultimately show ?thesis
    using e val Q2(1) by (auto simp: basic_test_def BarMsg_create_def bar_message)
qed

text \<open>The test program returns 0 from these parts, at whatever address the queues are mapped.\<close>

lemma queue_test_passes:
  assumes "receiver_ok b v"
  shows "\<exists>q. basic_test v (Some bar) (init_queue Q) = Inr (Inr q)"
    "\<exists>msg q. overflow_test v (Some req) (init_queue Q') = Inr (Inr (msg, q))"
proof -
  show "\<exists>q. basic_test v (Some bar) (init_queue Q) = Inr (Inr q)" by (rule basic_test_ok [OF assms])
  let ?x = "req\<lparr>tag := 1, tid := class_id RequestC, msg_size := of_nat (sizeof RequestMsg_struct),
      methods := Some RequestC, req_data_size := 0, req_data := [], sender_task_id := - 1, request_type := 3\<rparr>"
  have "wf_msg (MRequest ?x)" by (simp add: wf_header_def wf_array_def)
  moreover have "msg_len (MRequest ?x) = 88" by (simp add: msg_len_def)
  ultimately have "wf_item b v (v, MRequest ?x)" "msg_len (MRequest ?x) \<le> 88"
    using assms by (simp_all add: wf_item_def Q_SIZE_def)
  then show "\<exists>msg q. overflow_test v (Some req) (init_queue Q') = Inr (Inr (msg, q))"
    using overflow_loop_ok [of b v "init_queue Q'" ?x 50000]
    by (auto simp: overflow_test_def RequestMsg_create_def)
qed

end
