(* ===== verification/NetworkRoom.thy ===== *)
theory NetworkRoom
  imports TaskComm QueueCapacity
begin

text \<open>
  Sends that cannot be refused.  \<open>send\<close> returns 0 when the queue is full, and no task of the program looks
  at that result.  The locale \<open>roomy_comm\<close> extends the interface \<open>task_comm\<close> by the promise that a message is
  accepted as long as few messages wait; it is interpreted on the network with the bound on the wasted
  bytes of \<open>QueueCapacity\<close> as a part of the invariant.
\<close>

section \<open>The interface\<close>

lemma sum_list_bound:
  fixes f :: "'a \<Rightarrow> nat"
  shows "\<forall>y \<in> set ys. f y \<le> m \<Longrightarrow> (\<Sum>y\<leftarrow>ys. f y) \<le> length ys * m"
  by (induction ys) auto

locale roomy_comm = task_comm post fetch boxes invar dest wfm nrm peek discard
  for post :: "'d \<Rightarrow> 'm \<Rightarrow> 's \<Rightarrow> 's \<times> bool"
    and fetch :: "'d \<Rightarrow> 's \<Rightarrow> 's \<times> message option"
    and boxes :: "'s \<Rightarrow> 'd \<Rightarrow> message list"
    and invar :: "'s \<Rightarrow> bool"
    and dest :: "'d \<Rightarrow> bool"
    and wfm :: "'m \<Rightarrow> bool"
    and nrm :: "'m \<Rightarrow> message"
    and peek :: "'d \<Rightarrow> 's \<Rightarrow> 's \<times> cint"
    and discard :: "'d \<Rightarrow> 's \<Rightarrow> 's" +
  fixes sz :: "message \<Rightarrow> nat" and longest :: nat and room :: nat
  assumes box_small: "invar s \<Longrightarrow> dest d \<Longrightarrow> y \<in> set (boxes s d) \<Longrightarrow> sz y \<le> longest"
    and letter_small: "wfm x \<Longrightarrow> sz (nrm x) \<le> longest"
    and accepts: "invar s \<Longrightarrow> dest d \<Longrightarrow> wfm x \<Longrightarrow>
      (\<Sum>y\<leftarrow>boxes s d. sz y) + sz (nrm x) + longest \<le> room \<Longrightarrow> snd (post d x s)"
begin

lemma few_accepted:
  assumes "invar s" "dest d" "wfm x" "(length (boxes s d) + 2) * longest \<le> room"
  shows "snd (post d x s)"
proof (rule accepts [OF assms(1-3)])
  have "(\<Sum>y\<leftarrow>boxes s d. sz y) \<le> length (boxes s d) * longest"
    using box_small [OF assms(1,2)] by (intro sum_list_bound) blast
  with letter_small [OF assms(3)] assms(4)
  show "(\<Sum>y\<leftarrow>boxes s d. sz y) + sz (nrm x) + longest \<le> room" by simp
qed

text \<open>A message to a box with few messages in it arrives, and nothing else changes.\<close>

lemma post_arrives:
  assumes "invar s" "dest d" "wfm x" "(length (boxes s d) + 2) * longest \<le> room"
  shows "invar (fst (post d x s))"
    "dest c \<Longrightarrow> boxes (fst (post d x s)) c = boxes s c @ (if c = d then [nrm x] else [])"
proof -
  obtain s' where p: "post d x s = (s', True)"
    using few_accepted [OF assms] by (cases "post d x s") auto
  show "invar (fst (post d x s))" using post_invar [OF assms(1-3) p] p by simp
  show "dest c \<Longrightarrow> boxes (fst (post d x s)) c = boxes s c @ (if c = d then [nrm x] else [])"
    using post_boxes [OF assms(1-3) p] p by simp
qed

text \<open>The same for the other operations.\<close>

lemma fetch_first:
  assumes "invar s" "dest d" "boxes s d = y # ys"
  shows "\<exists>s'. fetch d s = (s', Some y) \<and> invar s' \<and>
    (\<forall>c. dest c \<longrightarrow> boxes s' c = (if c = d then ys else boxes s c))"
proof -
  obtain s' r where f: "fetch d s = (s', r)" by fastforce
  then obtain z where r: "r = Some z" using fetch_empty [OF assms(1,2)] assms(3) by auto
  from fetch_boxes [OF assms(1,2) f assms(2)] r assms(3) have z: "z = y" "boxes s' d = ys" by auto
  have "boxes s' c = (if c = d then ys else boxes s c)" if "dest c" for c
    using fetch_boxes [OF assms(1,2) f that] r z by auto
  with f r z fetch_invar [OF assms(1,2) f] show ?thesis by blast
qed

end

section \<open>The network keeps its queues tight\<close>

definition net_tight :: "blocks \<Rightarrow> (cint \<Rightarrow> nat) \<Rightarrow> cint set \<Rightarrow> nat \<Rightarrow> net \<Rightarrow> bool" where
  "net_tight b own D S n \<longleftrightarrow> net_inv b own D n \<and>
     (\<forall>d \<in> D. (\<forall>q. TaskTable (procs n (own d)) ! unat d = Some q \<longrightarrow>
          roll_tight Q_SIZE S (ring_of (shm_segs (nshm n) (qr_seg q)))) \<and>
        (\<forall>y \<in> set (net_boxes b own n d). msg_len y \<le> S))"

definition tight_letter :: "nat \<Rightarrow> letter \<Rightarrow> bool" where
  "tight_letter S l \<longleftrightarrow> wf_letter l \<and> os_ok (fst l) \<and> msg_len (snd (snd l)) \<le> S"

lemma net_tight_inv: "net_tight b own D S n \<Longrightarrow> net_inv b own D n"
  by (simp add: net_tight_def)

lemma Dequeue_tight:
  "Dequeue_body v Q = Inr (Q', r) \<Longrightarrow> roll_tight hi S (ring_of Q) \<Longrightarrow> roll_tight hi S (ring_of Q')"
  by (auto simp: Dequeue_body_def Let_def ring_of_def roll_tight_def split: if_splits option.splits prod.splits)

lemma net_tight_seg:
  assumes t: "net_tight b own D S n" and d: "d \<in> D" "TaskTable (procs n (own d)) ! unat d = Some q"
    and Q': "queue_inv b (qr_view q) Q'" "roll_tight Q_SIZE S (ring_of Q')"
      "\<forall>y \<in> set (q_abs b (qr_view q) Q'). msg_len y \<le> S"
  shows "net_tight b own D S (n\<lparr>nshm := (nshm n)\<lparr>shm_segs := (shm_segs (nshm n))(qr_seg q := Q')\<rparr>\<rparr>)"
proof -
  let ?n = "n\<lparr>nshm := (nshm n)\<lparr>shm_segs := (shm_segs (nshm n))(qr_seg q := Q')\<rparr>\<rparr>"
  note inv = net_tight_inv [OF t]
  note upd = net_update_seg [OF inv d Q'(1)]
  have du: "unat d < 100" using net_inv_owner [OF inv d(1)] by blast
  have "roll_tight Q_SIZE S (ring_of (shm_segs (nshm ?n) (qr_seg r)))"
    if c: "c \<in> D" "TaskTable (procs n (own c)) ! unat c = Some r" for c r
  proof (cases "c = d")
    case True
    with c d Q'(2) show ?thesis by simp
  next
    case False
    have "unat c < 100" using net_inv_owner [OF inv c(1)] by blast
    from net_inv_segs_differ [OF inv du this False d(2) c(2)] t c show ?thesis
      by (auto simp: net_tight_def)
  qed
  with upd t Q'(3) show ?thesis by (auto simp: net_tight_def)
qed

lemma net_tight_acquire:
  assumes t: "net_tight b own D S n" and d: "unat d < 100"
  shows "net_tight b own D S (n\<lparr>procs := (procs n)(p := acquired e (nshm n) (procs n p) d)\<rparr>)"
proof -
  let ?n = "n\<lparr>procs := (procs n)(p := acquired e (nshm n) (procs n p) d)\<rparr>"
  note inv = net_tight_inv [OF t]
  note acq = net_acquire [OF inv d, where p = p and e = e]
  note tab = acquired_table [OF d net_inv_table [OF inv, of p], where e = e and s = "nshm n"]
  have "TaskTable (procs ?n (own c)) ! unat c = TaskTable (procs n (own c)) ! unat c" if "c \<in> D" for c
  proof -
    from net_inv_owner [OF inv that] obtain q where
      "unat c < 100" "TaskTable (procs n (own c)) ! unat c = Some q" by blast
    then show ?thesis using tab(2,3) by (cases "c = d"; cases "own c = p") auto
  qed
  with acq t show ?thesis by (simp add: net_tight_def)
qed

lemma AcquireQueue_ok: "os_ok e \<Longrightarrow> shm_names s nm = Some g \<Longrightarrow> AcquireQueue e s nm \<noteq> None"
  by (auto simp: os_ok_def AcquireQueue_def)

lemma net_post_tight:
  assumes t: "net_tight b own D S n" and d: "d \<in> D" and l: "tight_letter S l"
    and post: "net_post d l n = (n', ok)"
  shows "net_tight b own D S n'"
    "sizeof Queue_struct + (\<Sum>y\<leftarrow>net_boxes b own n d. msg_len y) + msg_len (snd (snd l)) + S \<le> Q_SIZE \<Longrightarrow> ok"
proof -
  obtain e p x where lx: "l = (e, p, x)" by (cases l)
  note inv = net_tight_inv [OF t]
  obtain q where q: "unat d < 100" "TaskTable (procs n (own d)) ! unat d = Some q"
    "receiver_ok b (qr_view q)" "queue_inv b (qr_view q) (shm_segs (nshm n) (qr_seg q))"
    "shm_names (nshm n) (qname d) = Some (qr_seg q)"
    "net_boxes b own n d = q_abs b (qr_view q) (shm_segs (nshm n) (qr_seg q))"
    using net_inv_owner [OF inv d] by blast
  let ?Q = "shm_segs (nshm n) (qr_seg q)"
  let ?sys = "acquired e (nshm n) (procs n p) d"
  let ?n = "n\<lparr>procs := (procs n)(p := ?sys)\<rparr>"
  have wf: "wf_letter l" "os_ok e" "msg_len x \<le> S" using l by (simp_all add: tight_letter_def lx)
  have ta: "net_tight b own D S ?n" by (rule net_tight_acquire [OF t q(1)])
  have len: "length (TaskTable (procs n p)) = 100" by (rule net_inv_table [OF inv])
  have "TaskTable ?sys ! unat d \<noteq> None"
    using AcquireQueue_ok [OF wf(2) q(5)] q(1) len by (auto simp: acquired_def)
  then obtain r where r: "TaskTable ?sys ! unat d = Some r" by auto
  have seg: "qr_seg r = qr_seg q"
    using net_inv_ref [OF net_tight_inv [OF ta] q(1), of p r] r q(5) by simp
  have q': "TaskTable (procs ?n (own d)) ! unat d = Some q"
    using acquired_table(3) [OF q(1) net_inv_table [OF inv] q(2)] q(2) by auto
  have wfx: "wf_item b (qr_view q) (qr_view r, x)"
    using wf(1) q(3) by (simp add: lx wf_letter_def wf_item_def)
  have tq: "tight_inv b (qr_view q) S ?Q"
    using t d q(2,4) by (auto simp: net_tight_def tight_inv_def)
  note snd = send_small [OF q(1) len, of e "nshm n" x]
  obtain bs where rep: "mq.rep b (qr_view q) (ring_of ?Q) bs"
    using q(4) by (auto simp: queue_inv_def)
  from rep wfx have "net_tight b own D S n' \<and> (\<not> ok \<longrightarrow> q_send (qr_view r, x) ?Q = None)"
  proof (cases rule: Enqueue_cases)
    case refused
    then have "n' = ?n" "q_send (qr_view r, x) ?Q = None"
      using post snd r seg by (auto simp: net_post_def lx q_send_def)
    with ta show ?thesis by simp
  next
    case (accepted Q' pos)
    then have n': "n' = ?n\<lparr>nshm := (nshm ?n)\<lparr>shm_segs := (shm_segs (nshm ?n))(qr_seg q := Q')\<rparr>\<rparr>" "ok"
      using post snd r seg by (auto simp: net_post_def lx)
    have "q_send (qr_view r, x) ?Q = Some Q'" using accepted(1) by (simp add: q_send_def)
    from tight_send [OF tq wfx wf(3) this] have "tight_inv b (qr_view q) S Q'" .
    moreover have "\<forall>y \<in> set (q_abs b (qr_view q) Q'). msg_len y \<le> S"
      using q_abs_rep [OF rep] q_abs_rep [OF accepted(2)] q(6) t d wf(3)
      by (auto simp: net_tight_def msg_len_def)
    ultimately show ?thesis
      using net_tight_seg [OF ta d q', of Q'] n' by (simp add: tight_inv_def)
  qed
  moreover have "q_send (qr_view r, x) ?Q \<noteq> None"
    if "sizeof Queue_struct + (\<Sum>y\<leftarrow>net_boxes b own n d. msg_len y) + msg_len x + S \<le> Q_SIZE"
    using tight_room [OF tq wfx wf(3)] that q(6) by (auto simp: q_bytes_def)
  ultimately show "net_tight b own D S n'"
    "sizeof Queue_struct + (\<Sum>y\<leftarrow>net_boxes b own n d. msg_len y) + msg_len (snd (snd l)) + S \<le> Q_SIZE \<Longrightarrow> ok"
    by (auto simp: lx)
qed

lemma net_tight_take:
  assumes t: "net_tight b own D S n" and d: "d \<in> D"
    and q: "TaskTable (procs n (own d)) ! unat d = Some q"
    and Q': "Dequeue_body (qr_view q) (shm_segs (nshm n) (qr_seg q)) = Inr (Q', r)"
  shows "net_tight b own D S (n\<lparr>nshm := (nshm n)\<lparr>shm_segs := (shm_segs (nshm n))(qr_seg q := Q')\<rparr>\<rparr>)"
proof -
  note inv = net_tight_inv [OF t]
  obtain q0 where "TaskTable (procs n (own d)) ! unat d = Some q0"
    "queue_inv b (qr_view q0) (shm_segs (nshm n) (qr_seg q0))"
    "net_boxes b own n d = q_abs b (qr_view q0) (shm_segs (nshm n) (qr_seg q0))"
    using net_inv_owner [OF inv d] by blast
  with q have q0: "queue_inv b (qr_view q) (shm_segs (nshm n) (qr_seg q))"
    "net_boxes b own n d = q_abs b (qr_view q) (shm_segs (nshm n) (qr_seg q))" by auto
  have deq: "queue_inv b (qr_view q) Q'"
    "q_abs b (qr_view q) Q' = tl (q_abs b (qr_view q) (shm_segs (nshm n) (qr_seg q)))"
    using Dequeue_tl [OF q0(1)] Q' by auto
  have "set (q_abs b (qr_view q) Q') \<subseteq> set (net_boxes b own n d)"
    unfolding deq(2) q0(2) by (cases "q_abs b (qr_view q) (shm_segs (nshm n) (qr_seg q))") auto
  then have "\<forall>y \<in> set (q_abs b (qr_view q) Q'). msg_len y \<le> S"
    using t d by (auto simp: net_tight_def)
  with net_tight_seg [OF t d q deq(1)] Dequeue_tight [OF Q'] t d q show ?thesis
    by (simp add: net_tight_def)
qed

lemma net_fetch_tight:
  assumes t: "net_tight b own D S n" and d: "d \<in> D" and fetch: "net_fetch b own d n = (n', r)"
  shows "net_tight b own D S n'"
proof -
  note inv = net_tight_inv [OF t]
  obtain q where q: "unat d < 100" "TaskTable (procs n (own d)) ! unat d = Some q"
    using net_inv_owner [OF inv d] by blast
  note rcv = receive_small [OF q(1) net_inv_table [OF inv] q(2), of b "nshm n"]
  show ?thesis
  proof (cases "receive b (nshm n) (procs n (own d)) d")
    case (Inl f)
    with fetch t show ?thesis by (simp add: net_fetch_def)
  next
    case (Inr sy)
    from rcv [unfolded this, symmetric] obtain Q' pm where
      "Dequeue_body (qr_view q) (shm_segs (nshm n) (qr_seg q)) = Inr (Q', pm)"
      "fst sy = (nshm n)\<lparr>shm_segs := (shm_segs (nshm n))(qr_seg q := Q')\<rparr>"
      by (auto simp: bindR_eq_Inr split: option.splits prod.splits)
    with net_tight_take [OF t d q(2)] fetch Inr show ?thesis
      by (auto simp: net_fetch_def split: prod.splits)
  qed
qed

lemma net_discard_tight:
  assumes t: "net_tight b own D S n" and d: "d \<in> D"
  shows "net_tight b own D S (net_discard e own d n)"
proof -
  note inv = net_tight_inv [OF t]
  obtain q where q: "unat d < 100" "TaskTable (procs n (own d)) ! unat d = Some q"
    using net_inv_owner [OF inv d] by blast
  note len = net_inv_table [OF inv, of "own d"]
  have drop: "dropMsg e (nshm n) (procs n (own d)) d =
      bindR (Dequeue_body (qr_view q) (shm_segs (nshm n) (qr_seg q))) (\<lambda>(Q', _).
        Inr ((nshm n)\<lparr>shm_segs := (shm_segs (nshm n))(qr_seg q := Q')\<rparr>, procs n (own d)))"
    using check_Q_small [OF q(1) len, of e "nshm n"] acquired_table(3) [OF q(1) len q(2)]
      table_get_small(1) [OF q(1) len] q(2)
    by (auto simp: dropMsg_def Dequeue_def bindR_def split: sum.split)
  show ?thesis
  proof (cases "Dequeue_body (qr_view q) (shm_segs (nshm n) (qr_seg q))")
    case (Inl f)
    with drop t show ?thesis by (simp add: net_discard_def)
  next
    case (Inr Qr)
    with drop net_tight_take [OF t d q(2), of "fst Qr" "snd Qr"] show ?thesis
      by (simp add: net_discard_def split: prod.splits)
  qed
qed

interpretation rc: roomy_comm
    net_post "net_fetch b own" "net_boxes b own" "net_tight b own D S" "\<lambda>d. d \<in> D" "tight_letter S"
    "\<lambda>l. norm_msg (snd (snd l))" "net_peek e own" "net_discard e own" msg_len S "Q_SIZE - sizeof Queue_struct"
    for b own D S e
proof (unfold_locales, goal_cases)
  case (1 s d x s' ok)
  then show ?case by (rule net_post_tight(1))
next
  case (2 s d x s' ok c)
  then show ?case using net_post_boxes(2) [OF net_tight_inv] by (simp add: tight_letter_def)
next
  case (3 s d s' r)
  then show ?case by (rule net_fetch_tight)
next
  case (4 s d s' r c)
  then show ?case by (intro net_fetch_boxes(2) [OF net_tight_inv])
next
  case (5 s d)
  then show ?case
    using net_fetch_boxes(3) [OF net_tight_inv [OF 5(1)] 5(2)] by (cases "net_fetch b own d s") simp
next
  case (6 s d)
  then show ?case using net_peek_tag(1) [OF net_tight_inv] by blast
next
  case (7 s d)
  then show ?case by (rule net_discard_tight)
next
  case (8 s d c)
  then show ?case using net_discard_boxes(2) [OF net_tight_inv] by blast
next
  case (9 s d y)
  then show ?case by (auto simp: net_tight_def)
next
  case (10 x)
  then show ?case by (simp add: tight_letter_def msg_len_def)
next
  case (11 s d x)
  have "56 \<le> Q_SIZE" by (simp add: Q_SIZE_def)
  with 11 net_post_tight(2) [OF 11(1-3), of "fst (net_post d x s)" "snd (net_post d x s)"] show ?case
    by (simp add: msg_len_def)
qed

text \<open>Queues that have just been created are tight.\<close>

definition none_rolled :: "shm \<Rightarrow> bool" where
  "none_rolled s \<longleftrightarrow> (\<forall>nm g. shm_names s nm = Some g \<longrightarrow> rollover_position (shm_segs s g) = - 1)"

lemma create_none_rolled:
  "CreateQueue e s nm = Inr (s', q) \<Longrightarrow> none_rolled s \<Longrightarrow> none_rolled s'"
  by (auto simp: CreateQueue_def shm_open_create_def none_rolled_def Let_def
      split: if_splits option.splits)

lemma net_create_none_rolled:
  "net_create e own d n = Inr n' \<Longrightarrow> none_rolled (nshm n) \<Longrightarrow> none_rolled (nshm n')"
  using create_none_rolled by (auto simp: net_create_def createMsgQ_def bindR_eq_Inr split: prod.splits)

lemma create_all_none_rolled:
  "create_all e own ds n = Inr n' \<Longrightarrow> none_rolled (nshm n) \<Longrightarrow> none_rolled (nshm n')"
proof (induction ds arbitrary: n)
  case (Cons d ds)
  then obtain n1 where n1: "net_create e own d n = Inr n1" "create_all e own ds n1 = Inr n'"
    by (auto simp: bindR_eq_Inr)
  with Cons.IH [OF n1(2)] net_create_none_rolled [OF n1(1)] Cons.prems(2) show ?case by blast
qed simp

lemma none_rolled_tight:
  assumes "net_inv b own D n" "none_rolled (nshm n)" "\<forall>d \<in> D. net_boxes b own n d = []"
  shows "net_tight b own D S n"
proof -
  have "roll_tight Q_SIZE S (ring_of (shm_segs (nshm n) (qr_seg q)))"
    if d: "d \<in> D" "TaskTable (procs n (own d)) ! unat d = Some q" for d q
  proof -
    have "unat d < 100" using net_inv_owner [OF assms(1) d(1)] by blast
    from net_inv_ref [OF assms(1) this d(2)] assms(2)
    show ?thesis by (simp add: none_rolled_def roll_tight_def ring_of_def)
  qed
  with assms(1,3) show ?thesis by (auto simp: net_tight_def)
qed

lemma create_all_tight:
  assumes "os_ok e" "blocks_ok b" "distinct ds" "\<forall>d \<in> set ds. unat d < MAX_TASK"
  shows "\<exists>n. create_all e own ds net_start = Inr n \<and> net_tight b own (set ds) S n \<and>
     (\<forall>d \<in> set ds. net_boxes b own n d = [])"
proof -
  have "\<forall>d \<in> set ds. unat d < 100 \<and> unknown net_start d"
    using assms(4) net_start_unknown by simp
  from create_all_inv [OF net_start_inv assms(1-3) this] obtain n where
    n: "create_all e own ds net_start = Inr n" "net_inv b own (set ds) n"
    "\<forall>d \<in> set ds. net_boxes b own n d = []"
    by auto
  have "none_rolled (nshm n)"
    by (rule create_all_none_rolled [OF n(1)]) (simp add: none_rolled_def net_start_def)
  from none_rolled_tight [OF n(2) this n(3)] n show ?thesis by blast
qed

end
