(* ===== verification/DatabaseService.thy ===== *)
theory DatabaseService
  imports ClientTask NetworkRoom StepSystem
begin

text \<open>
  The database and its clients as concurrent tasks over the network: any task may run in any process,
  the messages are the bytes in the queues of \<open>CircularMsgQ\<close>, and a step is one call into \<open>System.c\<close>
  with what the task does up to its next call.  \<open>DatabaseTask\<close> and \<open>ClientTask\<close> give what a task does with
  a message; here their loops (\<open>start\<close> and \<open>receive\<close> of \<open>DatabaseTask.c\<close> and \<open>ClientTask.c\<close>) run against each
  other in any interleaving.  This theory holds the step relation and the invariant, \<open>ServiceRuns\<close> the
  proofs and the theorems.

  \<open>message_wait\<close> of the client, between its request and its polling, is taken to return once the response
  is there (\<open>WakeUp\<close> shows that a sleeper with a message is woken), so the poll that follows it is where the
  client waits.  \<open>Comm->receive\<close> is one step although the clone comes after the queue's lock is released:
  what can go wrong in between is \<open>dequeue_clone_race\<close> in \<open>CircularMsgQ\<close>.
\<close>

section \<open>Definitions\<close>

text \<open>
  What the run depends on: the results of the system calls, the blocks \<open>malloc\<close> gives, the process of each
  task, and of the database its identifier, \<open>max_request\<close>, the surroundings of \<open>handle_RequestMsg\<close> and the
  block for its responses.
\<close>

record service_env =
  sv_os :: os
  sv_blks :: blocks
  sv_own :: "cint \<Rightarrow> nat"
  sv_db :: cint
  sv_max :: cint
  sv_around :: surroundings
  sv_res :: ResponseMsg

text \<open>
  A client: its task, \<open>req_type\<close>, \<open>nb_request\<close>, the block for its requests and the stack bytes that pad the
  struct of round \<open>i\<close>.
\<close>

record client_env =
  ce_task :: ClientTask
  ce_type :: cint
  ce_count :: cint
  ce_blk :: RequestMsg
  ce_pad :: "nat \<Rightarrow> byte list \<times> byte list"

text \<open>
  Where the tasks are.  Database: at the head of the loop, polling for a tag, with a tag, before the
  response, behind the loop.  Client: before a request, polling for a tag, with a tag, behind the loop.
\<close>

datatype db_pc = B_loop | B_poll | B_got cint | B_send | B_done | B_failed fault

datatype cl_pc = K_send | K_poll | K_got cint | K_done | K_failed fault

record session =
  k_pc :: cl_pc
  k_i :: nat
  k_answers :: "message list"

text \<open>
  \<open>served\<close> and \<open>replied\<close> are histories that no statement reads: the requests the database has handled and
  the responses it has sent.
\<close>

record service =
  sv_net :: net
  sv_task :: DatabaseTask
  b_pc :: db_pc
  b_count :: cint
  sessions :: "session list"
  served :: "RequestMsg list"
  replied :: "(cint \<times> message) list"

text \<open>
  A step of the database.  \<open>None\<close> while it polls in vain, which leaves everything as it is, and when it has
  left.
\<close>

definition db_step :: "service_env \<Rightarrow> service \<Rightarrow> service option" where
  "db_step E s =
     (let this = sv_task s; own = sv_own E in
      case b_pc s of
        B_loop \<Rightarrow>
          if sint (b_count s) < sint (sv_max E) \<or> sv_max E = - 1
          then Some (s\<lparr>b_pc := B_poll, b_count := b_count s + 1\<rparr>)
          else Some (s\<lparr>b_pc := B_done\<rparr>)
      | B_poll \<Rightarrow>
          let (n, t) = net_peek (sv_os E) own (sv_db E) (sv_net s) in
          if sint t < 0 then None else Some (s\<lparr>sv_net := n, b_pc := B_got t\<rparr>)
      | B_got t \<Rightarrow> Some
          (if t = REQUEST_MSG then
             (case net_fetch (sv_blks E) own (sv_db E) (sv_net s) of
                (n, None) \<Rightarrow> s\<lparr>b_pc := B_failed NullDeref\<rparr>
              | (n, Some msg) \<Rightarrow>
                  (case bindR (as_request msg) (\<lambda>req.
                        bindR (handle_RequestMsg (sv_around E) this req) (\<lambda>this'. Inr (req, this'))) of
                     Inl f \<Rightarrow> s\<lparr>sv_net := n, b_pc := B_failed f\<rparr>
                   | Inr (req, this') \<Rightarrow>
                       s\<lparr>sv_net := n, sv_task := this', served := served s @ [req], b_pc := B_send\<rparr>))
           else if t = RESPONSE_MSG then s\<lparr>b_pc := B_send\<rparr>
           else s\<lparr>sv_net := net_discard (sv_os E) own (sv_db E) (sv_net s), b_pc := B_send\<rparr>)
      | B_send \<Rightarrow> Some
          (case Database_respond (Some (sv_res E)) this of
             Inl f \<Rightarrow> s\<lparr>b_pc := B_failed f\<rparr>
           | Inr (d, res) \<Rightarrow>
               s\<lparr>sv_net := fst (net_post d (sv_os E, own (sv_db E), res) (sv_net s)),
                 replied := replied s @ [(d, res)], b_pc := B_loop\<rparr>)
      | B_done \<Rightarrow> None
      | B_failed _ \<Rightarrow> None)"

abbreviation ce_id :: "client_env \<Rightarrow> cint" where
  "ce_id c \<equiv> cl_taskID (ce_task c)"

definition set_session :: "nat \<Rightarrow> session \<Rightarrow> service \<Rightarrow> service" where
  "set_session k p s = s\<lparr>sessions := (sessions s)[k := p]\<rparr>"

text \<open>A step of client \<open>k\<close>.\<close>

definition client_step :: "service_env \<Rightarrow> client_env \<Rightarrow> nat \<Rightarrow> service \<Rightarrow> service option" where
  "client_step E c k s =
     (let p = sessions s ! k; own = sv_own E; next_round = p\<lparr>k_pc := K_send, k_i := Suc (k_i p)\<rparr> in
      case k_pc p of
        K_send \<Rightarrow> Some
          (if int (k_i p) < sint (ce_count c) then
             (case Client_request (Some (ce_blk c)) True (ce_pad c (k_i p)) (ce_task c) (ce_type c) (of_nat (k_i p)) of
                Inl f \<Rightarrow> set_session k (p\<lparr>k_pc := K_failed f\<rparr>) s
              | Inr req \<Rightarrow> set_session k (p\<lparr>k_pc := K_poll\<rparr>)
                  (s\<lparr>sv_net := fst (net_post (sv_db E) (sv_os E, own (ce_id c), MRequest req) (sv_net s))\<rparr>))
           else set_session k (p\<lparr>k_pc := K_done\<rparr>) s)
      | K_poll \<Rightarrow>
          let (n, t) = net_peek (sv_os E) own (ce_id c) (sv_net s) in
          if sint t < 0 then None else Some (set_session k (p\<lparr>k_pc := K_got t\<rparr>) (s\<lparr>sv_net := n\<rparr>))
      | K_got t \<Rightarrow> Some
          (if t = REQUEST_MSG then set_session k next_round s
           else if t = RESPONSE_MSG then
             (case net_fetch (sv_blks E) own (ce_id c) (sv_net s) of
                (n, None) \<Rightarrow> set_session k (p\<lparr>k_pc := K_failed NullDeref\<rparr>) s
              | (n, Some msg) \<Rightarrow>
                  (case as_response msg of
                     Inl f \<Rightarrow> set_session k (p\<lparr>k_pc := K_failed f\<rparr>) (s\<lparr>sv_net := n\<rparr>)
                   | Inr _ \<Rightarrow> set_session k (next_round\<lparr>k_answers := k_answers p @ [msg]\<rparr>) (s\<lparr>sv_net := n\<rparr>)))
           else set_session k next_round (s\<lparr>sv_net := net_discard (sv_os E) own (ce_id c) (sv_net s)\<rparr>))
      | K_done \<Rightarrow> None
      | K_failed _ \<Rightarrow> None)"

inductive service_step :: "service_env \<Rightarrow> client_env list \<Rightarrow> service \<Rightarrow> service \<Rightarrow> bool" for E cs where
  database: "db_step E s = Some s' \<Longrightarrow> service_step E cs s s'"
| client: "k < length cs \<Longrightarrow> client_step E (cs ! k) k s = Some s' \<Longrightarrow> service_step E cs s s'"

text \<open>The tasks have just been created over the network \<open>n\<close>, and the database has registered its name.\<close>

definition service_start :: "client_env list \<Rightarrow> DatabaseTask \<Rightarrow> net \<Rightarrow> service" where
  "service_start cs t n =
     \<lparr>sv_net = n, sv_task = t, b_pc = B_loop, b_count = 0,
      sessions = map (\<lambda>_. \<lparr>k_pc = K_send, k_i = 0, k_answers = []\<rparr>) cs, served = [], replied = []\<rparr>"

section \<open>What the tasks send\<close>

definition request_of :: "client_env \<Rightarrow> nat \<Rightarrow> RequestMsg" where
  "request_of c i = client_req (ce_blk c) (ce_task c) (ce_pad c i) (ce_type c) (of_nat i)"

text \<open>
  The clients the database can serve: their identifiers differ, their requests carry enough bytes for the
  copies of the handler, and the database stops after as many requests as they send together.
\<close>

definition service_ok :: "service_env \<Rightarrow> client_env list \<Rightarrow> bool" where
  "service_ok E cs \<longleftrightarrow>
     os_ok (sv_os E) \<and> blocks_ok (sv_blks E) \<and> distinct (sv_db E # map ce_id cs) \<and>
     (\<forall>d \<in> set (sv_db E # map ce_id cs). unat d < MAX_TASK) \<and>
     (\<forall>c \<in> set cs. ce_type c \<in> {1, 2, 3, 4} \<and> 0 \<le> sint (ce_count c) \<and>
        (\<forall>i. ok_request (sv_around E) (request_of c i))) \<and>
     sint (sv_max E) = (\<Sum>c\<leftarrow>cs. sint (ce_count c))"

lemma request_of_sender [simp]: "sender_task_id (request_of c i) = ce_id c" "tag (request_of c i) = REQUEST_MSG"
  by (simp_all add: request_of_def)

lemma request_letter:
  assumes "ce_type c \<in> {1, 2, 3, 4}" "os_ok e"
  shows "tight_letter 136 (e, p, MRequest (request_of c i))"
proof -
  have "msg_len (MRequest (request_of c i)) \<le> 136"
    using assms(1) by (auto simp: request_of_def client_req_def Let_def msg_len_def)
  with client_req_wf [OF assms(1)] assms(2) show ?thesis
    by (simp add: tight_letter_def wf_letter_def request_of_def Q_SIZE_def)
qed

definition good_response :: "message \<Rightarrow> bool" where
  "good_response m \<longleftrightarrow> (\<exists>r. m = MResponse r \<and> tag r = RESPONSE_MSG) \<and> wf_msg m \<and> msg_len m \<le> 136"

lemma response_letter: "good_response m \<Longrightarrow> os_ok e \<Longrightarrow> tight_letter 136 (e, p, m)"
  by (simp add: good_response_def tight_letter_def wf_letter_def Q_SIZE_def)

lemma handle_response_size:
  assumes "ok_request sr r" "handle_RequestMsg sr t r = Inr t'"
  shows "response_size t' = 0 \<or> response_size t' = 48"
  using assms
  by (auto simp: ok_request_def handle_RequestMsg_def Let_def bindR_eq_Inr select_student_def
      insert_student_def delete_student_def setResponse_def db_enums split: if_splits option.splits)

lemma respond_good:
  assumes "Database_respond (Some blk) t = Inr (d, m)" "response_size t = 0 \<or> response_size t = 48"
  shows "good_response m"
  using assms
  by (auto simp: Database_respond_def ResponseMsg_create_def ResponseMsg_setData_def copy_elems_def Let_def
      good_response_def wf_header_def wf_array_def msg_len_def bindR_eq_Inr split: option.splits if_splits)

lemma db_answers:
  assumes "db_inv t" "ok_request sr r"
  shows "\<exists>t' m. handle_RequestMsg sr t r = Inr t' \<and> db_inv t' \<and>
     Database_respond (Some blk) t' = Inr (sender_task_id r, m) \<and> good_response m \<and>
     (db_records t', reply_of m) = spec_request sr r (db_records t)"
  using request_refines [OF assms, of blk] respond_good handle_response_size [OF assms(2)] by blast

lemma spec_serve_snoc:
  "spec_serve sr (rs @ [r]) xs =
     (let (ys, as) = spec_serve sr rs xs; (zs, a) = spec_request sr r ys in (zs, as @ [a]))"
  by (induction rs arbitrary: xs) (auto simp: Let_def split: prod.splits)

section \<open>The invariant\<close>

definition sv_box :: "service_env \<Rightarrow> service \<Rightarrow> cint \<Rightarrow> message list" where
  "sv_box E s d = net_boxes (sv_blks E) (sv_own E) (sv_net s) d"

definition sv_ids :: "service_env \<Rightarrow> client_env list \<Rightarrow> cint set" where
  "sv_ids E cs = set (sv_db E # map ce_id cs)"

definition sv_tight :: "service_env \<Rightarrow> client_env list \<Rightarrow> net \<Rightarrow> bool" where
  "sv_tight E cs n \<longleftrightarrow> net_tight (sv_blks E) (sv_own E) (sv_ids E cs) 136 n"

definition requests_from :: "cint \<Rightarrow> RequestMsg list \<Rightarrow> RequestMsg list" where
  "requests_from d rs = filter (\<lambda>r. sender_task_id r = d) rs"

definition waiting :: "session \<Rightarrow> bool" where
  "waiting p \<longleftrightarrow> (case k_pc p of K_poll \<Rightarrow> True | K_got _ \<Rightarrow> True | _ \<Rightarrow> False)"

text \<open>
  A client has sent the requests of its rounds so far, the last of them unanswered while it waits; what the
  database has sent to it are the answers it has taken and those in its inbox.
\<close>

definition session_inv ::
  "client_env \<Rightarrow> RequestMsg list \<Rightarrow> (cint \<times> message) list \<Rightarrow> message list \<Rightarrow> session \<Rightarrow> bool" where
  "session_inv c reqs reps bx p \<longleftrightarrow>
     requests_from (ce_id c) reqs = map (request_of c) [0..<k_i p + of_bool (waiting p)] \<and>
     messages_for (ce_id c) reps = k_answers p @ bx \<and> length (k_answers p) = k_i p \<and>
     int (k_i p + of_bool (waiting p)) \<le> sint (ce_count c) \<and>
     (case k_pc p of
        K_got t \<Rightarrow> t = RESPONSE_MSG \<and> bx \<noteq> []
      | K_done \<Rightarrow> int (k_i p) = sint (ce_count c)
      | K_failed _ \<Rightarrow> False
      | _ \<Rightarrow> True)"

text \<open>The responses, with the one that is about to be sent, are those of the abstract server.\<close>

definition answers_ok :: "service_env \<Rightarrow> student list \<Rightarrow> service \<Rightarrow> (cint \<times> message) list \<Rightarrow> bool" where
  "answers_ok E xs s reps \<longleftrightarrow>
     (\<forall>x \<in> set reps. good_response (snd x)) \<and> map fst reps = map sender_task_id (served s) \<and>
     spec_serve (sv_around E) (served s) xs = (db_records (sv_task s), map (\<lambda>x. reply_of (snd x)) reps)"

definition db_phase :: "service_env \<Rightarrow> student list \<Rightarrow> service \<Rightarrow> bool" where
  "db_phase E xs s \<longleftrightarrow>
     sint (b_count s) \<le> sint (sv_max E) \<and>
     sint (b_count s) = int (length (served s)) + (case b_pc s of B_poll \<Rightarrow> 1 | B_got _ \<Rightarrow> 1 | _ \<Rightarrow> 0) \<and>
     (case b_pc s of
        B_send \<Rightarrow> \<exists>x. Database_respond (Some (sv_res E)) (sv_task s) = Inr x \<and> answers_ok E xs s (replied s @ [x])
      | B_got t \<Rightarrow> t = REQUEST_MSG \<and> sv_box E s (sv_db E) \<noteq> [] \<and> answers_ok E xs s (replied s)
      | B_done \<Rightarrow> sint (b_count s) = sint (sv_max E) \<and> answers_ok E xs s (replied s)
      | B_failed _ \<Rightarrow> False
      | _ \<Rightarrow> answers_ok E xs s (replied s))"

definition sessions_inv :: "service_env \<Rightarrow> client_env list \<Rightarrow> RequestMsg list \<Rightarrow> service \<Rightarrow> bool" where
  "sessions_inv E cs reqs s \<longleftrightarrow>
     length (sessions s) = length cs \<and> (\<forall>r \<in> set reqs. \<exists>c \<in> set cs. \<exists>i. r = request_of c i) \<and>
     (\<forall>k<length cs. session_inv (cs ! k) reqs (replied s) (sv_box E s (ce_id (cs ! k))) (sessions s ! k))"

definition service_inv :: "service_env \<Rightarrow> client_env list \<Rightarrow> student list \<Rightarrow> service \<Rightarrow> bool" where
  "service_inv E cs xs s \<longleftrightarrow>
     service_ok E cs \<and> sv_tight E cs (sv_net s) \<and> db_inv (sv_task s) \<and> db_phase E xs s \<and>
     (\<exists>qs. sv_box E s (sv_db E) = map MRequest qs \<and> sessions_inv E cs (served s @ qs) s)"

lemma sv_ids [simp]: "sv_db E \<in> sv_ids E cs" "k < length cs \<Longrightarrow> ce_id (cs ! k) \<in> sv_ids E cs"
  by (simp_all add: sv_ids_def)

lemma service_ok_ids:
  assumes "service_ok E cs"
  shows "k < length cs \<Longrightarrow> ce_id (cs ! k) \<noteq> sv_db E"
    "j < length cs \<Longrightarrow> k < length cs \<Longrightarrow> ce_id (cs ! j) = ce_id (cs ! k) \<longleftrightarrow> j = k"
    "length cs < 100"
proof -
  have d: "distinct (sv_db E # map ce_id cs)" and u: "\<forall>d \<in> set (sv_db E # map ce_id cs). unat d < 100"
    using assms by (simp_all add: service_ok_def)
  show "ce_id (cs ! k) \<noteq> sv_db E" if "k < length cs"
    using d nth_mem [OF that] by (metis distinct.simps(2) image_eqI list.set_map)
  show "ce_id (cs ! j) = ce_id (cs ! k) \<longleftrightarrow> j = k" if "j < length cs" "k < length cs"
    using d nth_eq_iff_index_eq [of "map ce_id cs" j k] that by simp
  have "card (unat ` set (sv_db E # map ce_id cs)) \<le> card {..<100 :: nat}"
    using u by (intro card_mono) auto
  moreover have "card (unat ` set (sv_db E # map ce_id cs)) = length (sv_db E # map ce_id cs)"
    unfolding card_image [OF inj_on_subset [OF inj_unsigned subset_UNIV]] using d by (rule distinct_card)
  ultimately show "length cs < 100" by simp
qed

lemma requests_from_append [simp]:
  "requests_from d (xs @ ys) = requests_from d xs @ requests_from d ys"
  by (simp add: requests_from_def)

lemma requests_from_single [simp]:
  "requests_from d [r] = (if sender_task_id r = d then [r] else [])" "requests_from d [] = []"
  by (simp_all add: requests_from_def)

lemma length_messages_for:
  "map fst reps = map sender_task_id rs \<Longrightarrow> length (messages_for d reps) = length (requests_from d rs)"
proof (induction reps arbitrary: rs)
  case (Cons x reps)
  then obtain r rs' where "rs = r # rs'" by (cases rs) auto
  with Cons show ?case by (auto simp: messages_for_def requests_from_def)
qed (simp add: messages_for_def requests_from_def)

lemma length_by_ids:
  "distinct ids \<Longrightarrow> \<forall>r \<in> set rs. sender_task_id r \<in> set ids \<Longrightarrow>
     length rs = (\<Sum>d\<leftarrow>ids. length (requests_from d rs))"
proof (induction rs)
  case (Cons r rs)
  have "(\<Sum>d\<leftarrow>ids. length (requests_from d (r # rs))) =
      (\<Sum>d\<leftarrow>ids. of_bool (d = sender_task_id r) + length (requests_from d rs))"
    by (intro arg_cong [of _ _ sum_list] map_cong) (auto simp: requests_from_def)
  also have "\<dots> = (\<Sum>d\<leftarrow>ids. of_bool (d = sender_task_id r)) + length rs"
    using Cons by (simp add: sum_list_addf)
  also have "(\<Sum>d\<leftarrow>ids. of_bool (d = sender_task_id r) :: nat) = 1"
    using Cons.prems by (simp add: sum_list_distinct_conv_sum_set of_bool_def)
  finally show ?case by simp
qed simp

text \<open>Every client has at most one message on the way: a request, a response about to be sent, or a response.\<close>

lemma on_the_way:
  assumes "session_inv c (sv @ qs) reps bx p" "map fst (reps @ pend) = map sender_task_id sv"
  shows "length (requests_from (ce_id c) qs) + length (messages_for (ce_id c) pend) + length bx =
    of_bool (waiting p)"
proof -
  have "length (requests_from (ce_id c) sv) = length (k_answers p @ bx) + length (messages_for (ce_id c) pend)"
    using length_messages_for [OF assms(2), of "ce_id c"] assms(1)
    by (simp add: messages_for_append session_inv_def)
  moreover have "length (requests_from (ce_id c) sv) + length (requests_from (ce_id c) qs) =
      length (map (request_of c) [0..<k_i p + of_bool (waiting p)])"
    using assms(1) by (metis length_append requests_from_append session_inv_def)
  moreover have "length (k_answers p) = k_i p" using assms(1) by (simp add: session_inv_def)
  ultimately show ?thesis by simp
qed

lemma phase_replies:
  "db_phase E xs s \<Longrightarrow> \<exists>pend. answers_ok E xs s (replied s @ pend) \<and>
     (b_pc s \<noteq> B_send \<longrightarrow> pend = []) \<and> (b_pc s = B_send \<longrightarrow> (\<exists>x. pend = [x]))"
  by (cases "b_pc s") (auto simp: db_phase_def)

end
