(* ===== verification/ServiceRuns.thy ===== *)
theory ServiceRuns
  imports DatabaseService
begin

text \<open>
  The runs of the database and its clients (\<open>DatabaseService\<close>): every step keeps the invariant and the
  measure falls, so that every run comes to rest; what a state at rest looks like is the theorem.
\<close>

section \<open>Calls into the system\<close>

lemma request_known:
  assumes "sessions_inv E cs reqs s" "r \<in> set reqs"
  shows "\<exists>k<length cs. \<exists>i. r = request_of (cs ! k) i"
proof -
  from assms obtain c i where "c \<in> set cs" "r = request_of c i" unfolding sessions_inv_def by blast
  then show ?thesis by (auto simp: in_set_conv_nth)
qed

lemma few_messages:
  assumes "service_inv E cs xs s"
  shows "length (sv_box E s (sv_db E)) \<le> length cs"
    "k < length cs \<Longrightarrow> length (sv_box E s (ce_id (cs ! k))) \<le> 1"
proof -
  obtain qs where qs: "sv_box E s (sv_db E) = map MRequest qs" "sessions_inv E cs (served s @ qs) s"
    and ok: "service_ok E cs" and ph: "db_phase E xs s"
    using assms by (auto simp: service_inv_def)
  obtain pend where "answers_ok E xs s (replied s @ pend)" using phase_replies [OF ph] by blast
  then have pend: "map fst (replied s @ pend) = map sender_task_id (served s)" by (simp add: answers_ok_def)
  have way: "length (requests_from (ce_id (cs ! k)) qs) + length (sv_box E s (ce_id (cs ! k))) \<le> 1"
    if "k < length cs" for k
    using on_the_way [OF _ pend, of "cs ! k" qs "sv_box E s (ce_id (cs ! k))" "sessions s ! k"] qs(2) that
    by (simp add: sessions_inv_def of_bool_def split: if_splits)
  show "length (sv_box E s (ce_id (cs ! k))) \<le> 1" if "k < length cs" using way [OF that] by simp
  have "sender_task_id r \<in> set (map ce_id cs)" if r: "r \<in> set qs" for r
  proof -
    from r obtain j i where "j < length cs" "r = request_of (cs ! j) i"
      using request_known [OF qs(2), of r] by auto
    then show ?thesis by simp
  qed
  moreover have "distinct (map ce_id cs)" using ok by (simp add: service_ok_def)
  ultimately have "length qs = (\<Sum>d\<leftarrow>map ce_id cs. length (requests_from d qs))"
    by (intro length_by_ids) blast+
  also have "\<dots> \<le> length (map ce_id cs) * 1"
  proof (intro sum_list_bound ballI)
    fix d assume "d \<in> set (map ce_id cs)"
    then obtain j where "j < length cs" "d = ce_id (cs ! j)" by (auto simp: in_set_conv_nth)
    then show "length (requests_from d qs) \<le> 1" using way [of j] by simp
  qed
  finally show "length (sv_box E s (sv_db E)) \<le> length cs" using qs(1) by simp
qed

lemma sv_post:
  assumes "sv_tight E cs n" "d \<in> sv_ids E cs" "tight_letter 136 l"
    "length (net_boxes (sv_blks E) (sv_own E) n d) < 100"
  shows "sv_tight E cs (fst (net_post d l n))"
    "c \<in> sv_ids E cs \<Longrightarrow> net_boxes (sv_blks E) (sv_own E) (fst (net_post d l n)) c =
       net_boxes (sv_blks E) (sv_own E) n c @ (if c = d then [norm_msg (snd (snd l))] else [])"
proof -
  have "(length (net_boxes (sv_blks E) (sv_own E) n d) + 2) * 136 \<le> Q_SIZE - sizeof Queue_struct"
    using assms(4) by (simp add: Q_SIZE_def)
  note arr = rc.post_arrives [OF assms(1) [unfolded sv_tight_def] assms(2,3) this]
  from arr show "sv_tight E cs (fst (net_post d l n))"
    "c \<in> sv_ids E cs \<Longrightarrow> net_boxes (sv_blks E) (sv_own E) (fst (net_post d l n)) c =
       net_boxes (sv_blks E) (sv_own E) n c @ (if c = d then [norm_msg (snd (snd l))] else [])"
    by (simp_all add: sv_tight_def)
qed

lemma sv_fetch:
  assumes "sv_tight E cs n" "d \<in> sv_ids E cs" "net_boxes (sv_blks E) (sv_own E) n d = y # ys"
  shows "\<exists>n'. net_fetch (sv_blks E) (sv_own E) d n = (n', Some y) \<and> sv_tight E cs n' \<and>
     (\<forall>c \<in> sv_ids E cs. net_boxes (sv_blks E) (sv_own E) n' c =
        (if c = d then ys else net_boxes (sv_blks E) (sv_own E) n c))"
  using rc.fetch_first [OF assms(1) [unfolded sv_tight_def] assms(2,3)] by (simp only: sv_tight_def Ball_def)

lemma sv_peek:
  assumes "sv_tight E cs n" "d \<in> sv_ids E cs"
  shows "net_peek (sv_os E) (sv_own E) d n = (n, in_getMsgTag (net_boxes (sv_blks E) (sv_own E) n d))"
  using rc.peek_tag [OF assms(1) [unfolded sv_tight_def] assms(2)] .

lemma in_getMsgTag_Nil [simp]: "in_getMsgTag [] = - 1"
  by (simp add: in_getMsgTag_def)

lemma tag_of_request [simp]: "in_getMsgTag (MRequest r # ms) = tag r"
  by (simp add: in_getMsgTag_def Message.truncate_def)

lemma tag_of_response: "good_response m \<Longrightarrow> in_getMsgTag (m # ms) = RESPONSE_MSG"
  by (auto simp: good_response_def in_getMsgTag_def Message.truncate_def)

section \<open>Every step keeps the invariant\<close>

lemma session_inv_unchanged:
  assumes "session_inv c reqs reps bx p" "requests_from (ce_id c) reqs' = requests_from (ce_id c) reqs"
    "messages_for (ce_id c) reps' = messages_for (ce_id c) reps"
  shows "session_inv c reqs' reps' bx p"
  using assms by (simp add: session_inv_def)

lemma box_good:
  assumes "sessions_inv E cs reqs s" "k < length cs" "\<forall>x \<in> set (replied s). good_response (snd x)"
    "m \<in> set (sv_box E s (ce_id (cs ! k)))"
  shows "good_response m"
proof -
  have "m \<in> set (messages_for (ce_id (cs ! k)) (replied s))"
    using assms(1,2,4) by (auto simp: sessions_inv_def session_inv_def)
  then show ?thesis using assms(3) by (auto simp: messages_for_def)
qed

text \<open>A step of a client that changes its own session only.\<close>

lemma client_moves:
  assumes inv: "service_inv E cs xs s" and k: "k < length cs"
    and tight: "sv_tight E cs n"
    and db: "net_boxes (sv_blks E) (sv_own E) n (sv_db E) = sv_box E s (sv_db E) @ map MRequest new"
    and new: "\<forall>r \<in> set new. \<exists>i. r = request_of (cs ! k) i"
    and others: "\<And>j. j < length cs \<Longrightarrow> j \<noteq> k \<Longrightarrow>
      net_boxes (sv_blks E) (sv_own E) n (ce_id (cs ! j)) = sv_box E s (ce_id (cs ! j))"
    and own: "\<And>reqs. session_inv (cs ! k) reqs (replied s) (sv_box E s (ce_id (cs ! k))) (sessions s ! k) \<Longrightarrow>
      session_inv (cs ! k) (reqs @ new) (replied s) (net_boxes (sv_blks E) (sv_own E) n (ce_id (cs ! k))) p"
  shows "service_inv E cs xs (set_session k p (s\<lparr>sv_net := n\<rparr>))"
proof -
  let ?s = "set_session k p (s\<lparr>sv_net := n\<rparr>)"
  obtain qs where qs: "sv_box E s (sv_db E) = map MRequest qs" "sessions_inv E cs (served s @ qs) s"
    and ok: "service_ok E cs" and ph: "db_phase E xs s" and db_inv: "db_inv (sv_task s)"
    using inv by (auto simp: service_inv_def)
  have sel: "served ?s = served s" "replied ?s = replied s" "b_pc ?s = b_pc s" "b_count ?s = b_count s"
    "sv_task ?s = sv_task s" "sv_net ?s = n" "sessions ?s = (sessions s)[k := p]"
    by (simp_all add: set_session_def)
  have "session_inv (cs ! j) (served s @ qs @ new) (replied s) (sv_box E ?s (ce_id (cs ! j))) (sessions ?s ! j)"
    if j: "j < length cs" for j
  proof (cases "j = k")
    case True
    with own [of "served s @ qs"] qs(2) k show ?thesis by (simp add: sessions_inv_def sv_box_def sel)
  next
    case False
    then have "requests_from (ce_id (cs ! j)) new = []"
      using new service_ok_ids(2) [OF ok j k] by (fastforce simp: requests_from_def filter_empty_conv)
    with False others [OF j] qs(2) j show ?thesis
      by (auto simp: sessions_inv_def sv_box_def sel intro: session_inv_unchanged)
  qed
  moreover have "\<forall>r \<in> set (served s @ qs @ new). \<exists>c \<in> set cs. \<exists>i. r = request_of c i"
    using qs(2) new k by (auto simp: sessions_inv_def) (metis nth_mem)
  ultimately have "sessions_inv E cs (served ?s @ qs @ new) ?s"
    using qs(2) by (simp add: sessions_inv_def sel)
  moreover have "sv_box E ?s (sv_db E) = map MRequest (qs @ new)"
    using db qs(1) by (simp add: sv_box_def sel)
  moreover have "db_phase E xs ?s"
    using ph db by (auto simp: db_phase_def answers_ok_def sel sv_box_def split: db_pc.splits)
  ultimately show ?thesis
    unfolding service_inv_def using ok tight db_inv by (intro conjI exI [of _ "qs @ new"]) (simp_all only: sel)
qed

lemma client_step_inv:
  assumes inv: "service_inv E cs xs s" and k: "k < length cs" and st: "client_step E (cs ! k) k s = Some s'"
  shows "service_inv E cs xs s'"
proof -
  let ?c = "cs ! k" and ?p = "sessions s ! k"
  obtain qs where qs: "sv_box E s (sv_db E) = map MRequest qs" "sessions_inv E cs (served s @ qs) s"
    and ok: "service_ok E cs" and ph: "db_phase E xs s" and t: "sv_tight E cs (sv_net s)"
    using inv by (auto simp: service_inv_def)
  have si: "session_inv ?c (served s @ qs) (replied s) (sv_box E s (ce_id ?c)) ?p"
    using qs(2) k by (simp add: sessions_inv_def)
  have cok: "ce_type ?c \<in> {1, 2, 3, 4}" "os_ok (sv_os E)" using ok k by (auto simp: service_ok_def)
  note ids = service_ok_ids [OF ok]
  have same: "service_inv E cs xs (set_session k p s)"
    if "\<And>reqs. session_inv ?c reqs (replied s) (sv_box E s (ce_id ?c)) ?p \<Longrightarrow>
      session_inv ?c reqs (replied s) (sv_box E s (ce_id ?c)) p" for p
    using client_moves [OF inv k t, of "[]" p] that by (simp add: sv_box_def)
  note box = sv_box_def [symmetric]
  show ?thesis
  proof (cases "k_pc ?p")
    case K_send
    show ?thesis
    proof (cases "int (k_i ?p) < sint (ce_count ?c)")
      case True
      let ?r = "request_of ?c (k_i ?p)" and ?l = "(sv_os E, sv_own E (ce_id ?c), MRequest (request_of ?c (k_i ?p)))"
      have s': "s' = set_session k (?p\<lparr>k_pc := K_poll\<rparr>) (s\<lparr>sv_net := fst (net_post (sv_db E) ?l (sv_net s))\<rparr>)"
        using st K_send True Client_request_eq [OF cok(1)]
        by (simp add: client_step_def request_of_def Let_def)
      have "length (net_boxes (sv_blks E) (sv_own E) (sv_net s) (sv_db E)) < 100"
        using few_messages(1) [OF inv] ids(3) by (simp add: box)
      note post = sv_post [OF t sv_ids(1) request_letter [OF cok] this]
      show ?thesis unfolding s'
      proof (rule client_moves [OF inv k post(1), where new = "[?r]"])
        show "net_boxes (sv_blks E) (sv_own E) (fst (net_post (sv_db E) ?l (sv_net s))) (sv_db E) =
            sv_box E s (sv_db E) @ map MRequest [?r]"
          using post(2) [OF sv_ids(1)] by (simp add: box)
        show "net_boxes (sv_blks E) (sv_own E) (fst (net_post (sv_db E) ?l (sv_net s))) (ce_id (cs ! j)) =
            sv_box E s (ce_id (cs ! j))" if "j < length cs" "j \<noteq> k" for j
          using post(2) [OF sv_ids(2) [OF that(1)]] ids(1) [OF that(1)] by (simp add: box)
        have "net_boxes (sv_blks E) (sv_own E) (fst (net_post (sv_db E) ?l (sv_net s))) (ce_id ?c) =
            sv_box E s (ce_id ?c)"
          using post(2) [OF sv_ids(2) [OF k]] ids(1) [OF k] by (simp add: box)
        then show "session_inv ?c (reqs @ [?r]) (replied s)
            (net_boxes (sv_blks E) (sv_own E) (fst (net_post (sv_db E) ?l (sv_net s))) (ce_id ?c)) (?p\<lparr>k_pc := K_poll\<rparr>)"
          if "session_inv ?c reqs (replied s) (sv_box E s (ce_id ?c)) ?p" for reqs
          using that True K_send by (simp add: session_inv_def waiting_def)
      qed auto
    next
      case False
      then have "s' = set_session k (?p\<lparr>k_pc := K_done\<rparr>) s"
        using st K_send by (simp add: client_step_def Let_def)
      then show ?thesis using False K_send by (auto intro!: same simp: session_inv_def waiting_def)
    qed
  next
    case K_poll
    let ?b = "sv_box E s (ce_id ?c)"
    have pk: "net_peek (sv_os E) (sv_own E) (ce_id ?c) (sv_net s) = (sv_net s, in_getMsgTag ?b)"
      using sv_peek [OF t sv_ids(2) [OF k]] by (simp add: sv_box_def)
    then have ne: "?b \<noteq> []" and s': "s' = set_session k (?p\<lparr>k_pc := K_got (in_getMsgTag ?b)\<rparr>) s"
      using st K_poll by (auto simp: client_step_def Let_def split: if_splits)
    obtain pend where "answers_ok E xs s (replied s @ pend)" using phase_replies [OF ph] by blast
    then have "\<forall>x \<in> set (replied s). good_response (snd x)" by (simp add: answers_ok_def)
    with ne box_good [OF qs(2) k] have "in_getMsgTag ?b = RESPONSE_MSG"
      by (cases ?b) (auto simp: tag_of_response)
    with ne K_poll show ?thesis unfolding s' by (auto intro!: same simp: session_inv_def waiting_def)
  next
    case (K_got tg)
    then obtain y ys where y: "tg = RESPONSE_MSG" "sv_box E s (ce_id ?c) = y # ys"
      using si by (cases "sv_box E s (ce_id ?c)") (auto simp: session_inv_def)
    obtain n where n: "net_fetch (sv_blks E) (sv_own E) (ce_id ?c) (sv_net s) = (n, Some y)" "sv_tight E cs n"
      "\<forall>c \<in> sv_ids E cs. net_boxes (sv_blks E) (sv_own E) n c = (if c = ce_id ?c then ys else sv_box E s c)"
      using sv_fetch [OF t sv_ids(2) [OF k], of y ys] y(2) by (auto simp: sv_box_def)
    obtain pend where "answers_ok E xs s (replied s @ pend)" using phase_replies [OF ph] by blast
    then have "\<forall>x \<in> set (replied s). good_response (snd x)" by (simp add: answers_ok_def)
    with box_good [OF qs(2) k] y(2) have "good_response y" by simp
    then obtain r where "y = MResponse r" by (auto simp: good_response_def)
    then have s': "s' = set_session k (?p\<lparr>k_pc := K_send, k_i := Suc (k_i ?p), k_answers := k_answers ?p @ [y]\<rparr>)
        (s\<lparr>sv_net := n\<rparr>)"
      using st K_got y(1) n(1) by (simp add: client_step_def Let_def as_response_def db_enums)
    show ?thesis unfolding s'
    proof (rule client_moves [OF inv k n(2), where new = "[]"])
      show "net_boxes (sv_blks E) (sv_own E) n (sv_db E) = sv_box E s (sv_db E) @ map MRequest []"
        using n(3) ids(1) [OF k] by simp
      show "net_boxes (sv_blks E) (sv_own E) n (ce_id (cs ! j)) = sv_box E s (ce_id (cs ! j))"
        if "j < length cs" "j \<noteq> k" for j
        using n(3) sv_ids(2) [OF that(1)] ids(2) [OF that(1) k] that(2) by simp
      show "session_inv ?c (reqs @ []) (replied s) (net_boxes (sv_blks E) (sv_own E) n (ce_id ?c))
          (?p\<lparr>k_pc := K_send, k_i := Suc (k_i ?p), k_answers := k_answers ?p @ [y]\<rparr>)"
        if "session_inv ?c reqs (replied s) (sv_box E s (ce_id ?c)) ?p" for reqs
        using that y K_got n(3) sv_ids(2) [OF k] by (simp add: session_inv_def waiting_def)
    qed simp
  qed (use st in \<open>simp_all add: client_step_def\<close>)
qed

lemma sv_box_update [simp]:
  "sv_box E (s\<lparr>b_pc := a\<rparr>) d = sv_box E s d" "sv_box E (s\<lparr>b_count := c\<rparr>) d = sv_box E s d"
  "sv_box E (s\<lparr>served := v\<rparr>) d = sv_box E s d" "sv_box E (s\<lparr>replied := w\<rparr>) d = sv_box E s d"
  "sv_box E (s\<lparr>sv_task := t\<rparr>) d = sv_box E s d"
  "sv_box E (s\<lparr>sv_net := n\<rparr>) d = net_boxes (sv_blks E) (sv_own E) n d"
  by (simp_all add: sv_box_def)

lemma sessions_inv_cong:
  assumes "sessions s' = sessions s" "replied s' = replied s"
    "\<And>k. k < length cs \<Longrightarrow> sv_box E s' (ce_id (cs ! k)) = sv_box E s (ce_id (cs ! k))"
  shows "sessions_inv E cs reqs s' = sessions_inv E cs reqs s"
  using assms by (auto simp: sessions_inv_def)

lemma sv_max_ge: "service_ok E cs \<Longrightarrow> 0 \<le> sint (sv_max E)"
  by (auto simp: service_ok_def intro!: sum_list_nonneg)

lemma sint_incr_less:
  fixes a b :: cint
  assumes "sint a < sint b"
  shows "sint (a + 1) = sint a + 1"
proof -
  have "sint b < 2 ^ 31" "- (2 ^ 31) \<le> sint a" using sint_lt [of b] sint_ge [of a] by simp_all
  then have "signed_take_bit 31 (sint a + 1) = sint a + 1" using assms by (intro signed_take_bit_int_eq_self) simp_all
  then show ?thesis by (simp add: sint_word_ariths)
qed

lemma db_loop_inv:
  assumes inv: "service_inv E cs xs s" and pc: "b_pc s = B_loop" and st: "db_step E s = Some s'"
  shows "service_inv E cs xs s'"
proof -
  obtain qs where qs: "sv_box E s (sv_db E) = map MRequest qs" "sessions_inv E cs (served s @ qs) s"
    and ok: "service_ok E cs" and ph: "db_phase E xs s" and t: "sv_tight E cs (sv_net s)" "db_inv (sv_task s)"
    using inv by (auto simp: service_inv_def)
  have "sv_max E \<noteq> - 1" using sv_max_ge [OF ok] by auto
  then have s': "s' = (if sint (b_count s) < sint (sv_max E) then s\<lparr>b_pc := B_poll, b_count := b_count s + 1\<rparr>
      else s\<lparr>b_pc := B_done\<rparr>)"
    using st pc by (simp add: db_step_def Let_def split: if_splits)
  have "sint (b_count s + 1) = sint (b_count s) + 1" if "sint (b_count s) < sint (sv_max E)"
    using sint_incr_less [OF that] .
  then have "db_phase E xs s'"
    using ph pc by (simp add: s' db_phase_def answers_ok_def)
  moreover have "sessions_inv E cs (served s' @ qs) s'"
    using qs(2) sessions_inv_cong [of s' s cs E] by (simp add: s')
  moreover have "sv_box E s' (sv_db E) = map MRequest qs" "sv_net s' = sv_net s" "sv_task s' = sv_task s"
    using qs(1) by (simp_all add: s')
  ultimately show ?thesis unfolding service_inv_def using ok t by auto
qed

lemma db_poll_inv:
  assumes inv: "service_inv E cs xs s" and pc: "b_pc s = B_poll" and st: "db_step E s = Some s'"
  shows "service_inv E cs xs s'"
proof -
  obtain qs where qs: "sv_box E s (sv_db E) = map MRequest qs" "sessions_inv E cs (served s @ qs) s"
    and ok: "service_ok E cs" and ph: "db_phase E xs s" and t: "sv_tight E cs (sv_net s)" "db_inv (sv_task s)"
    using inv by (auto simp: service_inv_def)
  have pk: "net_peek (sv_os E) (sv_own E) (sv_db E) (sv_net s) = (sv_net s, in_getMsgTag (map MRequest qs))"
    using sv_peek [OF t(1) sv_ids(1)] qs(1) by (simp add: sv_box_def)
  then obtain r qs' where r: "qs = r # qs'" and s': "s' = s\<lparr>b_pc := B_got (tag r)\<rparr>"
    using st pc by (cases qs) (auto simp: db_step_def Let_def split: if_splits)
  have tg: "tag r = REQUEST_MSG" using request_known [OF qs(2), of r] r by auto
  have "db_phase E xs s'" using ph pc qs(1) r tg by (simp add: s' db_phase_def answers_ok_def)
  moreover have "sessions_inv E cs (served s @ qs) s'"
    using qs(2) sessions_inv_cong [of s' s cs E] by (simp add: s')
  ultimately show ?thesis
    unfolding service_inv_def using ok t qs(1) by (intro conjI exI [of _ qs]) (simp_all add: s')
qed

lemma db_got_inv:
  assumes inv: "service_inv E cs xs s" and pc: "b_pc s = B_got tg" and st: "db_step E s = Some s'"
  shows "service_inv E cs xs s'"
proof -
  obtain qs where qs: "sv_box E s (sv_db E) = map MRequest qs" "sessions_inv E cs (served s @ qs) s"
    and ok: "service_ok E cs" and ph: "db_phase E xs s" and t: "sv_tight E cs (sv_net s)" "db_inv (sv_task s)"
    using inv by (auto simp: service_inv_def)
  have tg: "tg = REQUEST_MSG" "qs \<noteq> []" and ans: "answers_ok E xs s (replied s)"
    using ph pc qs(1) by (auto simp: db_phase_def)
  then obtain r qs' where r: "qs = r # qs'" by (cases qs) auto
  obtain k i where "k < length cs" "r = request_of (cs ! k) i"
    using request_known [OF qs(2), of r] r by auto
  then have "ok_request (sv_around E) r" using ok by (simp add: service_ok_def)
  from db_answers [OF t(2) this, of "sv_res E"] obtain t' m where t':
    "handle_RequestMsg (sv_around E) (sv_task s) r = Inr t'" "db_inv t'"
    "Database_respond (Some (sv_res E)) t' = Inr (sender_task_id r, m)" "good_response m"
    "(db_records t', reply_of m) = spec_request (sv_around E) r (db_records (sv_task s))" by blast
  obtain n where n: "net_fetch (sv_blks E) (sv_own E) (sv_db E) (sv_net s) = (n, Some (MRequest r))"
    "sv_tight E cs n" "\<forall>c \<in> sv_ids E cs. net_boxes (sv_blks E) (sv_own E) n c =
      (if c = sv_db E then map MRequest qs' else sv_box E s c)"
    using sv_fetch [OF t(1) sv_ids(1), of "MRequest r" "map MRequest qs'"] qs(1) r by (auto simp: sv_box_def)
  have s': "s' = s\<lparr>sv_net := n, sv_task := t', served := served s @ [r], b_pc := B_send\<rparr>"
    using st pc tg(1) n(1) t'(1) by (simp add: db_step_def Let_def as_request_def bindR_def)
  have "spec_serve (sv_around E) (served s @ [r]) xs =
      (db_records t', map (\<lambda>x. reply_of (snd x)) (replied s) @ [reply_of m])"
    using ans t'(5) [symmetric] by (simp add: spec_serve_snoc answers_ok_def)
  then have "answers_ok E xs s' (replied s' @ [(sender_task_id r, m)])"
    using ans t'(4) by (simp add: answers_ok_def s')
  then have "db_phase E xs s'" using ph pc t'(3) by (auto simp: db_phase_def s')
  moreover have "sessions_inv E cs (served s' @ qs') s'"
    using qs(2) r n(3) service_ok_ids(1) [OF ok] sessions_inv_cong [of s' s cs E] by (simp add: s')
  moreover have "sv_box E s' (sv_db E) = map MRequest qs'" using n(3) sv_ids(1) by (simp add: s')
  ultimately show ?thesis
    unfolding service_inv_def using ok n(2) t'(2) by (intro conjI exI [of _ qs']) (simp_all add: s')
qed

lemma session_inv_answer:
  assumes "session_inv c reqs reps bx p"
  shows "session_inv c reqs (reps @ [(d, m)]) (bx @ (if ce_id c = d then [m] else [])) p"
  using assms by (auto simp: session_inv_def messages_for_append messages_for_def split: cl_pc.splits)

lemma db_send_inv:
  assumes inv: "service_inv E cs xs s" and pc: "b_pc s = B_send" and st: "db_step E s = Some s'"
  shows "service_inv E cs xs s'"
proof -
  obtain qs where qs: "sv_box E s (sv_db E) = map MRequest qs" "sessions_inv E cs (served s @ qs) s"
    and ok: "service_ok E cs" and ph: "db_phase E xs s" and t: "sv_tight E cs (sv_net s)" "db_inv (sv_task s)"
    using inv by (auto simp: service_inv_def)
  obtain d m where dm: "Database_respond (Some (sv_res E)) (sv_task s) = Inr (d, m)"
    "answers_ok E xs s (replied s @ [(d, m)])"
    using ph pc by (auto simp: db_phase_def)
  let ?l = "(sv_os E, sv_own E (sv_db E), m)"
  have s': "s' = s\<lparr>sv_net := fst (net_post d ?l (sv_net s)), replied := replied s @ [(d, m)], b_pc := B_loop\<rparr>"
    using st pc dm(1) by (simp add: db_step_def Let_def)
  have m: "good_response m" "norm_msg m = m" using dm(2) by (auto simp: answers_ok_def good_response_def)
  have fsts: "map fst (replied s) @ [d] = map sender_task_id (served s)" using dm(2) by (simp add: answers_ok_def)
  have "d \<in> set (map sender_task_id (served s))" unfolding fsts [symmetric] by simp
  then obtain r where r: "r \<in> set (served s)" "sender_task_id r = d" by auto
  then obtain k where k: "k < length cs" "d = ce_id (cs ! k)" using request_known [OF qs(2), of r] by auto
  have d: "d \<in> sv_ids E cs" "d \<noteq> sv_db E" using k service_ok_ids(1) [OF ok k(1)] sv_ids(2) [OF k(1)] by simp_all
  have "length (net_boxes (sv_blks E) (sv_own E) (sv_net s) d) < 100"
    using few_messages(2) [OF inv k(1)] k(2) by (simp add: sv_box_def)
  moreover have "os_ok (sv_os E)" using ok by (simp add: service_ok_def)
  ultimately have post: "sv_tight E cs (sv_net s')"
    "\<And>c. c \<in> sv_ids E cs \<Longrightarrow> sv_box E s' c = sv_box E s c @ (if c = d then [m] else [])"
    using sv_post [OF t(1) d(1) response_letter [OF m(1), of "sv_os E" "sv_own E (sv_db E)"]] m(2)
    by (simp_all add: s' sv_box_def)
  have "session_inv (cs ! j) (served s @ qs) (replied s') (sv_box E s' (ce_id (cs ! j))) (sessions s' ! j)"
    if j: "j < length cs" for j
    using session_inv_answer [of "cs ! j" "served s @ qs" "replied s" "sv_box E s (ce_id (cs ! j))" "sessions s ! j" d m]
      qs(2) j post(2) [OF sv_ids(2) [OF j]] by (simp add: sessions_inv_def s')
  then have "sessions_inv E cs (served s @ qs) s'" using qs(2) by (simp add: sessions_inv_def s')
  moreover have "sv_box E s' (sv_db E) = map MRequest qs" using post(2) [OF sv_ids(1)] d(2) qs(1) by simp
  moreover have "db_phase E xs s'" using ph pc dm(2) by (simp add: db_phase_def answers_ok_def s')
  ultimately show ?thesis
    unfolding service_inv_def using ok post(1) t(2) by (intro conjI exI [of _ qs]) (simp_all add: s')
qed

lemma service_inv_step:
  assumes "service_step E cs s s'" "service_inv E cs xs s"
  shows "service_inv E cs xs s'"
  using assms
proof (cases rule: service_step.cases)
  case database
  with assms(2) show ?thesis
    by (cases "b_pc s") (auto intro: db_loop_inv db_poll_inv db_got_inv db_send_inv simp: db_step_def Let_def)
next
  case (client k)
  with assms(2) show ?thesis by (blast intro: client_step_inv)
qed

text \<open>The queues of the tasks have been created, and nothing has been sent.\<close>

definition fresh_network :: "service_env \<Rightarrow> client_env list \<Rightarrow> net \<Rightarrow> bool" where
  "fresh_network E cs n \<longleftrightarrow>
     sv_tight E cs n \<and> (\<forall>d \<in> sv_ids E cs. net_boxes (sv_blks E) (sv_own E) n d = [])"

lemma service_created:
  assumes "service_ok E cs"
  shows "\<exists>n. create_all (sv_os E) (sv_own E) (sv_db E # map ce_id cs) net_start = Inr n \<and> fresh_network E cs n"
  using create_all_tight [of "sv_os E" "sv_blks E" "sv_db E # map ce_id cs"] assms
  unfolding service_ok_def fresh_network_def sv_tight_def sv_ids_def by blast

lemma service_inv_start:
  assumes "service_ok E cs" "db_inv t" "fresh_network E cs n"
  shows "service_inv E cs (db_records t) (service_start cs t n)"
proof -
  have n: "sv_tight E cs n" "\<forall>d \<in> sv_ids E cs. sv_box E (service_start cs t n) d = []"
    using assms(3) by (simp_all add: fresh_network_def sv_box_def service_start_def)
  have "session_inv (cs ! k) [] [] [] \<lparr>k_pc = K_send, k_i = 0, k_answers = []\<rparr>" if "k < length cs" for k
    using assms(1) nth_mem [OF that] by (auto simp: service_ok_def session_inv_def waiting_def messages_for_def)
  moreover have "sv_box E (service_start cs t n) (ce_id (cs ! k)) = []" if "k < length cs" for k
    using n(2) sv_ids(2) [OF that] by blast
  ultimately have "sessions_inv E cs [] (service_start cs t n)"
    by (simp add: sessions_inv_def) (simp add: service_start_def)
  moreover have "db_phase E (db_records t) (service_start cs t n)"
    using sv_max_ge [OF assms(1)] by (simp add: db_phase_def answers_ok_def service_start_def)
  ultimately show ?thesis
    using assms(1,2) n sv_ids(1) [of E cs] unfolding service_inv_def
    by (intro conjI exI [of _ "[]"]) (simp_all add: service_start_def)
qed

section \<open>Every run comes to rest\<close>

text \<open>A bound on the steps that are left: at most four for every request in the database, three in its client.\<close>

definition db_left :: "service_env \<Rightarrow> service \<Rightarrow> nat" where
  "db_left E s =
     (let r = nat (sint (sv_max E) - sint (b_count s)) in
      case b_pc s of B_loop \<Rightarrow> 4 * r + 1 | B_poll \<Rightarrow> 4 * r + 4 | B_got _ \<Rightarrow> 4 * r + 3 | B_send \<Rightarrow> 4 * r + 2 | _ \<Rightarrow> 0)"

definition client_left :: "client_env \<Rightarrow> session \<Rightarrow> nat" where
  "client_left c p =
     (let r = nat (sint (ce_count c)) - k_i p in
      case k_pc p of K_send \<Rightarrow> 3 * r + 1 | K_poll \<Rightarrow> 3 * r | K_got _ \<Rightarrow> 3 * r - 1 | _ \<Rightarrow> 0)"

definition service_left :: "service_env \<Rightarrow> client_env list \<Rightarrow> service \<Rightarrow> nat" where
  "service_left E cs s = db_left E s + (\<Sum>k<length cs. client_left (cs ! k) (sessions s ! k))"

lemma db_step_left:
  assumes "db_step E s = Some s'" "service_inv E cs xs s"
  shows "sessions s' = sessions s \<and> db_left E s' < db_left E s"
proof (cases "b_pc s")
  case B_loop
  have "sv_max E \<noteq> - 1" using sv_max_ge [of E cs] assms(2) by (auto simp: service_inv_def)
  with B_loop assms(1) show ?thesis
    by (auto simp: db_step_def Let_def db_left_def sint_incr_less split: if_splits)
next
  case B_send
  with assms(1) show ?thesis
    by (auto simp: db_step_def Let_def db_left_def split: sum.splits prod.splits)
next
  case (B_got tg)
  with assms(1) show ?thesis
    by (auto simp: db_step_def Let_def db_left_def split: if_splits sum.splits prod.splits option.splits)
next
  case B_poll
  with assms(1) show ?thesis
    by (auto simp: db_step_def Let_def db_left_def split: if_splits prod.splits)
qed (use assms(1) in \<open>simp_all add: db_step_def\<close>)

lemma client_step_left:
  assumes "client_step E c k s = Some s'" "session_inv c reqs reps bx (sessions s ! k)"
  shows "\<exists>p. sessions s' = (sessions s)[k := p] \<and> b_pc s' = b_pc s \<and> b_count s' = b_count s \<and>
    client_left c p < client_left c (sessions s ! k)"
proof (cases "k_pc (sessions s ! k)")
  case K_send
  then show ?thesis
    using assms by (auto simp: client_step_def Let_def set_session_def client_left_def split: if_splits sum.splits)
next
  case K_poll
  then show ?thesis
    using assms by (auto simp: client_step_def Let_def set_session_def client_left_def session_inv_def waiting_def
      split: if_splits prod.splits)
next
  case (K_got tg)
  then show ?thesis
    using assms by (auto simp: client_step_def Let_def set_session_def client_left_def session_inv_def waiting_def
      split: if_splits prod.splits sum.splits option.splits)
qed (use assms in \<open>simp_all add: client_step_def Let_def\<close>)

lemma service_left_less:
  assumes "service_step E cs s s'" "service_inv E cs xs s"
  shows "service_left E cs s' < service_left E cs s"
  using assms(1)
proof (cases rule: service_step.cases)
  case database
  then show ?thesis using db_step_left [OF _ assms(2)] by (simp add: service_left_def)
next
  case (client k)
  obtain reqs where "sessions_inv E cs reqs s" using assms(2) by (auto simp: service_inv_def)
  with client(1) have len: "length (sessions s) = length cs"
    and si: "session_inv (cs ! k) reqs (replied s) (sv_box E s (ce_id (cs ! k))) (sessions s ! k)"
    by (simp_all add: sessions_inv_def)
  from client_step_left [OF client(2) si] obtain p where p: "sessions s' = (sessions s)[k := p]"
    "b_pc s' = b_pc s" "b_count s' = b_count s" "client_left (cs ! k) p < client_left (cs ! k) (sessions s ! k)"
    by blast
  have "(\<Sum>j<length cs. client_left (cs ! j) (sessions s' ! j)) < (\<Sum>j<length cs. client_left (cs ! j) (sessions s ! j))"
    using p client(1) len by (intro sum_strict_mono_ex1) (auto simp: nth_list_update)
  with p show ?thesis by (simp add: service_left_def db_left_def)
qed

interpretation service_system: step_system "service_step E cs"
    "\<lambda>s. \<exists>t n. service_ok E cs \<and> db_inv t \<and> db_records t = xs \<and> s = service_start cs t n \<and>
       fresh_network E cs n"
    "service_inv E cs xs" "service_left E cs" for E cs xs
  by unfold_locales (auto intro: service_inv_step service_left_less service_inv_start)

section \<open>States at rest\<close>

lemma db_stuck:
  assumes "db_step E s = None" "service_inv E cs xs s"
  shows "b_pc s = B_done \<or> b_pc s = B_poll \<and> sv_box E s (sv_db E) = []"
proof -
  have ph: "db_phase E xs s" and t: "sv_tight E cs (sv_net s)" using assms(2) by (simp_all add: service_inv_def)
  obtain qs where qs: "sv_box E s (sv_db E) = map MRequest qs" "sessions_inv E cs (served s @ qs) s"
    using assms(2) by (auto simp: service_inv_def)
  have pk: "net_peek (sv_os E) (sv_own E) (sv_db E) (sv_net s) = (sv_net s, in_getMsgTag (map MRequest qs))"
    using sv_peek [OF t sv_ids(1)] qs(1) by (simp add: sv_box_def)
  have "qs = [] \<or> in_getMsgTag (map MRequest qs) = 0"
    using request_known [OF qs(2), of "hd qs"] by (cases qs) (auto simp: db_enums)
  then show ?thesis
    using assms(1) ph pk qs(1) by (cases "b_pc s") (auto simp: db_step_def Let_def db_phase_def split: if_splits)
qed

lemma client_stuck:
  assumes "client_step E (cs ! k) k s = None" "service_inv E cs xs s" "k < length cs"
  shows "k_pc (sessions s ! k) = K_done \<or> k_pc (sessions s ! k) = K_poll \<and> sv_box E s (ce_id (cs ! k)) = []"
proof -
  let ?b = "sv_box E s (ce_id (cs ! k))"
  have t: "sv_tight E cs (sv_net s)" and ph: "db_phase E xs s" using assms(2) by (simp_all add: service_inv_def)
  obtain reqs where qs: "sessions_inv E cs reqs s" using assms(2) by (auto simp: service_inv_def)
  have pk: "net_peek (sv_os E) (sv_own E) (ce_id (cs ! k)) (sv_net s) = (sv_net s, in_getMsgTag ?b)"
    using sv_peek [OF t sv_ids(2) [OF assms(3)]] by (simp add: sv_box_def)
  obtain pend where "answers_ok E xs s (replied s @ pend)" using phase_replies [OF ph] by blast
  then have "\<forall>x \<in> set (replied s). good_response (snd x)" by (simp add: answers_ok_def)
  from box_good [OF qs assms(3) this] have "?b = [] \<or> in_getMsgTag ?b = 1"
    by (cases ?b) (simp_all add: tag_of_response db_enums)
  moreover have "session_inv (cs ! k) reqs (replied s) ?b (sessions s ! k)"
    using qs assms(3) by (simp add: sessions_inv_def)
  ultimately show ?thesis
    using assms(1) pk by (cases "k_pc (sessions s ! k)")
      (auto simp: client_step_def Let_def session_inv_def split: if_splits)
qed

text \<open>How many requests the clients have sent, and how many they will.\<close>

lemma requests_total:
  assumes "sessions_inv E cs reqs s" "service_ok E cs"
  shows "length reqs = (\<Sum>k<length cs. k_i (sessions s ! k) + of_bool (waiting (sessions s ! k)))"
proof -
  have "\<forall>r \<in> set reqs. sender_task_id r \<in> set (map ce_id cs)"
    using assms(1) unfolding sessions_inv_def by (metis image_eqI list.set_map request_of_sender(1))
  moreover have "distinct (map ce_id cs)" using assms(2) by (simp add: service_ok_def)
  ultimately have "length reqs = (\<Sum>d\<leftarrow>map ce_id cs. length (requests_from d reqs))"
    by (intro length_by_ids) blast+
  also have "\<dots> = (\<Sum>k<length cs. length (requests_from (ce_id (cs ! k)) reqs))"
    by (simp add: sum_list_sum_nth atLeast0LessThan)
  also have "\<dots> = (\<Sum>k<length cs. k_i (sessions s ! k) + of_bool (waiting (sessions s ! k)))"
    using assms(1) by (intro sum.cong refl) (simp add: sessions_inv_def session_inv_def)
  finally show ?thesis .
qed

lemma requests_max:
  assumes "service_ok E cs"
  shows "sint (sv_max E) = (\<Sum>k<length cs. sint (ce_count (cs ! k)))"
  using assms by (simp add: service_ok_def sum_list_sum_nth atLeast0LessThan)

text \<open>A state without a step: the database has left its loop, every client its own, and no message waits.\<close>

lemma at_rest:
  assumes inv: "service_inv E cs xs s" and rest: "\<nexists>s'. service_step E cs s s'"
  shows "b_pc s = B_done" "k < length cs \<Longrightarrow> k_pc (sessions s ! k) = K_done"
    "d \<in> sv_ids E cs \<Longrightarrow> sv_box E s d = []"
proof -
  obtain qs where qs: "sv_box E s (sv_db E) = map MRequest qs" "sessions_inv E cs (served s @ qs) s"
    and ok: "service_ok E cs" and ph: "db_phase E xs s"
    using inv by (auto simp: service_inv_def)
  note cl = client_stuck [OF _ inv]
  have none: "db_step E s = None" "\<And>k. k < length cs \<Longrightarrow> client_step E (cs ! k) k s = None"
    using rest by (meson client database not_None_eq)+
  have db: "b_pc s = B_done \<or> b_pc s = B_poll \<and> qs = []" using db_stuck [OF none(1) inv] qs(1) by auto
  then have "b_pc s \<noteq> B_send" by auto
  with phase_replies [OF ph] have "answers_ok E xs s (replied s @ [])" by auto
  then have sent: "map fst (replied s @ []) = map sender_task_id (served s)" by (simp add: answers_ok_def)
  have si: "session_inv (cs ! k) (served s @ qs) (replied s) (sv_box E s (ce_id (cs ! k))) (sessions s ! k)"
    if "k < length cs" for k using qs(2) that by (simp add: sessions_inv_def)
  note total = requests_total [OF qs(2) ok] requests_max [OF ok]
  have "int (length (served s @ qs)) =
      (\<Sum>k<length cs. int (k_i (sessions s ! k) + of_bool (waiting (sessions s ! k))))"
    unfolding total(1) by (rule of_nat_sum)
  also have "\<dots> \<le> sint (sv_max E)"
    unfolding total(2) using si by (intro sum_mono) (simp add: session_inv_def)
  finally have "qs = []" using db ph by (auto simp: db_phase_def)
  have over: "k_pc (sessions s ! k) = K_done \<and> sv_box E s (ce_id (cs ! k)) = []" if k: "k < length cs" for k
  proof -
    have "length (sv_box E s (ce_id (cs ! k))) = of_bool (waiting (sessions s ! k))"
      using on_the_way [OF si [OF k] sent] \<open>qs = []\<close> by (simp add: messages_for_def)
    with cl [OF none(2) [OF k] k] show ?thesis by (auto simp: waiting_def)
  qed
  then show "k < length cs \<Longrightarrow> k_pc (sessions s ! k) = K_done" by blast
  have "int (length (served s)) = (\<Sum>k<length cs. int (k_i (sessions s ! k)))"
    using total(1) \<open>qs = []\<close> over by (simp add: waiting_def)
  also have "\<dots> = sint (sv_max E)"
    unfolding total(2) using si over by (intro sum.cong refl) (auto simp: session_inv_def)
  finally show "b_pc s = B_done" using db ph by (auto simp: db_phase_def)
  show "sv_box E s d = []" if "d \<in> sv_ids E cs"
    using that over qs(1) \<open>qs = []\<close> by (auto simp: sv_ids_def in_set_conv_nth)
qed

text \<open>What the tasks have done by then.\<close>

definition all_served :: "service_env \<Rightarrow> client_env list \<Rightarrow> student list \<Rightarrow> service \<Rightarrow> bool" where
  "all_served E cs xs s \<longleftrightarrow>
     b_pc s = B_done \<and> (\<forall>d \<in> sv_ids E cs. sv_box E s d = []) \<and>
     spec_serve (sv_around E) (served s) xs =
       (db_records (sv_task s), map (\<lambda>x. reply_of (snd x)) (replied s)) \<and>
     map fst (replied s) = map sender_task_id (served s) \<and>
     length (served s) = nat (sint (sv_max E)) \<and>
     (\<forall>k<length cs. k_pc (sessions s ! k) = K_done \<and>
        requests_from (ce_id (cs ! k)) (served s) =
          map (request_of (cs ! k)) [0..<nat (sint (ce_count (cs ! k)))] \<and>
        k_answers (sessions s ! k) = messages_for (ce_id (cs ! k)) (replied s))"

lemma rest_all_served:
  assumes inv: "service_inv E cs xs s" and rest: "\<nexists>s'. service_step E cs s s'"
  shows "all_served E cs xs s"
proof -
  obtain qs where qs: "sv_box E s (sv_db E) = map MRequest qs" "sessions_inv E cs (served s @ qs) s"
    and ok: "service_ok E cs" and ph: "db_phase E xs s"
    using inv by (auto simp: service_inv_def)
  note r = at_rest [OF inv rest]
  have "qs = []" using qs(1) r(3) [OF sv_ids(1)] by simp
  have ans: "answers_ok E xs s (replied s)" "length (served s) = nat (sint (sv_max E))"
    using ph r(1) by (simp_all add: db_phase_def) linarith
  have "requests_from (ce_id (cs ! k)) (served s) = map (request_of (cs ! k)) [0..<nat (sint (ce_count (cs ! k)))] \<and>
      k_answers (sessions s ! k) = messages_for (ce_id (cs ! k)) (replied s)" if k: "k < length cs" for k
  proof -
    have "session_inv (cs ! k) (served s @ qs) (replied s) (sv_box E s (ce_id (cs ! k))) (sessions s ! k)"
      using qs(2) k by (simp add: sessions_inv_def)
    then have "session_inv (cs ! k) (served s) (replied s) [] (sessions s ! k)"
      using r(3) [OF sv_ids(2) [OF k]] \<open>qs = []\<close> by simp
    then show ?thesis using r(2) [OF k] by (simp add: session_inv_def waiting_def) (metis nat_int)
  qed
  with r ans show ?thesis by (simp add: all_served_def answers_ok_def)
qed

lemma all_served_lengths:
  assumes "all_served E cs xs s" "k < length cs"
  shows "length (k_answers (sessions s ! k)) = nat (sint (ce_count (cs ! k)))"
  using assms length_messages_for [of "replied s" "served s" "ce_id (cs ! k)"] by (simp add: all_served_def)

lemma service_init:
  assumes "service_ok E cs" "db_inv t" "fresh_network E cs n"
  shows "\<exists>t' n'. service_ok E cs \<and> db_inv t' \<and> db_records t' = db_records t \<and>
    service_start cs t n = service_start cs t' n' \<and> fresh_network E cs n'"
  using assms by blast

lemma service_outcome:
  assumes "service_ok E cs" "db_inv t" "fresh_network E cs n"
  shows "\<nexists>f. f 0 = service_start cs t n \<and> (\<forall>i. service_step E cs (f i) (f (Suc i)))"
    "(service_step E cs)\<^sup>*\<^sup>* (service_start cs t n) s \<Longrightarrow> \<nexists>s'. service_step E cs s s' \<Longrightarrow>
       all_served E cs (db_records t) s"
    "\<exists>s. (service_step E cs)\<^sup>*\<^sup>* (service_start cs t n) s \<and> (\<nexists>s'. service_step E cs s s')"
    "(service_step E cs)\<^sup>*\<^sup>* (service_start cs t n) s \<Longrightarrow> service_inv E cs (db_records t) s"
  using service_system.no_infinite_run [OF service_init [OF assms]]
    service_system.inv_reachable [OF _ service_init [OF assms]] rest_all_served
    service_system.comes_to_rest [OF service_init [OF assms] rtranclp.rtrancl_refl] by blast+

lemma service_inv_sessions: "service_inv E cs xs s \<Longrightarrow> length (sessions s) = length cs"
  by (auto simp: service_inv_def sessions_inv_def)

text \<open>A database in process 1 with two clients, one that inserts twice and one that selects once.\<close>

definition sample_env :: service_env where
  "sample_env = \<lparr>sv_os = sample_os, sv_blks = sample_blocks, sv_own = unat, sv_db = 1, sv_max = 3,
     sv_around = tight, sv_res = sample_response\<rparr>"

definition sample_clients :: "client_env list" where
  "sample_clients =
     [\<lparr>ce_task = \<lparr>cl_taskID = 2\<rparr>, ce_type = 2, ce_count = 2, ce_blk = sample_request 0 0 [], ce_pad = \<lambda>_. ([], [])\<rparr>,
      \<lparr>ce_task = \<lparr>cl_taskID = 3\<rparr>, ce_type = 1, ce_count = 1, ce_blk = sample_request 0 0 [], ce_pad = \<lambda>_. ([], [])\<rparr>]"

lemma sample_service_ok: "service_ok sample_env sample_clients"
  using client_req_ok [of 1] client_req_ok [of 2]
  by (simp add: service_ok_def sample_env_def sample_clients_def request_of_def os_ok_def sample_os_def
      Q_SIZE_def blocks_ok_def sample_blocks_def)

text \<open>
  C5. The database and its clients, started over fresh queues: no run is infinite, and a reachable state without
  a step is one in which every task has left its loop, every queue is empty, every request of every client has
  been served in the order its client sent it, the records and the replies are those of the abstract server
  for the order in which the requests were served, and every client has taken exactly the replies to its own
  requests, in order.
\<close>

theorem service_completes:
  assumes "service_ok E cs" "db_inv t"
  shows "\<exists>n. create_all (sv_os E) (sv_own E) (sv_db E # map ce_id cs) net_start = Inr n \<and>
    (\<nexists>f. f 0 = service_start cs t n \<and> (\<forall>i. service_step E cs (f i) (f (Suc i)))) \<and>
    (\<forall>s. (service_step E cs)\<^sup>*\<^sup>* (service_start cs t n) s \<and> (\<nexists>s'. service_step E cs s s') \<longrightarrow>
       all_served E cs (db_records t) s)"
proof -
  obtain n where n: "create_all (sv_os E) (sv_own E) (sv_db E # map ce_id cs) net_start = Inr n"
    "fresh_network E cs n"
    using service_created [OF assms(1)] by blast
  with service_outcome [OF assms n(2)] show ?thesis by blast
qed

theorem service_completes_witness:
  "\<exists>n s. create_all sample_os unat [1, 2, 3] net_start = Inr n \<and>
     (service_step sample_env sample_clients)\<^sup>*\<^sup>* (service_start sample_clients sample_db n) s \<and>
     all_served sample_env sample_clients [] s \<and>
     map (\<lambda>p. length (k_answers p)) (sessions s) = [2, 1]"
proof -
  from service_completes [OF sample_service_ok sample_db_inv] obtain n where
    n: "create_all sample_os unat [1, 2, 3] net_start = Inr n"
    "\<And>s. (service_step sample_env sample_clients)\<^sup>*\<^sup>* (service_start sample_clients sample_db n) s \<Longrightarrow>
       \<nexists>s'. service_step sample_env sample_clients s s' \<Longrightarrow> all_served sample_env sample_clients [] s"
    by (auto simp: sample_env_def sample_clients_def sample_db_def db_records_def)
  have "fresh_network sample_env sample_clients n"
    using service_created [OF sample_service_ok] n(1) by (auto simp: sample_env_def sample_clients_def)
  note out = service_outcome [OF sample_service_ok sample_db_inv this]
  from out(3) obtain s where
    s: "(service_step sample_env sample_clients)\<^sup>*\<^sup>* (service_start sample_clients sample_db n) s"
    "\<nexists>s'. service_step sample_env sample_clients s s'" by blast
  have all: "all_served sample_env sample_clients [] s" by (rule n(2) [OF s])
  have len: "length (sessions s) = 2"
    using service_inv_sessions [OF out(4) [OF s(1)]] by (simp add: sample_clients_def)
  have "length (k_answers (sessions s ! k)) = nat (sint (ce_count (sample_clients ! k)))"
    if "k < length sample_clients" for k
    using all_served_lengths [OF all that] .
  note two = this [of 0] this [of 1]
  obtain p q where "sessions s = [p, q]"
    using len by (cases "sessions s"; cases "tl (sessions s)") simp_all
  with two have "map (\<lambda>p. length (k_answers p)) (sessions s) = [2, 1]"
    by (simp add: sample_clients_def)
  with n(1) s(1) all show ?thesis by (intro exI [of _ n] exI [of _ s] conjI)
qed



end
