(* ===== verification/ServicePrograms.thy ===== *)
theory ServicePrograms
  imports ServiceRuns
begin

text \<open>
  The programs \<open>db_server_test.c\<close> and \<open>db_client_test.c\<close>, from their command lines to the running service:
  the server creates the system and the database task, which registers its name; every client acquires the
  system in a process of its own, creates its task and looks the name up.  The processes are started one
  after the other, and the tasks run once all have been started.  The theorem ties this to \<open>ServiceRuns\<close>.
\<close>

section \<open>Numbers on the command line\<close>

definition is_digit :: "char \<Rightarrow> bool" where
  "is_digit c \<longleftrightarrow> 48 \<le> (of_char c :: nat) \<and> (of_char c :: nat) \<le> 57"

definition is_space :: "char \<Rightarrow> bool" where
  "is_space c \<longleftrightarrow> (of_char c :: nat) = 32 \<or> 9 \<le> (of_char c :: nat) \<and> (of_char c :: nat) \<le> 13"

definition digits_value :: "string \<Rightarrow> nat" where
  "digits_value t = foldl (\<lambda>a c. 10 * a + (of_char c - 48)) 0 (takeWhile is_digit t)"

text \<open>C leaves the result open when the number does not fit; here it wraps.\<close>

definition atoi :: "string \<Rightarrow> cint" where
  "atoi s =
     (case dropWhile is_space s of
        [] \<Rightarrow> 0
      | c # t \<Rightarrow> if c = CHR ''-'' then - of_nat (digits_value t)
                 else if c = CHR ''+'' then of_nat (digits_value t)
                 else of_nat (digits_value (c # t)))"

lemma show_dec_digit: "c \<in> set (show_dec n) \<Longrightarrow> is_digit c"
  using dec_digits_digit [of _ n] by (fastforce simp: show_dec_def is_digit_def)

lemma atoi_show_dec: "atoi (show_dec n) = of_nat n"
proof -
  have tw: "takeWhile is_digit (show_dec n) = show_dec n"
    using show_dec_digit by (simp add: takeWhile_eq_all_conv)
  have "foldl (\<lambda>a c. 10 * a + (of_char c - 48)) 0 cs =
      foldl (\<lambda>a d. 10 * a + d) (0 :: nat) (map (\<lambda>c. of_char c - 48) cs)" for cs :: string
    by (simp add: foldl_map)
  from this [of "show_dec n"] have v: "digits_value (show_dec n) = n"
    unfolding digits_value_def tw show_dec_digits dec_digits_value .
  obtain c t where c: "show_dec n = c # t" by (cases "show_dec n") (simp_all add: show_dec_def)
  then have d: "is_digit c" using show_dec_digit [of c n] by simp
  then have "\<not> is_space c" "c \<noteq> CHR ''-''" "c \<noteq> CHR ''+''" by (auto simp: is_digit_def is_space_def)
  with c v show ?thesis by (simp add: atoi_def)
qed

section \<open>The programs\<close>

text \<open>The segment of the system, and the processes with their queues.\<close>

record world =
  w_sys :: sysshm
  w_net :: net

text \<open>The constructor of a task, called in process \<open>p\<close> with the system object \<open>Comm\<close>.\<close>

definition in_process ::
  "(mem \<Rightarrow> shm \<Rightarrow> System \<Rightarrow> (mem \<times> shm \<times> System \<times> 't) res) \<Rightarrow> nat \<Rightarrow> System \<Rightarrow> world \<Rightarrow> (world \<times> 't) res" where
  "in_process create p Comm w =
     bindR (create (sys_segs (w_sys w) (sdata Comm)) (nshm (w_net w)) Comm) (\<lambda>(d, s, Comm', t).
       Inr (\<lparr>w_sys = (w_sys w)\<lparr>sys_segs := (sys_segs (w_sys w))(sdata Comm := d)\<rparr>,
             w_net = \<lparr>nshm = s, procs = (procs (w_net w))(p := Comm')\<rparr>\<rparr>, t))"

text \<open>
  \<open>main\<close> of the two programs up to the wait for \<open>done\<close>, in process \<open>p\<close>: the task, and the globals that are
  read from the command line.
\<close>

definition db_server_main ::
  "sysos \<Rightarrow> os \<Rightarrow> DatabaseTask option \<Rightarrow> nat \<Rightarrow> string list \<Rightarrow> world \<Rightarrow> (world \<times> DatabaseTask \<times> cint) res" where
  "db_server_main se e blk p argv w =
     (let max_request = (if 2 \<le> length argv then atoi (argv ! 1) else - 1) in
      bindR (System_create se (w_sys w)) (\<lambda>(ss, Comm).
      bindR (in_process (DatabaseTask_create blk e (thread_ok se)) p Comm (w\<lparr>w_sys := ss\<rparr>)) (\<lambda>(w', server_task).
        Inr (w', server_task, max_request))))"

definition db_client_main ::
  "sysos \<Rightarrow> os \<Rightarrow> ClientTask option \<Rightarrow> nat \<Rightarrow> string list \<Rightarrow> world \<Rightarrow> (world \<times> ClientTask \<times> cint \<times> cint) res" where
  "db_client_main se e blk p argv w =
     (if length argv \<noteq> 3 then Inl (ExitCall (- 1))
      else
        let nb_request = atoi (argv ! 1); req_type = atoi (argv ! 2) in
        bindR (System_acquire se (w_sys w)) (\<lambda>Comm.
        bindR (in_process (ClientTask_create blk e (thread_ok se)) p Comm w) (\<lambda>(w', client_task).
          Inr (w', client_task, nb_request, req_type))))"

text \<open>How \<open>start\<close> of the two tasks begins: the name is set, and looked up.\<close>

definition db_register :: "nat \<Rightarrow> DatabaseTask \<Rightarrow> world \<Rightarrow> world res" where
  "db_register p this w =
     (let Comm = procs (w_net w) p; g = sdata Comm in
      bindR (repository_set_name (sextent Comm) (sys_segs (w_sys w) g) (bytes_of ''database'' @ [0]) (db_taskID this))
        (\<lambda>d. Inr (w\<lparr>w_sys := (w_sys w)\<lparr>sys_segs := (sys_segs (w_sys w))(g := d)\<rparr>\<rparr>)))"

definition client_lookup :: "nat \<Rightarrow> world \<Rightarrow> cint res" where
  "client_lookup p w =
     (let Comm = procs (w_net w) p in
      repository_get_id (sextent Comm) (sys_segs (w_sys w) (sdata Comm)) (bytes_of ''database'' @ [0]))"

text \<open>A client as started: its task, \<open>nb_request\<close>, \<open>req_type\<close> and \<open>database_id\<close>.\<close>

type_synonym started = "ClientTask \<times> cint \<times> cint \<times> cint"

fun start_clients ::
  "sysos \<Rightarrow> os \<Rightarrow> ClientTask option \<Rightarrow> nat \<Rightarrow> string list list \<Rightarrow> world \<Rightarrow> (world \<times> started list) res" where
  "start_clients se e blk p [] w = Inr (w, [])"
| "start_clients se e blk p (argv # argvs) w =
     bindR (db_client_main se e blk p argv w) (\<lambda>(w1, t, n, ty).
     bindR (client_lookup p w1) (\<lambda>database_id.
     bindR (start_clients se e blk (Suc p) argvs w1) (\<lambda>(w2, cs). Inr (w2, (t, n, ty, database_id) # cs))))"

definition start_service ::
  "sysos \<Rightarrow> os \<Rightarrow> DatabaseTask option \<Rightarrow> ClientTask option \<Rightarrow> string list \<Rightarrow> string list list \<Rightarrow> world \<Rightarrow>
     (world \<times> DatabaseTask \<times> cint \<times> started list) res" where
  "start_service se e dblk cblk argv argvs w =
     bindR (db_server_main se e dblk 0 argv w) (\<lambda>(w1, t, max_request).
     bindR (db_register 0 t w1) (\<lambda>w2.
     bindR (start_clients se e cblk 1 argvs w2) (\<lambda>(w3, cs). Inr (w3, t, max_request, cs))))"

text \<open>What a client of \<open>DatabaseService\<close> is made of; \<open>blk\<close> and \<open>pad\<close> are its blocks and its stack.\<close>

definition client_of :: "RequestMsg \<Rightarrow> (nat \<Rightarrow> byte list \<times> byte list) \<Rightarrow> started \<Rightarrow> client_env" where
  "client_of blk pad c =
     (case c of (t, n, ty, _) \<Rightarrow> \<lparr>ce_task = t, ce_type = ty, ce_count = n, ce_blk = blk, ce_pad = pad\<rparr>)"

section \<open>A process is started\<close>

text \<open>Process \<open>p\<close> holds the task \<open>p + 1\<close>; \<open>first_tasks k\<close> are the first \<open>k\<close> of them.\<close>

definition process_of :: "cint \<Rightarrow> nat" where
  "process_of d = unat d - 1"

definition first_tasks :: "nat \<Rightarrow> cint set" where
  "first_tasks k = {d. 1 \<le> unat d \<and> unat d \<le> k}"

lemma unat_id: "k < 100 \<Longrightarrow> unat (of_nat k :: cint) = k"
  by (rule unat_of_nat_small) simp

lemma first_tasks_Suc: "Suc k < 100 \<Longrightarrow> first_tasks (Suc k) = insert (of_nat (Suc k)) (first_tasks k)"
proof -
  assume k: "Suc k < 100"
  have "d = of_nat (Suc k) \<longleftrightarrow> unat d = Suc k" for d :: cint
    unfolding word_unat_eq_iff unat_id [OF k] ..
  then show ?thesis by (simp add: first_tasks_def le_Suc_eq set_eq_iff del: of_nat_Suc) linarith
qed

text \<open>The system is in segment \<open>g\<close>, and the first \<open>k\<close> processes have been started.\<close>

definition world_ok :: "blocks \<Rightarrow> nat \<Rightarrow> nat \<Rightarrow> world \<Rightarrow> bool" where
  "world_ok b g k w \<longleftrightarrow>
     sys_name (w_sys w) = Some g \<and> load32 (sys_segs (w_sys w) g) 0 = of_nat (Suc k) \<and>
     net_inv b process_of (first_tasks k) (w_net w) \<and> none_rolled (nshm (w_net w)) \<and>
     (\<forall>d \<in> first_tasks k. net_boxes b process_of (w_net w) d = []) \<and>
     (\<forall>d. unat d < 100 \<longrightarrow> d \<notin> first_tasks k \<longrightarrow> unknown (w_net w) d)"

lemma fresh_process:
  assumes inv: "net_inv b own D n" and p: "\<forall>c \<in> D. own c \<noteq> p"
  shows "net_inv b own D (n\<lparr>procs := (procs n)(p := System_initialize g x)\<rparr>)"
    "c \<in> D \<Longrightarrow> net_boxes b own (n\<lparr>procs := (procs n)(p := System_initialize g x)\<rparr>) c = net_boxes b own n c"
    "unat c < 100 \<Longrightarrow> unknown n c \<Longrightarrow> unknown (n\<lparr>procs := (procs n)(p := System_initialize g x)\<rparr>) c"
  using assms by (auto simp: net_inv_def net_boxes_def unknown_def System_initialize_def)

lemma createMsgQ_fields: "createMsgQ e s Comm d = Inr (s', Comm') \<Longrightarrow> sdata Comm' = sdata Comm \<and> sextent Comm' = sextent Comm"
  by (auto simp: createMsgQ_def bindR_eq_Inr table_set_def split: if_splits)

lemma task_created:
  assumes w: "world_ok b g k w" and k: "Suc k < 100" and e: "os_ok e" and b: "blocks_ok b"
  shows "\<exists>s' Comm'. register_task e (sys_segs (w_sys w) g) (nshm (w_net w)) (System_initialize g x) =
      Inr (store32 (sys_segs (w_sys w) g) 0 (of_nat (Suc (Suc k))), s', Comm', of_nat (Suc k)) \<and>
    sdata Comm' = g \<and> sextent Comm' = x \<and>
    (\<forall>ss. sys_name ss = Some g \<longrightarrow> load32 (sys_segs ss g) 0 = of_nat (Suc (Suc k)) \<longrightarrow>
       world_ok b g (Suc k) \<lparr>w_sys = ss, w_net = \<lparr>nshm = s', procs = (procs (w_net w))(k := Comm')\<rparr>\<rparr>)"
proof -
  let ?n = "w_net w" and ?d = "of_nat (Suc k) :: cint"
  let ?m = "?n\<lparr>procs := (procs ?n)(k := System_initialize g x)\<rparr>"
  have inv: "net_inv b process_of (first_tasks k) ?n" and nr: "none_rolled (nshm ?n)"
    and box: "\<forall>d \<in> first_tasks k. net_boxes b process_of ?n d = []"
    and unk: "\<forall>d. unat d < 100 \<longrightarrow> d \<notin> first_tasks k \<longrightarrow> unknown ?n d"
    using w by (simp_all add: world_ok_def)
  have d: "unat ?d = Suc k" using k by (rule unat_id)
  then have own: "process_of ?d = k" "?d \<notin> first_tasks k" by (simp_all add: process_of_def first_tasks_def)
  have others: "\<forall>c \<in> first_tasks k. process_of c \<noteq> k" by (auto simp: process_of_def first_tasks_def)
  note fresh = fresh_process [OF inv others, where g = g and x = x]
  have ud: "unat ?d < 100" "unknown ?m ?d" using d k own(2) unk fresh(3) by simp_all
  from net_create_step [OF fresh(1) e b ud] obtain n' where
    n': "net_create e process_of ?d ?m = Inr n'" "net_inv b process_of (insert ?d (first_tasks k)) n'"
    "net_boxes b process_of n' ?d = []" "\<forall>c \<in> first_tasks k. net_boxes b process_of n' c = net_boxes b process_of ?m c"
    "\<forall>c. c \<noteq> ?d \<and> unat c < 100 \<and> unknown ?m c \<longrightarrow> unknown n' c" by blast
  from n'(1) own(1) obtain s' Comm' where create: "createMsgQ e (nshm ?n) (System_initialize g x) ?d = Inr (s', Comm')"
    and eq: "n' = ?m\<lparr>nshm := s', procs := (procs ?m)(k := Comm')\<rparr>"
    by (auto simp: net_create_def bindR_eq_Inr)
  have net: "n' = \<lparr>nshm = s', procs = (procs ?n)(k := Comm')\<rparr>" unfolding eq by (cases ?n) simp
  have "getNextTaskID (sys_segs (w_sys w) g) = (store32 (sys_segs (w_sys w) g) 0 (of_nat (Suc (Suc k))), ?d)"
    using w by (simp add: getNextTaskID_def world_ok_def Let_def)
  then have reg: "register_task e (sys_segs (w_sys w) g) (nshm ?n) (System_initialize g x) =
      Inr (store32 (sys_segs (w_sys w) g) 0 (of_nat (Suc (Suc k))), s', Comm', ?d)"
    using create by (simp add: register_task_def bindR_def)
  have "none_rolled (nshm n')" using net_create_none_rolled [OF n'(1)] nr by simp
  moreover have "\<forall>c \<in> first_tasks (Suc k). net_boxes b process_of n' c = []"
    using n'(3,4) fresh(2) box by (simp add: first_tasks_Suc [OF k])
  moreover have "unknown n' c" if "unat c < 100" "c \<notin> first_tasks (Suc k)" for c
    using that n'(5) fresh(3) [OF that(1)] unk by (auto simp: first_tasks_Suc [OF k])
  ultimately have "world_ok b g (Suc k) \<lparr>w_sys = ss, w_net = n'\<rparr>"
    if "sys_name ss = Some g" "load32 (sys_segs ss g) 0 = of_nat (Suc (Suc k))" for ss
    using that n'(2) by (simp add: world_ok_def first_tasks_Suc [OF k])
  with reg createMsgQ_fields [OF create] net show ?thesis
    by (intro exI [of _ s'] exI [of _ Comm']) (simp add: System_initialize_def)
qed

section \<open>The name of the database\<close>

definition db_name :: "byte list" where
  "db_name = bytes_of ''database'' @ [0]"

text \<open>The only task with that name is task 1.\<close>

definition only_database :: "mem \<Rightarrow> bool" where
  "only_database d \<longleftrightarrow> repo_ok d \<and> (\<forall>j<100. named d db_name j \<longleftrightarrow> j = 1)"

lemma cstr_db_name: "length (cstr db_name) = 8"
  by code_simp

lemma named_frame:
  assumes "agree_on 4904 3400 d d'" "repo_ok d" "j < 100"
  shows "named d' db_name j \<longleftrightarrow> named d db_name j" "repo_ok d'"
proof -
  have has: "load32 d' (has_name_at i) = load32 d (has_name_at i)" if "i < 100" for i
    using that by (intro load32_agree [OF assms(1), symmetric]) simp_all
  then show "repo_ok d'" using assms(2) by (auto simp: repo_ok_def)
  show "named d' db_name j \<longleftrightarrow> named d db_name j"
  proof (cases "j < 30")
    case True
    have "agree_on (name_row j) (Suc (length (cstr db_name))) d' d"
      using assms(1) True by (simp add: agree_on_def cstr_db_name)
    from strcmp_eq_cong [OF this] has [of j] assms(3) show ?thesis by (simp add: named_def)
  next
    case False
    then have "load32 d (has_name_at j) \<noteq> 1" using assms(2,3) by (simp add: repo_ok_def)
    with has [OF assms(3)] show ?thesis by (simp add: named_def)
  qed
qed

lemma only_database_frame: "only_database d \<Longrightarrow> only_database (store32 d 0 v)"
proof -
  assume d: "only_database d"
  have ag: "agree_on 4904 3400 d (store32 d 0 v)" by (simp add: agree_on_def store32_outside)
  have "repo_ok d" using d by (simp add: only_database_def)
  with d named_frame(1) [OF ag this] named_frame(2) [OF ag this, of 0] show ?thesis
    by (simp add: only_database_def)
qed

lemma database_found:
  assumes "only_database d" "8344 \<le> x"
  shows "repository_get_id x d db_name = Inr 1"
proof -
  have "find (named d db_name) [0..<100] = Some 1"
    using assms(1) upt_rec [of 0 100] upt_rec [of 1 100] by (simp add: only_database_def)
  with get_id_find [of d x db_name] assms cstr_db_name show ?thesis by (simp add: only_database_def)
qed


section \<open>Starting the programs\<close>

text \<open>The calls of \<open>System_create\<close> and \<open>System_acquire\<close> succeed, and the whole of \<open>task_name\<close> is mapped.\<close>

definition system_ok :: "sysos \<Rightarrow> bool" where
  "system_ok e \<longleftrightarrow>
     shm_open_ok e \<and> ftruncate_ok e \<and> mmap_addr e \<noteq> None \<and> malloc_ok e \<and> task_mutex_ok e \<and>
     sleepers_mutex_ok e \<and> repo_mutex_ok e \<and> thread_ok e \<and> 14834 \<le> map_extent e \<and>
     length (mutex_image e) = 40 \<and> length (cond_image e) = 48 \<and> length (thread_image e) = 8"

lemma System_create_object:
  "System_create e w = Inr (w', sys) \<Longrightarrow> sys = System_initialize (sdata sys) (map_extent e)"
  by (auto simp: System_create_def Let_def bindR_eq_Inr System_initialize_def split: if_splits prod.splits)

definition server_command :: "nat \<Rightarrow> string list" where
  "server_command n = [''db_server_test'', show_dec n]"

definition client_command :: "nat \<times> nat \<Rightarrow> string list" where
  "client_command r = [''db_client_test'', show_dec (fst r), show_dec (snd r)]"

lemma system_started:
  assumes sys: "system_ok se" and net: "w_net w = net_start"
  shows "\<exists>ss g. System_create se (w_sys w) = Inr (ss, System_initialize g (map_extent se)) \<and>
    (\<forall>i < MAX_TASK. load32 (sys_segs ss g) (has_name_at i) = 0) \<and> world_ok b g 0 (w\<lparr>w_sys := ss\<rparr>)"
proof -
  from sys System_create_fresh [of se "w_sys w"] obtain ss Comm where
    ss: "System_create se (w_sys w) = Inr (ss, Comm)" "sys_name ss = Some (sdata Comm)"
    "snd (getNextTaskID (sys_segs ss (sdata Comm))) = 1"
    "\<forall>i < MAX_TASK. load32 (sys_segs ss (sdata Comm)) (has_name_at i) = 0"
    by (auto simp: system_ok_def)
  let ?g = "sdata Comm" and ?d = "sys_segs ss (sdata Comm)"
  have Comm: "Comm = System_initialize ?g (map_extent se)" by (rule System_create_object [OF ss(1)])
  have "load32 ?d 0 = 1" using ss(3) by (simp add: getNextTaskID_def Let_def)
  moreover have "first_tasks 0 = {}" by (auto simp: first_tasks_def)
  moreover have "none_rolled (nshm net_start)" by (simp add: none_rolled_def net_start_def)
  ultimately have "world_ok b ?g 0 (w\<lparr>w_sys := ss\<rparr>)"
    using net ss(2) net_start_inv net_start_unknown by (simp add: world_ok_def)
  with ss(1,4) Comm show ?thesis by metis
qed

lemma server_started:
  assumes sys: "system_ok se" and e: "os_ok e" and b: "blocks_ok b" and net: "w_net w = net_start"
  shows "\<exists>g w1 w2. db_server_main se e (Some blk) 0 (server_command n) w =
      Inr (w1, blk\<lparr>db_taskID := 1, response_code := RESPONSE_ERROR, response_data := None, response_size := 0,
        student_count := 0\<rparr>, of_nat n) \<and>
    (\<forall>t. db_taskID t = 1 \<longrightarrow> db_register 0 t w1 = Inr w2) \<and> world_ok b g 1 w2 \<and>
    only_database (sys_segs (w_sys w2) g)"
proof -
  obtain ss g where ss: "System_create se (w_sys w) = Inr (ss, System_initialize g (map_extent se))"
    "\<forall>i < MAX_TASK. load32 (sys_segs ss g) (has_name_at i) = 0" "world_ok b g 0 (w\<lparr>w_sys := ss\<rparr>)"
    using system_started [OF sys net] by blast
  let ?d = "sys_segs ss g"
  have g: "sys_name ss = Some g" "sdata (System_initialize g x) = g" for x
    using ss(3) by (simp_all add: world_ok_def System_initialize_def)
  from task_created [OF ss(3) _ e b, of "map_extent se"] obtain s' Comm' where
    reg: "register_task e ?d (nshm (w_net w)) (System_initialize g (map_extent se)) =
      Inr (store32 ?d 0 2, s', Comm', 1)"
    "sdata Comm' = g" "sextent Comm' = map_extent se"
    "\<And>sy. sys_name sy = Some g \<Longrightarrow> load32 (sys_segs sy g) 0 = 2 \<Longrightarrow>
       world_ok b g 1 \<lparr>w_sys = sy, w_net = \<lparr>nshm = s', procs = (procs (w_net w))(0 := Comm')\<rparr>\<rparr>"
    by auto
  let ?d1 = "store32 ?d 0 2"
  let ?n = "\<lparr>nshm = s', procs = (procs (w_net w))(0 := Comm')\<rparr>"
  let ?w1 = "\<lparr>w_sys = ss\<lparr>sys_segs := (sys_segs ss)(g := ?d1)\<rparr>, w_net = ?n\<rparr>"
  let ?d2 = "set_name_mem ?d1 db_name 1"
  let ?w2 = "\<lparr>w_sys = ss\<lparr>sys_segs := (sys_segs ss)(g := ?d2)\<rparr>, w_net = ?n\<rparr>"
  have thread: "thread_ok se" "14834 \<le> map_extent se" using sys by (simp_all add: system_ok_def)
  have main: "db_server_main se e (Some blk) 0 (server_command n) w =
      Inr (?w1, blk\<lparr>db_taskID := 1, response_code := RESPONSE_ERROR, response_data := None, response_size := 0,
        student_count := 0\<rparr>, of_nat n)"
    using ss(1) g(2) reg(1) thread(1)
    by (simp add: db_server_main_def server_command_def in_process_def DatabaseTask_create_def bindR_def atoi_show_dec)
  have rok: "repo_ok ?d1" using ss(2) by (simp add: repo_ok_def mem_simps)
  have set: "repository_set_name (map_extent se) ?d1 db_name t = Inr ?d2" if "t = 1" for t :: cint
    using set_name_eq [of t "map_extent se" ?d1 db_name] thread(2) that by simp
  have "db_register 0 t ?w1 = Inr ?w2" if "db_taskID t = 1" for t
    using set [OF that] reg(2,3) by (simp add: db_register_def Let_def db_name_def bindR_def)
  moreover have "load32 ?d2 0 = 2" by (simp add: set_name_mem_def mem_simps)
  then have "world_ok b g 1 ?w2" using g(1) by (intro reg(4)) simp_all
  moreover have "only_database ?d2"
    using set_name_named_all [OF rok, of 1 db_name db_name] set_name_repo_ok [OF rok, of 1 db_name] ss(2)
    by (simp add: only_database_def cstr_db_name named_def mem_simps)
  ultimately show ?thesis
    using main by (intro exI [of _ g] exI [of _ ?w1] exI [of _ ?w2] conjI allI impI) simp_all
qed

lemma client_started:
  assumes w: "world_ok b g k w" "only_database (sys_segs (w_sys w) g)" and k: "Suc k < 100"
    and e: "os_ok e" and b: "blocks_ok b" and sys: "system_ok se"
  shows "\<exists>w'. db_client_main se e (Some blk) k (client_command r) w =
      Inr (w', blk\<lparr>cl_taskID := of_nat (Suc k)\<rparr>, of_nat (fst r), of_nat (snd r)) \<and>
    client_lookup k w' = Inr 1 \<and> world_ok b g (Suc k) w' \<and> only_database (sys_segs (w_sys w') g)"
proof -
  let ?x = "map_extent se" and ?d = "sys_segs (w_sys w) g"
  have acq: "System_acquire se (w_sys w) = Inr (System_initialize g ?x)" "thread_ok se" "8344 \<le> ?x"
    using sys w(1) by (auto simp: System_acquire_def system_ok_def world_ok_def)
  obtain s' Comm' where
    reg: "register_task e ?d (nshm (w_net w)) (System_initialize g ?x) =
      Inr (store32 ?d 0 (of_nat (Suc (Suc k))), s', Comm', of_nat (Suc k))"
    "sdata Comm' = g" "sextent Comm' = ?x"
    "\<And>ss. sys_name ss = Some g \<Longrightarrow> load32 (sys_segs ss g) 0 = of_nat (Suc (Suc k)) \<Longrightarrow>
       world_ok b g (Suc k) \<lparr>w_sys = ss, w_net = \<lparr>nshm = s', procs = (procs (w_net w))(k := Comm')\<rparr>\<rparr>"
    using task_created [OF w(1) k e b, of ?x] by blast
  let ?d' = "store32 ?d 0 (of_nat (Suc (Suc k)))"
  let ?w' = "\<lparr>w_sys = (w_sys w)\<lparr>sys_segs := (sys_segs (w_sys w))(g := ?d')\<rparr>,
    w_net = \<lparr>nshm = s', procs = (procs (w_net w))(k := Comm')\<rparr>\<rparr>"
  have "sdata (System_initialize g ?x) = g" by (simp add: System_initialize_def)
  then have "db_client_main se e (Some blk) k (client_command r) w =
      Inr (?w', blk\<lparr>cl_taskID := of_nat (Suc k)\<rparr>, of_nat (fst r), of_nat (snd r))"
    using acq reg(1)
    by (simp add: db_client_main_def client_command_def in_process_def ClientTask_create_def bindR_def atoi_show_dec Let_def)
  moreover have "only_database ?d'" using only_database_frame [OF w(2)] .
  moreover from database_found [OF this acq(3)] have "client_lookup k ?w' = Inr 1"
    using reg(2,3) by (simp add: client_lookup_def Let_def db_name_def)
  moreover have "world_ok b g (Suc k) ?w'"
    using w(1) by (intro reg(4)) (simp_all add: world_ok_def mem_simps)
  ultimately show ?thesis by (intro exI [of _ ?w']) simp
qed

text \<open>The clients as they are started from process \<open>k\<close> on.\<close>

fun clients_from :: "ClientTask \<Rightarrow> nat \<Rightarrow> (nat \<times> nat) list \<Rightarrow> started list" where
  "clients_from blk k [] = []"
| "clients_from blk k (r # rs) =
     (blk\<lparr>cl_taskID := of_nat (Suc k)\<rparr>, of_nat (fst r), of_nat (snd r), 1) # clients_from blk (Suc k) rs"

lemma clients_started:
  assumes "world_ok b g k w" "only_database (sys_segs (w_sys w) g)" "k + length rs < 100"
    "os_ok e" "blocks_ok b" "system_ok se"
  shows "\<exists>w'. start_clients se e (Some blk) k (map client_command rs) w = Inr (w', clients_from blk k rs) \<and>
    world_ok b g (k + length rs) w'"
  using assms(1-3)
proof (induction rs arbitrary: k w)
  case Nil
  then show ?case by simp
next
  case (Cons r rs)
  then have "Suc k < 100" by simp
  from client_started [OF Cons.prems(1,2) this assms(4-6), of blk r] obtain w1 where
    w1: "db_client_main se e (Some blk) k (client_command r) w =
      Inr (w1, blk\<lparr>cl_taskID := of_nat (Suc k)\<rparr>, of_nat (fst r), of_nat (snd r))"
    "client_lookup k w1 = Inr 1" "world_ok b g (Suc k) w1" "only_database (sys_segs (w_sys w1) g)" by blast
  from Cons.IH [OF w1(3,4)] Cons.prems(3) obtain w2 where
    "start_clients se e (Some blk) (Suc k) (map client_command rs) w1 = Inr (w2, clients_from blk (Suc k) rs)"
    "world_ok b g (Suc k + length rs) w2" by auto
  with w1(1,2) show ?case by (simp add: bindR_def del: of_nat_Suc)
qed


section \<open>The service they make\<close>

definition started_env :: "os \<Rightarrow> blocks \<Rightarrow> surroundings \<Rightarrow> ResponseMsg \<Rightarrow> DatabaseTask \<Rightarrow> cint \<Rightarrow> service_env" where
  "started_env e b sr res t m =
     \<lparr>sv_os = e, sv_blks = b, sv_own = process_of, sv_db = db_taskID t, sv_max = m, sv_around = sr, sv_res = res\<rparr>"

lemma clients_from_ids:
  "map ce_id (map (client_of blk pad) (clients_from c k rs)) = map of_nat [Suc k..<Suc k + length rs]"
proof (induction rs arbitrary: k)
  case (Cons r rs)
  from Cons [of "Suc k"] show ?case by (simp add: client_of_def upt_conv_Cons [of "Suc k"] del: of_nat_Suc upt_Suc)
qed simp

lemma tasks_are_first: "n < 100 \<Longrightarrow> set (map of_nat [1..<Suc n]) = first_tasks n"
proof (induction n)
  case (Suc n)
  then show ?case by (simp add: first_tasks_Suc del: of_nat_Suc)
qed (auto simp: first_tasks_def)

lemma ids_distinct: "n < 100 \<Longrightarrow> distinct (map (of_nat :: nat \<Rightarrow> cint) [1..<Suc n])"
proof (induction n)
  case (Suc n)
  have "(of_nat (Suc n) :: cint) \<notin> first_tasks n"
  proof -
    have "unat (of_nat (Suc n) :: cint) = Suc n" using Suc.prems by (rule unat_id)
    then show ?thesis by (simp add: first_tasks_def)
  qed
  with Suc tasks_are_first [of n] show ?case by (simp del: of_nat_Suc)
qed simp

lemma clients_from_sum:
  "\<forall>r \<in> set rs. fst r < 2 ^ 31 \<Longrightarrow>
     (\<Sum>c\<leftarrow>map (client_of blk pad) (clients_from t k rs). sint (ce_count c)) = int (\<Sum>r\<leftarrow>rs. fst r)"
  by (induction rs arbitrary: k) (simp_all add: client_of_def sint_of_nat)

lemma clients_from_types:
  assumes "\<forall>r \<in> set rs. fst r < 2 ^ 31 \<and> snd r \<in> {1, 2, 4}" "c \<in> set (map (client_of blk pad) (clients_from t k rs))"
  shows "ce_type c \<in> {1, 2, 4} \<and> 0 \<le> sint (ce_count c)"
  using assms
proof (induction rs arbitrary: k)
  case (Cons r rs)
  from Cons.prems(2) consider
    "c = client_of blk pad (t\<lparr>cl_taskID := of_nat (Suc k)\<rparr>, of_nat (fst r), of_nat (snd r), 1)"
    | "c \<in> set (map (client_of blk pad) (clients_from t (Suc k) rs))"
    by (simp del: of_nat_Suc) blast
  then show ?case
  proof cases
    case 1
    with Cons.prems(1) show ?thesis by (auto simp: client_of_def sint_of_nat)
  next
    case 2
    with Cons.IH [OF _ 2] Cons.prems(1) show ?thesis by simp
  qed
qed simp

lemma member_le_sum: "(r :: nat \<times> nat) \<in> set rs \<Longrightarrow> fst r \<le> (\<Sum>r\<leftarrow>rs. fst r)"
  by (induction rs) auto

lemma started_service_ok:
  assumes e: "os_ok e" and b: "blocks_ok b" and len: "length rs < 99"
    and rs: "\<forall>r \<in> set rs. snd r \<in> {1, 2, 4}" "(\<Sum>r\<leftarrow>rs. fst r) < 2 ^ 31" and t: "db_taskID t = 1"
  shows "service_ok (started_env e b sr res t (of_nat (\<Sum>r\<leftarrow>rs. fst r)))
    (map (client_of blk pad) (clients_from c 1 rs))"
proof -
  let ?cs = "map (client_of blk pad) (clients_from c 1 rs)" and ?n = "\<Sum>r\<leftarrow>rs. fst r"
  have small: "\<forall>r \<in> set rs. fst r < 2 ^ 31 \<and> snd r \<in> {1, 2, 4}"
    using rs member_le_sum [of _ rs] by (meson le_less_trans)
  have ids: "1 # map ce_id ?cs = map of_nat [1..<Suc (Suc (length rs))]"
    using clients_from_ids [of blk pad c 1 rs] by (simp add: upt_conv_Cons [of "Suc 0" "Suc (Suc (length rs))"] del: upt_Suc)
  have "distinct (1 # map ce_id ?cs)" "\<forall>d \<in> set (1 # map ce_id ?cs). unat d < 100"
    unfolding ids using ids_distinct [of "Suc (length rs)"] tasks_are_first [of "Suc (length rs)"] len
    by (simp_all add: first_tasks_def del: upt_Suc)
  moreover have "sint (of_nat ?n :: cint) = (\<Sum>c\<leftarrow>?cs. sint (ce_count c))"
    using clients_from_sum [of rs blk pad c 1] small rs(2) by (simp add: sint_of_nat)
  moreover have "ce_type x \<in> {1, 2, 3, 4} \<and> 0 \<le> sint (ce_count x) \<and> (\<forall>i. ok_request sr (request_of x i))"
    if "x \<in> set ?cs" for x
    using clients_from_types [OF small that] client_req_ok [of "ce_type x"] by (auto simp: request_of_def)
  ultimately show ?thesis
    unfolding service_ok_def using e b t by (simp add: started_env_def)
qed

lemma started_network:
  assumes "world_ok b g (Suc (length rs)) w" "length rs < 99" "db_taskID t = 1"
  shows "fresh_network (started_env e b sr res t m) (map (client_of blk pad) (clients_from c 1 rs)) (w_net w)"
proof -
  have "1 # map ce_id (map (client_of blk pad) (clients_from c 1 rs)) = map of_nat [1..<Suc (Suc (length rs))]"
    using clients_from_ids [of blk pad c 1 rs] by (simp add: upt_conv_Cons [of "Suc 0" "Suc (Suc (length rs))"] del: upt_Suc)
  then have "sv_ids (started_env e b sr res t m) (map (client_of blk pad) (clients_from c 1 rs)) =
      first_tasks (Suc (length rs))"
    using tasks_are_first [of "Suc (length rs)"] assms(2,3) by (simp only: sv_ids_def started_env_def service_env.simps)
  with assms(1) none_rolled_tight [of b process_of "first_tasks (Suc (length rs))" "w_net w" 136] show ?thesis
    by (simp add: fresh_network_def sv_tight_def started_env_def world_ok_def)
qed

lemma sample_env_ok: "os_ok sample_os" "blocks_ok sample_blocks"
  using sample_service_ok by (simp_all add: service_ok_def sample_env_def)



end
