(* ===== verification/TestPrograms.thy ===== *)
theory TestPrograms
  imports ServicePrograms WeatherTasks SimpleTasks
begin

text \<open>
  The other small programs under \<open>TaskSystem/test\<close>: the unit tests of the system object and of references to
  arrays, and the programs that start a weather station, a weather client and the Papa task.
\<close>

section \<open>Definitions\<close>

text \<open>
  \<open>main\<close> of \<open>system_test.c\<close>; the last component is what it returns, \<open>-1\<close> when \<open>TS_ERROR\<close> is reached.
  \<open>System_create\<close> never returns a null pointer.
\<close>

definition system_test_main :: "sysos \<Rightarrow> sysshm \<Rightarrow> shm \<Rightarrow> (sysshm \<times> shm \<times> int) res" where
  "system_test_main e w s =
     bindR (System_create e w) (\<lambda>(w1, Comm).
       let (d, next_id) = getNextTaskID (sys_segs w1 (sdata Comm));
           w2 = w1\<lparr>sys_segs := (sys_segs w1)(sdata Comm := d)\<rparr>
       in if next_id \<noteq> 1 then Inr (w2, s, - 1)
          else bindR (destroy w2 s Comm) (\<lambda>(w3, s'). Inr (w3, s', 0)))"

text \<open>
  \<open>main\<close> of \<open>ref_intarray_test.c\<close> with the array at \<open>arr\<close>; \<open>t1\<close> and \<open>t2\<close> are what the calls without an
  argument leave as the tag.
\<close>

definition ref_intarray_test_main ::
  "RefIntArrayMsg option \<Rightarrow> RefIntArrayMsg option \<Rightarrow> cint \<Rightarrow> cint \<Rightarrow> ptr \<Rightarrow> (ptr \<Rightarrow> cint list) \<Rightarrow> int res" where
  "ref_intarray_test_main b1 b2 t1 t2 arr h0 =
     (let h = h0(arr := map of_nat [0..<20]) in
      bindR (RefIntArrayMsg_create b1 t1) (\<lambda>m1. let msg1 = RefIntArrayMsg_setValues m1 20 arr in
      bindR (RefIntArrayMsg_create b2 t2) (\<lambda>m2. let msg2 = RefIntArrayMsg_setValues m2 20 arr;
        h' = h(ria_values msg1 := (h (ria_values msg1))[0 := 1000])
      in Inr (if h' (ria_values msg2) ! 0 \<noteq> 1000 then - 1 else 0))))"

text \<open>\<open>main\<close> of \<open>simple_task_test.c\<close> up to its \<open>sleep\<close>.\<close>

definition simple_task_main :: "sysos \<Rightarrow> os \<Rightarrow> PapaTask option \<Rightarrow> nat \<Rightarrow> world \<Rightarrow> (world \<times> PapaTask) res" where
  "simple_task_main se e blk p w =
     bindR (System_create se (w_sys w)) (\<lambda>(ss, Comm).
       in_process (PapaTask_create blk e (thread_ok se)) p Comm (w\<lparr>w_sys := ss\<rparr>))"

text \<open>The name of the station, sent to the task that has just been created.\<close>

definition send_name :: "os \<Rightarrow> TextMsg option \<Rightarrow> nat \<Rightarrow> string \<Rightarrow> cint \<Rightarrow> world \<Rightarrow> world res" where
  "send_name e blk p station_name task w =
     bindR (TextMsg_create blk WEATHER_STATION_NAME_MSG) (\<lambda>m.
     bindR (TextMsg_setMsg m (bytes_of station_name @ [0])) (\<lambda>m'.
     bindR (send e (nshm (w_net w)) (procs (w_net w) p) (Some (MText m')) task) (\<lambda>(s, Comm, _, _).
       Inr (w\<lparr>w_net := \<lparr>nshm = s, procs = (procs (w_net w))(p := Comm)\<rparr>\<rparr>))))"

text \<open>\<open>main\<close> of \<open>wt_start_test.c\<close> and \<open>wt_client_test.c\<close> up to the wait for \<open>done\<close>.\<close>

definition wt_start_main ::
  "sysos \<Rightarrow> os \<Rightarrow> WeatherStationTask option \<Rightarrow> TextMsg option \<Rightarrow> nat \<Rightarrow> string list \<Rightarrow> world \<Rightarrow>
     (world \<times> WeatherStationTask \<times> cint) res" where
  "wt_start_main se e blk mblk p argv w =
     (if length argv \<noteq> 3 then Inl (ExitCall (- 1))
      else
        let station_name = argv ! 1; acquire_system = atoi (argv ! 2) in
        bindR (if acquire_system = 0 then System_create se (w_sys w)
               else bindR (System_acquire se (w_sys w)) (\<lambda>Comm. Inr (w_sys w, Comm))) (\<lambda>(ss, Comm).
        bindR (in_process (WeatherStationTask_create blk e (thread_ok se)) p Comm (w\<lparr>w_sys := ss\<rparr>)) (\<lambda>(w1, t).
        bindR (send_name e mblk p station_name (ws_taskID t) w1) (\<lambda>w2. Inr (w2, t, acquire_system)))))"

definition wt_client_main ::
  "sysos \<Rightarrow> os \<Rightarrow> WeatherClientTask option \<Rightarrow> TextMsg option \<Rightarrow> nat \<Rightarrow> string list \<Rightarrow> world \<Rightarrow>
     (world \<times> WeatherClientTask) res" where
  "wt_client_main se e blk mblk p argv w =
     (if length argv \<noteq> 2 then Inl (ExitCall (- 1))
      else
        bindR (System_acquire se (w_sys w)) (\<lambda>Comm.
        bindR (in_process (WeatherClientTask_create blk e (thread_ok se)) p Comm w) (\<lambda>(w1, t).
        bindR (send_name e mblk p (argv ! 1) (wc_taskID t) w1) (\<lambda>w2. Inr (w2, t)))))"

section \<open>The unit tests\<close>

text \<open>The test of the system object succeeds, and leaves neither the system nor a queue behind.\<close>

theorem system_test_passes:
  assumes "system_ok e"
  shows "\<exists>w'. system_test_main e w s = Inr (w', s\<lparr>shm_names := (shm_names s)(''/TS_T1'' := None)\<rparr>, 0) \<and>
    sys_name w' = None"
proof -
  from assms System_create_fresh [of e w] obtain w1 Comm where
    w1: "System_create e w = Inr (w1, Comm)" "snd (getNextTaskID (sys_segs w1 (sdata Comm))) = 1"
    by (auto simp: system_ok_def)
  have "queue_name 1 = Inr ''/TS_T1''" by code_simp
  with w1 show ?thesis
    by (simp add: system_test_main_def getNextTaskID_def destroy_def bindR_def Let_def mem_simps DeleteQueue_def)
qed

theorem ref_intarray_test_passes: "ref_intarray_test_main (Some x) (Some y) t1 t2 arr h0 = Inr 0"
  by (simp add: ref_intarray_test_main_def RefIntArrayMsg_create_def RefIntArrayMsg_setValues_def Let_def)

section \<open>Starting weather tasks\<close>

lemma send_name_arrives:
  assumes net: "net_tight b process_of D 188 (w_net w)" "d \<in> D" and empty: "net_boxes b process_of (w_net w) d = []"
    and e: "os_ok e" and blk: "length (text_msg blk) = 100" and nm: "length nm < 100" "0 \<notin> set (bytes_of nm)"
  shows "\<exists>w' m. send_name e (Some blk) p nm d w = Inr w' \<and> w_sys w' = w_sys w \<and>
    net_boxes b process_of (w_net w') d = [MText m] \<and> tag m = WEATHER_STATION_NAME_MSG \<and>
    cstr (text_msg m) = bytes_of nm \<and> net_tight b process_of D 188 (w_net w')"
proof -
  have "length (bytes_of nm) < 100" "cstr (bytes_of nm @ [0]) = bytes_of nm"
    using nm cstr_append_zero [OF nm(2), of "[]"] by (simp_all add: bytes_of_def)
  then obtain m where m: "bindR (TextMsg_create (Some blk) WEATHER_STATION_NAME_MSG)
      (\<lambda>m. TextMsg_setMsg m (bytes_of nm @ [0])) = Inr m" "wf_msg (MText m)" "msg_len (MText m) \<le> 188"
    "tag m = WEATHER_STATION_NAME_MSG" "cstr (text_msg m) = bytes_of nm"
    using blk nm(2)
    by (simp add: TextMsg_create_def TextMsg_setMsg_def strcpy_def wf_header_def cstr_append_zero msg_len_def)
  let ?l = "(e, p, MText m)"
  have l: "tight_letter 188 ?l" using m(2,3) e by (simp add: tight_letter_def wf_letter_def Q_SIZE_def)
  have room: "(length (net_boxes b process_of (w_net w) d) + 2) * 188 \<le> Q_SIZE - sizeof Queue_struct"
    by (simp add: empty Q_SIZE_def)
  note arr = rc.post_arrives [OF net l room]
  obtain s Comm x where snd: "send e (nshm (w_net w)) (procs (w_net w) p) (Some (MText m)) d = Inr (s, Comm, x, 1)"
    using rc.few_accepted [OF net l room] by (auto simp: net_post_def split: sum.splits prod.splits)
  let ?w = "w\<lparr>w_net := \<lparr>nshm = s, procs = (procs (w_net w))(p := Comm)\<rparr>\<rparr>"
  have "fst (net_post d ?l (w_net w)) = w_net ?w" using snd by (cases "w_net w") (simp add: net_post_def)
  with arr(1) arr(2) [OF net(2)] empty have "net_tight b process_of D 188 (w_net ?w)"
    "net_boxes b process_of (w_net ?w) d = [MText (m\<lparr>text_msg := cstr (text_msg m)\<rparr>)]" by simp_all
  moreover have "send_name e (Some blk) p nm d w = Inr ?w"
    using m(1) snd by (auto simp: send_name_def bindR_def split: sum.splits)
  ultimately show ?thesis using m(4,5) cstr_no_zero [of "text_msg m"]
    by (intro exI [of _ ?w] exI [of _ "m\<lparr>text_msg := cstr (text_msg m)\<rparr>"]) (auto simp: cstr_def)
qed

lemma world_ok_tight: "world_ok b g k w \<Longrightarrow> net_tight b process_of (first_tasks k) S (w_net w)"
  by (simp add: world_ok_def none_rolled_tight)

text \<open>
  \<open>wt_start_test NAME 0\<close> creates the system and the station, and the inbox of the station holds its name;
  \<open>wt_client_test NAME\<close>, run in any later process, makes a client whose inbox holds the name.
\<close>

theorem wt_start_ready:
  assumes "system_ok se" "os_ok e" "blocks_ok b" "w_net w = net_start" "length (text_msg mblk) = 100"
    "length nm < 100" "0 \<notin> set (bytes_of nm)"
  shows "\<exists>w' t m. wt_start_main se e (Some blk) (Some mblk) 0 [''wt_start_test'', nm, ''0''] w = Inr (w', t, 0) \<and>
    ws_taskID t = 1 \<and> net_boxes b process_of (w_net w') 1 = [MText m] \<and>
    tag m = WEATHER_STATION_NAME_MSG \<and> cstr (text_msg m) = bytes_of nm"
proof -
  obtain ss g where ss: "System_create se (w_sys w) = Inr (ss, System_initialize g (map_extent se))"
    "world_ok b g 0 (w\<lparr>w_sys := ss\<rparr>)"
    using system_started [OF assms(1,4)] by blast
  obtain s' Comm' where
    reg: "register_task e (sys_segs ss g) (nshm (w_net w)) (System_initialize g (map_extent se)) =
      Inr (store32 (sys_segs ss g) 0 2, s', Comm', 1)"
    "\<And>sy. sys_name sy = Some g \<Longrightarrow> load32 (sys_segs sy g) 0 = 2 \<Longrightarrow>
       world_ok b g 1 \<lparr>w_sys = sy, w_net = \<lparr>nshm = s', procs = (procs (w_net w))(0 := Comm')\<rparr>\<rparr>"
    using task_created [OF ss(2) _ assms(2,3), of "map_extent se"] by auto
  let ?w1 = "\<lparr>w_sys = ss\<lparr>sys_segs := (sys_segs ss)(g := store32 (sys_segs ss g) 0 2)\<rparr>,
    w_net = \<lparr>nshm = s', procs = (procs (w_net w))(0 := Comm')\<rparr>\<rparr>"
  let ?t = "blk\<lparr>ws_taskID := 1, close_order := 0, sub_count := 0\<rparr>"
  have "thread_ok se" using assms(1) by (simp add: system_ok_def)
  then have p: "in_process (WeatherStationTask_create (Some blk) e (thread_ok se)) 0
      (System_initialize g (map_extent se)) (w\<lparr>w_sys := ss\<rparr>) = Inr (?w1, ?t)"
    using reg(1) by (simp add: in_process_def WeatherStationTask_create_def bindR_def System_initialize_def)
  have w1: "world_ok b g 1 ?w1" using ss(2) by (intro reg(2)) (simp_all add: world_ok_def mem_simps)
  have one: "1 \<in> first_tasks 1" by (simp add: first_tasks_def)
  with w1 have "net_boxes b process_of (w_net ?w1) 1 = []" unfolding world_ok_def by blast
  from send_name_arrives [OF world_ok_tight [OF w1] one this assms(2,5,6,7), of 0] obtain w' m where
    "send_name e (Some mblk) 0 nm 1 ?w1 = Inr w'" "net_boxes b process_of (w_net w') 1 = [MText m]"
    "tag m = WEATHER_STATION_NAME_MSG" "cstr (text_msg m) = bytes_of nm" by blast
  moreover have "atoi ''0'' = 0" by code_simp
  ultimately show ?thesis using ss(1) p by (simp add: wt_start_main_def bindR_def Let_def)
qed

theorem wt_client_ready:
  assumes "system_ok se" "os_ok e" "blocks_ok b" "world_ok b g k w" "Suc k < 100" "length (text_msg mblk) = 100"
    "length nm < 100" "0 \<notin> set (bytes_of nm)"
  shows "\<exists>w' t m. wt_client_main se e (Some blk) (Some mblk) k [''wt_client_test'', nm] w = Inr (w', t) \<and>
    wc_taskID t = of_nat (Suc k) \<and> net_boxes b process_of (w_net w') (of_nat (Suc k)) = [MText m] \<and>
    tag m = WEATHER_STATION_NAME_MSG \<and> cstr (text_msg m) = bytes_of nm"
proof -
  let ?x = "map_extent se" and ?d = "sys_segs (w_sys w) g" and ?i = "of_nat (Suc k) :: cint"
  have acq: "System_acquire se (w_sys w) = Inr (System_initialize g ?x)" "thread_ok se"
    using assms(1,4) by (auto simp: System_acquire_def system_ok_def world_ok_def)
  obtain s' Comm' where
    reg: "register_task e ?d (nshm (w_net w)) (System_initialize g ?x) =
      Inr (store32 ?d 0 (of_nat (Suc (Suc k))), s', Comm', ?i)"
    "\<And>ss. sys_name ss = Some g \<Longrightarrow> load32 (sys_segs ss g) 0 = of_nat (Suc (Suc k)) \<Longrightarrow>
       world_ok b g (Suc k) \<lparr>w_sys = ss, w_net = \<lparr>nshm = s', procs = (procs (w_net w))(k := Comm')\<rparr>\<rparr>"
    using task_created [OF assms(4,5,2,3), of ?x] by blast
  let ?w1 = "\<lparr>w_sys = (w_sys w)\<lparr>sys_segs := (sys_segs (w_sys w))(g := store32 ?d 0 (of_nat (Suc (Suc k))))\<rparr>,
    w_net = \<lparr>nshm = s', procs = (procs (w_net w))(k := Comm')\<rparr>\<rparr>"
  let ?t = "blk\<lparr>wc_taskID := ?i, wc_close_order := 0\<rparr>"
  have p: "in_process (WeatherClientTask_create (Some blk) e (thread_ok se)) k (System_initialize g ?x) w = Inr (?w1, ?t)"
    using acq(2) reg(1)
    by (simp add: in_process_def WeatherClientTask_create_def bindR_def System_initialize_def del: of_nat_Suc)
  have w1: "world_ok b g (Suc k) ?w1" using assms(4) by (intro reg(2)) (simp_all add: world_ok_def mem_simps)
  have own: "?i \<in> first_tasks (Suc k)" using first_tasks_Suc [OF assms(5)] by simp
  with w1 have "net_boxes b process_of (w_net ?w1) ?i = []" unfolding world_ok_def by blast
  from send_name_arrives [OF world_ok_tight [OF w1] own this assms(2,6,7,8), of k] obtain w' m where
    "send_name e (Some mblk) k nm ?i ?w1 = Inr w'" "net_boxes b process_of (w_net w') ?i = [MText m]"
    "tag m = WEATHER_STATION_NAME_MSG" "cstr (text_msg m) = bytes_of nm" by blast
  then show ?thesis using acq(1) p by (simp add: wt_client_main_def bindR_def del: of_nat_Suc)
qed

end
