(* ===== verification/WakeUp.thy ===== *)
theory WakeUp
  imports TaskComm
begin

text \<open>
  Waiting for a message (\<open>message_notify\<close>, \<open>loop_wait_signal\<close> and \<open>destroy\<close> in \<open>System.c\<close>).  A task that
  finds its queue empty sleeps on its condition variable; a thread of the process that created the
  system goes over the queues again and again and signals the condition of every queue that is not
  empty.  Neither side holds the queue's lock between its test and its call, so a signal can come too
  early and be lost.  The step relation below interleaves tasks, senders and the signalling thread;
  the theorems say that a sleeper with a message is woken within a bounded number of steps of that
  thread all the same, and that after a shutdown nobody wakes it.
\<close>

section \<open>Definitions\<close>

text \<open>
  \<open>N_wait\<close>: the queue was empty and \<open>pthread_cond_wait\<close> comes next (it releases the lock and sleeps in
  one step); \<open>N_run\<close>: the task is outside \<open>message_notify\<close>.
\<close>

datatype notify_pc = N_run | N_wait | N_asleep

text \<open>
  The signalling thread: at the head of its loop, before the test of queue \<open>i\<close> of \<open>n\<close>, before the signal
  for it, before \<open>usleep\<close>, and behind the loop.
\<close>

datatype signal_pc = W_loop | W_test nat nat | W_signal nat nat | W_usleep | W_end

text \<open>\<open>known i\<close>: the creating process has queue \<open>i\<close> in its \<open>TaskTable\<close>.\<close>

record wakes =
  boxes :: "nat \<Rightarrow> message list"
  known :: "nat \<Rightarrow> bool"
  next_id :: nat
  shutdown :: bool
  tasks :: "nat \<Rightarrow> notify_pc"
  signaller :: signal_pc

text \<open>\<open>IsEmpty (this->TaskTable[i])\<close> in the creating process; of a null pointer it is 0.\<close>

definition is_empty :: "wakes \<Rightarrow> nat \<Rightarrow> bool" where
  "is_empty s i \<longleftrightarrow> known s i \<and> boxes s i = []"

text \<open>\<open>message_notify\<close> of task \<open>k\<close>: its test, and its wait.\<close>

definition notify_test :: "nat \<Rightarrow> wakes \<Rightarrow> wakes" where
  "notify_test k s = (if boxes s k = [] then s\<lparr>tasks := (tasks s)(k := N_wait)\<rparr> else s)"

definition notify_wait :: "nat \<Rightarrow> wakes \<Rightarrow> wakes" where
  "notify_wait k s = s\<lparr>tasks := (tasks s)(k := N_asleep)\<rparr>"

text \<open>\<open>pthread_cond_signal\<close>: it has no effect when nobody sleeps there.\<close>

definition cond_signal :: "nat \<Rightarrow> wakes \<Rightarrow> wakes" where
  "cond_signal i s = (if tasks s i = N_asleep then s\<lparr>tasks := (tasks s)(i := N_run)\<rparr> else s)"

text \<open>One statement of \<open>loop_wait_signal\<close>; \<open>None\<close> when it has returned.\<close>

definition signal_step :: "wakes \<Rightarrow> wakes option" where
  "signal_step s =
     (case signaller s of
        W_loop \<Rightarrow> Some (s\<lparr>signaller := (if shutdown s then W_end else W_test 0 (next_id s))\<rparr>)
      | W_test i n \<Rightarrow> Some (s\<lparr>signaller :=
          (if i < n then (if \<not> is_empty s i then W_signal i n else W_test (Suc i) n) else W_usleep)\<rparr>)
      | W_signal i n \<Rightarrow> Some ((cond_signal i s)\<lparr>signaller := W_test (Suc i) n\<rparr>)
      | W_usleep \<Rightarrow> Some (s\<lparr>signaller := W_loop\<rparr>)
      | W_end \<Rightarrow> None)"

datatype actor = Signaller | Task nat | Sender | Spurious nat

text \<open>
  A step of the system.  Senders append to queues, tasks enter and leave \<open>message_notify\<close>, receive and
  are created, \<open>destroy\<close> asks for the shutdown, and a condition variable may wake a sleeper for no
  reason.  Only a task itself takes messages from its queue.
\<close>

inductive wake_step :: "wakes \<Rightarrow> actor \<Rightarrow> wakes \<Rightarrow> bool" where
  signal: "signal_step s = Some s' \<Longrightarrow> wake_step s Signaller s'"
| test: "tasks s k = N_run \<Longrightarrow> wake_step s (Task k) (notify_test k s)"
| wait: "tasks s k = N_wait \<Longrightarrow> wake_step s (Task k) (notify_wait k s)"
| take: "tasks s k = N_run \<Longrightarrow> boxes s k = x # xs \<Longrightarrow>
    wake_step s (Task k) (s\<lparr>boxes := (boxes s)(k := xs)\<rparr>)"
| create: "tasks s k = N_run \<Longrightarrow>
    wake_step s (Task k) (s\<lparr>next_id := Suc (next_id s), known := (known s)(next_id s := own)\<rparr>)"
| destroy: "tasks s k = N_run \<Longrightarrow> wake_step s (Task k) (s\<lparr>shutdown := True\<rparr>)"
| post: "wake_step s Sender (s\<lparr>boxes := (boxes s)(k := boxes s k @ [x])\<rparr>)"
| acquire: "wake_step s Sender (s\<lparr>known := (known s)(k := True)\<rparr>)"
| spurious: "tasks s k = N_asleep \<Longrightarrow> wake_step s (Spurious k) (s\<lparr>tasks := (tasks s)(k := N_run)\<rparr>)"

inductive_cases wake_step_signaller: "wake_step s Signaller s'"

text \<open>A run: the actors in order, each with the state it leaves.\<close>

inductive wake_run :: "wakes \<Rightarrow> (actor \<times> wakes) list \<Rightarrow> bool" where
  stop: "wake_run s []"
| step: "wake_step s a s' \<Longrightarrow> wake_run s' r \<Longrightarrow> wake_run s ((a, s') # r)"

inductive_cases wake_run_Cons: "wake_run s ((a, s') # r)"

section \<open>Waking up\<close>

text \<open>How many steps the signalling thread needs at most before it has signalled \<open>k\<close>.\<close>

fun distance :: "nat \<Rightarrow> signal_pc \<Rightarrow> nat" where
  "distance k (W_test i n) = (if i \<le> k \<and> k < n then 2 * (k - i) + 2 else 2 * (n - i) + 2 * k + 5)"
| "distance k (W_signal i n) = (if i \<le> k \<and> k < n then 2 * (k - i) + 1 else 2 * (n - i) + 2 * k + 4)"
| "distance k W_usleep = 2 * k + 4"
| "distance k W_loop = 2 * k + 3"
| "distance k W_end = 0"

definition signal_ok :: "signal_pc \<Rightarrow> bool" where
  "signal_ok p \<longleftrightarrow> (case p of W_signal i n \<Rightarrow> i < n | _ \<Rightarrow> True)"

definition sleeper :: "nat \<Rightarrow> wakes \<Rightarrow> bool" where
  "sleeper k s \<longleftrightarrow> tasks s k = N_asleep \<and> boxes s k \<noteq> [] \<and> k < next_id s \<and>
     signal_ok (signaller s) \<and> signaller s \<noteq> W_end"

text \<open>A step of the signalling thread comes closer to the sleeper, or wakes it.\<close>

lemma signal_step_closer:
  assumes "sleeper k s" "signal_step s = Some s'" "\<not> shutdown s"
  shows "tasks s' k \<noteq> N_asleep \<or>
    (sleeper k s' \<and> distance k (signaller s') < distance k (signaller s))"
proof (cases "signaller s")
  case (W_signal i n)
  show ?thesis
  proof (cases "i = k")
    case True
    with assms W_signal show ?thesis by (auto simp: signal_step_def cond_signal_def sleeper_def)
  next
    case False
    with assms W_signal show ?thesis
      by (auto simp: signal_step_def cond_signal_def sleeper_def signal_ok_def split: if_splits)
  qed
next
  case (W_test i n)
  show ?thesis
  proof (cases "i = k")
    case True
    with assms W_test show ?thesis
      by (auto simp: signal_step_def sleeper_def signal_ok_def is_empty_def split: if_splits)
  next
    case False
    then have "i \<le> k \<Longrightarrow> k - Suc i < k - i \<and> Suc i \<le> k" by auto
    with assms W_test False show ?thesis
      by (auto simp: signal_step_def sleeper_def signal_ok_def split: if_splits)
  qed
qed (use assms in \<open>auto simp: signal_step_def sleeper_def signal_ok_def split: if_splits\<close>)

text \<open>The other steps leave the thread where it is, and the message in the queue of the sleeper.\<close>

lemma other_step_keeps:
  assumes "wake_step s a s'" "a \<noteq> Signaller" "sleeper k s"
  shows "tasks s' k \<noteq> N_asleep \<or> (sleeper k s' \<and> signaller s' = signaller s)"
  using assms
  by (induction rule: wake_step.induct) (auto simp: sleeper_def notify_test_def notify_wait_def)

lemma shutdown_stays: "wake_step s a s' \<Longrightarrow> shutdown s \<Longrightarrow> shutdown s'"
  by (induction rule: wake_step.induct)
    (auto simp: notify_test_def notify_wait_def signal_step_def cond_signal_def split: signal_pc.splits if_splits)

text \<open>How often the signalling thread is scheduled in a run.\<close>

definition signals :: "(actor \<times> wakes) list \<Rightarrow> nat" where
  "signals r = length (filter (\<lambda>x. fst x = Signaller) r)"

lemma signals_bounded:
  assumes "wake_run s r" "sleeper k s" "\<not> shutdown s" "\<forall>x\<in>set r. tasks (snd x) k = N_asleep \<and> \<not> shutdown (snd x)"
  shows "signals r \<le> distance k (signaller s)"
  using assms
proof (induction rule: wake_run.induct)
  case (step s a s' r)
  then have asleep: "tasks s' k = N_asleep" "\<not> shutdown s'" by auto
  show ?case
  proof (cases "a = Signaller")
    case True
    with step.hyps(1) have "signal_step s = Some s'" by (auto elim: wake_step_signaller)
    with step.prems asleep have "sleeper k s' \<and> distance k (signaller s') < distance k (signaller s)"
      using signal_step_closer by blast
    with step.IH step.prems asleep True show ?thesis by (auto simp: signals_def)
  next
    case False
    with step.hyps(1) step.prems(1) asleep have "sleeper k s' \<and> signaller s' = signaller s"
      using other_step_keeps by blast
    with step.IH step.prems asleep False show ?thesis by (auto simp: signals_def)
  qed
qed (simp add: signals_def)

text \<open>What holds in every state.\<close>

definition wake_inv :: "wakes \<Rightarrow> bool" where
  "wake_inv s \<longleftrightarrow> signal_ok (signaller s) \<and> (signaller s = W_end \<longrightarrow> shutdown s) \<and>
     (case signaller s of W_test i n \<Rightarrow> n \<le> next_id s | W_signal i n \<Rightarrow> n \<le> next_id s | _ \<Rightarrow> True)"

definition wake_init :: "wakes \<Rightarrow> bool" where
  "wake_init s \<longleftrightarrow> signaller s = W_loop \<and> \<not> shutdown s \<and> (\<forall>k. tasks s k = N_run)"

lemma wake_inv_step: "wake_step s a s' \<Longrightarrow> wake_inv s \<Longrightarrow> wake_inv s'"
proof (induction rule: wake_step.induct)
  case (signal s s')
  then show ?case
    by (cases "signaller s") (auto simp: signal_step_def cond_signal_def wake_inv_def signal_ok_def split: if_splits)
qed (auto simp: wake_inv_def notify_test_def notify_wait_def split: signal_pc.splits)

text \<open>The state a run ends in.\<close>

definition state_after :: "wakes \<Rightarrow> (actor \<times> wakes) list \<Rightarrow> wakes" where
  "state_after s r = (if r = [] then s else snd (last r))"

lemma state_after_Cons [simp]: "state_after s ((a, s') # r) = state_after s' r"
  by (simp add: state_after_def)

lemma wake_run_append:
  "wake_run s (r @ r') \<longleftrightarrow> wake_run s r \<and> wake_run (state_after s r) r'"
proof (induction r arbitrary: s)
  case Nil
  show ?case by (simp add: state_after_def wake_run.stop)
next
  case (Cons x r)
  obtain a t where x: "x = (a, t)" by force
  show ?case using Cons [of t] unfolding x
    by (auto elim: wake_run_Cons intro: wake_run.step)
qed

lemma wake_inv_run: "wake_run s r \<Longrightarrow> wake_inv s \<Longrightarrow> wake_inv (state_after s r)"
  by (induction rule: wake_run.induct) (simp_all add: state_after_def [of _ "[]"] wake_inv_step)

lemma distance_le:
  "wake_inv s \<Longrightarrow> distance k (signaller s) \<le> 2 * next_id s + 2 * k + 5"
  by (cases "signaller s") (auto simp: wake_inv_def signal_ok_def)

text \<open>Runs of the signalling thread alone.\<close>

fun signaller_run :: "nat \<Rightarrow> wakes \<Rightarrow> (actor \<times> wakes) list" where
  "signaller_run 0 s = []"
| "signaller_run (Suc n) s =
     (case signal_step s of None \<Rightarrow> [] | Some s' \<Rightarrow> (Signaller, s') # signaller_run n s')"

lemma signaller_run_ok: "wake_run s (signaller_run n s)"
  by (induction n arbitrary: s) (auto intro: wake_run.intros wake_step.signal split: option.splits)

text \<open>
  C16. No lost wake-up: in every run from the start of the system, when a task sleeps although there is a
  message in its queue, at most \<open>2 * next_id + 2 * k + 5\<close> steps of the signalling thread follow before the
  task is awake or a shutdown has been asked for, whatever the other tasks and the senders do in between.
\<close>

theorem sleeper_wakes:
  assumes "wake_init s0" "wake_run s0 (r0 @ r)"
    and s: "s = state_after s0 r0" "tasks s k = N_asleep" "boxes s k \<noteq> []" "k < next_id s" "\<not> shutdown s"
    and "2 * next_id s + 2 * k + 5 < signals r"
  shows "\<exists>x\<in>set r. tasks (snd x) k \<noteq> N_asleep \<or> shutdown (snd x)"
proof (rule ccontr)
  assume none: "\<not> ?thesis"
  have runs: "wake_run s0 r0" "wake_run s r" using assms(2) by (simp_all add: wake_run_append s(1))
  have "wake_inv s0" using assms(1) by (simp add: wake_init_def wake_inv_def signal_ok_def)
  then have inv: "wake_inv s" using wake_inv_run [OF runs(1)] s(1) by simp
  then have "sleeper k s" using s by (auto simp: sleeper_def wake_inv_def)
  then have "signals r \<le> distance k (signaller s)" using signals_bounded [OF runs(2)] s(5) none by auto
  with distance_le [OF inv, of k] assms(8) show False by simp
qed

lemma signaller_run_signals:
  assumes "signaller s \<noteq> W_end" "\<not> shutdown s"
  shows "signals (signaller_run n s) = n"
  using assms
proof (induction n arbitrary: s)
  case (Suc n)
  then obtain s' where s': "signal_step s = Some s'" "signaller s' \<noteq> W_end" "\<not> shutdown s'"
    by (cases "signaller s") (auto simp: signal_step_def cond_signal_def)
  with Suc.IH [of s'] show ?case by (simp add: signals_def)
qed (simp add: signals_def)

text \<open>
  A signal that comes too early: task 1 finds its queue empty, a message arrives and is signalled, and
  only then the task goes to sleep.
\<close>

definition demo_wakes :: wakes where
  "demo_wakes = \<lparr>boxes = (\<lambda>_. []), known = (\<lambda>_. True), next_id = 2, shutdown = False,
     tasks = (\<lambda>_. N_run), signaller = W_loop\<rparr>"

definition demo_bar :: message where
  "demo_bar = MBar \<lparr>tag = 0, tid = 1, msg_size = 72, methods = Some BarC, bar_value = 0\<rparr>"

definition demo_missed :: "(actor \<times> wakes) list" where
  "demo_missed =
     (let s1 = notify_test 1 demo_wakes;
          s2 = s1\<lparr>boxes := (boxes s1)(1 := boxes s1 1 @ [demo_bar])\<rparr>;
          s3 = s2\<lparr>signaller := W_test 0 2\<rparr>;
          s4 = s2\<lparr>signaller := W_test 1 2\<rparr>;
          s5 = s2\<lparr>signaller := W_signal 1 2\<rparr>;
          s6 = s2\<lparr>signaller := W_test 2 2\<rparr>;
          s7 = notify_wait 1 s6 in
      [(Task 1, s1), (Sender, s2), (Signaller, s3), (Signaller, s4), (Signaller, s5), (Signaller, s6), (Task 1, s7)])"

lemma demo_missed_run: "wake_run demo_wakes demo_missed"
  unfolding demo_missed_def Let_def
  by (intro wake_run.intros wake_step.test wake_step.post wake_step.signal wake_step.wait)
    (simp_all add: demo_wakes_def demo_bar_def notify_test_def signal_step_def is_empty_def cond_signal_def)

theorem sleeper_wakes_witness:
  "tasks (state_after demo_wakes demo_missed) 1 = N_asleep \<and>
   boxes (state_after demo_wakes demo_missed) 1 = [demo_bar] \<and>
   (\<exists>x. x \<in> set (signaller_run 12 (state_after demo_wakes demo_missed)) \<and>
     (tasks (snd x) 1 \<noteq> N_asleep \<or> shutdown (snd x)))"
proof -
  let ?s = "state_after demo_wakes demo_missed"
  have s: "tasks ?s 1 = N_asleep" "boxes ?s 1 = [demo_bar]" "next_id ?s = 2" "\<not> shutdown ?s"
    "signaller ?s \<noteq> W_end"
    by (simp_all add: state_after_def demo_missed_def Let_def demo_wakes_def notify_test_def notify_wait_def)
  have "wake_run demo_wakes (demo_missed @ signaller_run 12 ?s)"
    by (simp add: wake_run_append demo_missed_run signaller_run_ok)
  moreover have "wake_init demo_wakes" by (simp add: wake_init_def demo_wakes_def)
  moreover have "signals (signaller_run 12 ?s) = 12" using s by (intro signaller_run_signals)
  ultimately have "\<exists>x\<in>set (signaller_run 12 ?s). tasks (snd x) 1 \<noteq> N_asleep \<or> shutdown (snd x)"
    using sleeper_wakes [of demo_wakes demo_missed "signaller_run 12 ?s" ?s 1] s by simp
  with s show ?thesis by blast
qed

text \<open>
  C40. After \<open>destroy\<close> has stopped the signalling thread, a task that sleeps is not woken by any message:
  only a spurious wake-up of its condition variable can end its sleep.
\<close>

theorem shutdown_strands_sleepers:
  assumes "wake_run s r" "signaller s = W_end" "tasks s k = N_asleep" "Spurious k \<notin> fst ` set r"
  shows "tasks (state_after s r) k = N_asleep \<and> (\<forall>x\<in>set r. tasks (snd x) k = N_asleep)"
  using assms
proof (induction rule: wake_run.induct)
  case (step s a s' r)
  from step.hyps(1) step.prems have "signaller s' = W_end \<and> tasks s' k = N_asleep"
    by (induction rule: wake_step.induct) (auto simp: signal_step_def notify_test_def notify_wait_def)
  with step.IH step.prems show ?case by auto
qed (simp add: state_after_def)

theorem shutdown_strands_sleepers_witness:
  "tasks (state_after (demo_wakes\<lparr>shutdown := True, signaller := W_end, tasks := (\<lambda>_. N_asleep)\<rparr>)
     [(Sender, demo_wakes\<lparr>shutdown := True, signaller := W_end, tasks := (\<lambda>_. N_asleep),
        boxes := (\<lambda>_. [])(1 := [demo_bar])\<rparr>)]) 1 = N_asleep"
proof -
  let ?s = "demo_wakes\<lparr>shutdown := True, signaller := W_end, tasks := (\<lambda>_. N_asleep)\<rparr>"
  let ?t = "demo_wakes\<lparr>shutdown := True, signaller := W_end, tasks := (\<lambda>_. N_asleep),
        boxes := (\<lambda>_. [])(1 := [demo_bar])\<rparr>"
  have "wake_step ?s Sender (?s\<lparr>boxes := (boxes ?s)(1 := boxes ?s 1 @ [demo_bar])\<rparr>)"
    by (rule wake_step.post)
  then have "wake_step ?s Sender ?t" by (simp add: demo_wakes_def)
  then have "wake_run ?s [(Sender, ?t)]" by (intro wake_run.intros)
  from shutdown_strands_sleepers [OF this, of 1] show ?thesis by simp
qed

end
