(* ===== verification/MessageTyping.thy ===== *)
theory MessageTyping
  imports CircularMsgQ
begin

text \<open>
  Which messages a program can build with the operations of the message classes, as a type system with
  two types per class: an object that has been constructed, and one that is ready to be sent.  A
  \<open>TextMsg\<close>, \<open>TopologyMsg\<close> or \<open>IntArrayMsg\<close> is ready only after its setter has run, since the
  constructor leaves its payload as \<open>malloc\<close> returned it.  The theorem says that a message that is ready
  is well formed, that no method called on it faults, and that its receiver gets a message that is
  ready again; the queue and task theories assume well-formed messages.
\<close>

section \<open>Definitions\<close>

inductive typed :: "bool \<Rightarrow> message \<Rightarrow> bool" where
  bar_create: "BarMsg_create blk t = Inr x \<Longrightarrow> typed True (MBar x)"
| bar_set: "typed True (MBar x) \<Longrightarrow> typed True (MBar (BarMsg_setValue x v))"
| bar_clone: "typed True (MBar x) \<Longrightarrow> BarMsg_clone blk x = Inr y \<Longrightarrow> typed True (MBar y)"
| text_create: "length (text_msg junk) = 100 \<Longrightarrow> TextMsg_create (Some junk) t = Inr x \<Longrightarrow>
    typed False (MText x)"
| text_set: "typed r (MText x) \<Longrightarrow> TextMsg_setMsg x s = Inr y \<Longrightarrow> typed True (MText y)"
| text_clone: "typed True (MText x) \<Longrightarrow> length (text_msg junk) = 100 \<Longrightarrow>
    TextMsg_clone (Some junk) x = Inr y \<Longrightarrow> typed True (MText y)"
| ref_create: "RefIntArrayMsg_create blk t = Inr x \<Longrightarrow> typed True (MRefIntArray x)"
| ref_set: "typed True (MRefIntArray x) \<Longrightarrow> typed True (MRefIntArray (RefIntArrayMsg_setValues x n p))"
| ref_clone: "typed True (MRefIntArray x) \<Longrightarrow> RefIntArrayMsg_clone blk x = Inr y \<Longrightarrow>
    typed True (MRefIntArray y)"
| topo_create: "TopologyMsg_create blk t = Inr x \<Longrightarrow> typed False (MTopology x)"
| topo_set: "typed r (MTopology x) \<Longrightarrow> 0 \<le> sint n \<Longrightarrow> 104 + 4 * sint n < 2 ^ 31 \<Longrightarrow>
    TopologyMsg_setBucketIds x n ids = Inr y \<Longrightarrow> typed True (MTopology y)"
| topo_root: "typed r (MTopology x) \<Longrightarrow> typed r (MTopology (TopologyMsg_setRootId x i))"
| topo_sizes: "typed r (MTopology x) \<Longrightarrow>
    typed r (MTopology (x\<lparr>sample_size := n, topo_data_size := d\<rparr>))"
| topo_write: "typed True (MTopology x) \<Longrightarrow> unat (msg_size x) + 4 * length (bucket_ids x) < 2 ^ 31 \<Longrightarrow>
    TopologyMsg_writeAt v x m a = Inr (y, m', k) \<Longrightarrow> typed True (MTopology y)"
| topo_clone: "typed True (MTopology x) \<Longrightarrow> TopologyMsg_clone blk x = Inr y \<Longrightarrow> typed True (MTopology y)"
| ints_create: "IntArrayMsg_create blk t = Inr x \<Longrightarrow> typed False (MIntArray x)"
| ints_set: "typed r (MIntArray x) \<Longrightarrow> 0 \<le> sint n \<Longrightarrow> 88 + 4 * sint n < 2 ^ 31 \<Longrightarrow>
    IntArrayMsg_setValues x n vs = Inr y \<Longrightarrow> typed True (MIntArray y)"
| ints_clone: "typed True (MIntArray x) \<Longrightarrow> IntArrayMsg_clone blk x = Inr y \<Longrightarrow> typed True (MIntArray y)"
| done_create: "DoneMsg_create blk t = Inr x \<Longrightarrow> typed True (MDone x)"
| done_set: "typed True (MDone x) \<Longrightarrow> typed True (MDone (x\<lparr>success := c\<rparr>))"
| done_clone: "typed True (MDone x) \<Longrightarrow> DoneMsg_clone blk x = Inr y \<Longrightarrow> typed True (MDone y)"
| two_create: "RefTwoDimIntArrayMsg_create blk t = Inr x \<Longrightarrow> typed True (MRefTwoDim x)"
| two_set: "typed True (MRefTwoDim x) \<Longrightarrow>
    typed True (MRefTwoDim (x\<lparr>rtd_size := n, rtd_counts := p, rtd_values := q\<rparr>))"
| two_clone: "typed True (MRefTwoDim x) \<Longrightarrow> RefTwoDimIntArrayMsg_clone blk x = Inr y \<Longrightarrow>
    typed True (MRefTwoDim y)"
| req_create: "RequestMsg_create blk t = Inr x \<Longrightarrow> typed True (MRequest x)"
| req_head: "typed True (MRequest x) \<Longrightarrow>
    typed True (MRequest (x\<lparr>sender_task_id := i, request_type := k\<rparr>))"
| req_set: "typed True (MRequest x) \<Longrightarrow> 0 \<le> sint n \<Longrightarrow> int (unat (msg_size x)) + sint n < 2 ^ 31 \<Longrightarrow>
    RequestMsg_setData x d n = Inr y \<Longrightarrow> typed True (MRequest y)"
| req_clone: "typed True (MRequest x) \<Longrightarrow> RequestMsg_clone blk x = Inr y \<Longrightarrow> typed True (MRequest y)"
| resp_create: "ResponseMsg_create blk t = Inr x \<Longrightarrow> typed True (MResponse x)"
| resp_head: "typed True (MResponse x) \<Longrightarrow> typed True (MResponse (x\<lparr>resp_code := c\<rparr>))"
| resp_set: "typed True (MResponse x) \<Longrightarrow> 0 \<le> sint n \<Longrightarrow> int (unat (msg_size x)) + sint n < 2 ^ 31 \<Longrightarrow>
    ResponseMsg_setData x d n = Inr y \<Longrightarrow> typed True (MResponse y)"
| resp_clone: "typed True (MResponse x) \<Longrightarrow> ResponseMsg_clone blk x = Inr y \<Longrightarrow> typed True (MResponse y)"

section \<open>Constructed objects\<close>

text \<open>What holds of an object from its construction on.\<close>

definition constructed :: "message \<Rightarrow> bool" where
  "constructed x \<longleftrightarrow> methods (header_of x) = Some (class_of x) \<and>
     tid (header_of x) = class_id (class_of x) \<and>
     (case x of MText y \<Rightarrow> length (text_msg y) = 100 \<and> wf_header TextC (sizeof TextMsg_struct) y | _ \<Rightarrow> True)"

lemma wf_header_fields:
  "methods x = Some c \<Longrightarrow> tid x = class_id c \<Longrightarrow> n \<le> unat (msg_size x) \<Longrightarrow> unat (msg_size x) < 2 ^ 31 \<Longrightarrow>
   wf_header c n x"
  by (simp add: wf_header_def)

lemma unat_size_ints:
  assumes "0 \<le> sint (n :: cint)" "int k + 4 * sint n < 2 ^ 31"
  shows "unat (of_nat k + n * 4 :: cint) = k + 4 * nat (sint n)"
proof -
  have "of_nat k + n * 4 = (of_nat (k + 4 * nat (sint n)) :: cint)"
    using assms(1) by (simp add: mult.commute)
  moreover have "int (k + 4 * nat (sint n)) < int (2 ^ 32)" using assms by simp
  then have "k + 4 * nat (sint n) < 2 ^ 32" by (simp only: of_nat_less_iff)
  ultimately show ?thesis by (simp add: unat_of_nat del: of_nat_add of_nat_mult)
qed

lemma unat_size_bytes:
  assumes "0 \<le> sint (n :: cint)" "int (unat (k :: cint)) + sint n < 2 ^ 31"
  shows "unat (k + n) = unat k + nat (sint n)" "unat k + nat (sint n) < 2 ^ 31"
proof -
  have "k + n = (of_nat (unat k + nat (sint n)) :: cint)"
    using assms(1) by simp
  moreover have "int (unat k + nat (sint n)) < int (2 ^ 32)" using assms by simp
  then have "unat k + nat (sint n) < 2 ^ 32" by (simp only: of_nat_less_iff)
  ultimately show "unat (k + n) = unat k + nat (sint n)" by (simp add: unat_of_nat del: of_nat_add)
  have "int (unat k + nat (sint n)) < int (2 ^ 31)" using assms by simp
  then show "unat k + nat (sint n) < 2 ^ 31" by (simp only: of_nat_less_iff)
qed

lemma copy_elems_length: "copy_elems xs n = Inr ys \<Longrightarrow> 0 \<le> n \<Longrightarrow> length ys = nat n"
  by (auto simp: copy_elems_def split: if_splits)

lemma strcpy_ready:
  "strcpy dst s = Inr s' \<Longrightarrow> length dst = 100 \<Longrightarrow> length s' = 100 \<and> 0 \<in> set s'"
  using strcpy_length [of dst s s'] by (auto simp: strcpy_Inr)

lemmas class_op_defs =
  BarMsg_create_def BarMsg_setValue_def BarMsg_clone_def
  TextMsg_create_def TextMsg_setMsg_def TextMsg_clone_def
  RefIntArrayMsg_create_def RefIntArrayMsg_setValues_def RefIntArrayMsg_clone_def
  TopologyMsg_create_def TopologyMsg_setRootId_def
  IntArrayMsg_create_def DoneMsg_create_def DoneMsg_clone_def
  RefTwoDimIntArrayMsg_create_def RefTwoDimIntArrayMsg_clone_def
  RequestMsg_create_def ResponseMsg_create_def

text \<open>The setters of the classes whose size depends on their payload.\<close>

lemma topo_set_wf:
  assumes "constructed (MTopology x)" "0 \<le> sint n" "104 + 4 * sint n < 2 ^ 31"
    "TopologyMsg_setBucketIds x n ids = Inr y"
  shows "wf_msg (MTopology y) \<and> constructed (MTopology y)"
  using assms unat_size_ints [OF assms(2), of 104]
  by (auto simp: TopologyMsg_setBucketIds_def bindR_eq_Inr wf_array_def constructed_def wf_header_def
      dest: copy_elems_length)

lemma ints_set_wf:
  assumes "constructed (MIntArray x)" "0 \<le> sint n" "88 + 4 * sint n < 2 ^ 31"
    "IntArrayMsg_setValues x n vs = Inr y"
  shows "wf_msg (MIntArray y) \<and> constructed (MIntArray y)"
  using assms unat_size_ints [OF assms(2), of 88]
  by (auto simp: IntArrayMsg_setValues_def bindR_eq_Inr wf_array_def constructed_def wf_header_def
      dest: copy_elems_length)

lemma topo_write_wf:
  assumes "wf_msg (MTopology x)" "unat (msg_size x) + 4 * length (bucket_ids x) < 2 ^ 31"
    "TopologyMsg_writeAt v x m a = Inr (y, m', k)"
  shows "wf_msg (MTopology y) \<and> constructed (MTopology y)"
proof -
  from assms(1) have arr: "wf_array (bucket_ids x) (bucket_count x)"
    and hd: "methods x = Some TopologyC" "tid x = class_id TopologyC" by (simp_all add: wf_header_def)
  have y: "y = x\<lparr>msg_size := msg_size x + bucket_count x * 4\<rparr>"
    using assms(3) by (auto simp: TopologyMsg_writeAt_def Let_def copy_out_wf_ints [OF arr])
  from arr have n: "0 \<le> sint (bucket_count x)" "nat (sint (bucket_count x)) = length (bucket_ids x)"
    by (simp_all add: wf_array_def)
  have "int (unat (msg_size x) + 4 * length (bucket_ids x)) < int (2 ^ 31)"
    using assms(2) by (simp only: of_nat_less_iff)
  then have "int (unat (msg_size x)) + 4 * sint (bucket_count x) < 2 ^ 31"
    using n(1) by (simp add: n(2) [symmetric])
  then have "unat (msg_size x + bucket_count x * 4) = unat (msg_size x) + 4 * length (bucket_ids x)"
    using unat_size_ints [OF n(1), of "unat (msg_size x)"] n(2) by simp
  then show ?thesis using assms(1,2) hd by (simp add: y constructed_def wf_header_def)
qed

lemma req_set_wf:
  assumes "wf_msg (MRequest x)" "0 \<le> sint n" "int (unat (msg_size x)) + sint n < 2 ^ 31"
    "RequestMsg_setData x d n = Inr y"
  shows "wf_msg (MRequest y) \<and> constructed (MRequest y)"
proof -
  obtain d' where d: "copy_elems d (sint n) = Inr d'"
    and y: "y = x\<lparr>req_data := d', req_data_size := n, msg_size := msg_size x + n\<rparr>"
    using assms(4) by (auto simp: RequestMsg_setData_def bindR_eq_Inr)
  from copy_elems_length [OF d assms(2)] assms(1-3) unat_size_bytes [OF assms(2,3)] show ?thesis
    by (simp add: y wf_header_def wf_array_def constructed_def)
qed

lemma resp_set_wf:
  assumes "wf_msg (MResponse x)" "0 \<le> sint n" "int (unat (msg_size x)) + sint n < 2 ^ 31"
    "ResponseMsg_setData x d n = Inr y"
  shows "wf_msg (MResponse y) \<and> constructed (MResponse y)"
proof -
  obtain d' where d: "copy_elems d (sint n) = Inr d'"
    and y: "y = x\<lparr>resp_data := d', resp_data_size := n, msg_size := msg_size x + n\<rparr>"
    using assms(4) by (auto simp: ResponseMsg_setData_def bindR_eq_Inr)
  from copy_elems_length [OF d assms(2)] assms(1-3) unat_size_bytes [OF assms(2,3)] show ?thesis
    by (simp add: y wf_header_def wf_array_def constructed_def)
qed

text \<open>Constructors and clones.\<close>

lemma create_typed:
  "BarMsg_create blk t = Inr x1 \<Longrightarrow> wf_msg (MBar x1) \<and> constructed (MBar x1)"
  "RefIntArrayMsg_create blk3 t = Inr x3 \<Longrightarrow> wf_msg (MRefIntArray x3) \<and> constructed (MRefIntArray x3)"
  "DoneMsg_create blk6 t = Inr x6 \<Longrightarrow> wf_msg (MDone x6) \<and> constructed (MDone x6)"
  "RefTwoDimIntArrayMsg_create blk7 t = Inr x7 \<Longrightarrow> wf_msg (MRefTwoDim x7) \<and> constructed (MRefTwoDim x7)"
  "RequestMsg_create blk8 t = Inr x8 \<Longrightarrow> wf_msg (MRequest x8) \<and> constructed (MRequest x8)"
  "ResponseMsg_create blk9 t = Inr x9 \<Longrightarrow> wf_msg (MResponse x9) \<and> constructed (MResponse x9)"
  by (auto simp: constructed_def class_op_defs wf_header_def wf_array_def split: option.splits)

lemma create_fresh:
  "TextMsg_create (Some junk) t = Inr x2 \<Longrightarrow> length (text_msg junk) = 100 \<Longrightarrow> constructed (MText x2)"
  "TopologyMsg_create blk4 t = Inr x4 \<Longrightarrow> constructed (MTopology x4)"
  "IntArrayMsg_create blk5 t = Inr x5 \<Longrightarrow> constructed (MIntArray x5)"
  by (auto simp: constructed_def class_op_defs wf_header_def split: option.splits)

lemma text_ready:
  assumes "constructed (MText x)" "TextMsg_setMsg x s = Inr y"
  shows "wf_msg (MText y) \<and> constructed (MText y)"
  using assms strcpy_ready [of "text_msg x" s]
  by (auto simp: TextMsg_setMsg_def bindR_eq_Inr constructed_def wf_header_def)

lemma clone_typed:
  "BarMsg_clone blk x1 = Inr y1 \<Longrightarrow> wf_msg (MBar x1) \<Longrightarrow> wf_msg (MBar y1) \<and> constructed (MBar y1)"
  "RefIntArrayMsg_clone blk3 x3 = Inr y3 \<Longrightarrow> wf_msg (MRefIntArray x3) \<Longrightarrow>
     wf_msg (MRefIntArray y3) \<and> constructed (MRefIntArray y3)"
  "DoneMsg_clone blk6 x6 = Inr y6 \<Longrightarrow> wf_msg (MDone x6) \<Longrightarrow> wf_msg (MDone y6) \<and> constructed (MDone y6)"
  "RefTwoDimIntArrayMsg_clone blk7 x7 = Inr y7 \<Longrightarrow> wf_msg (MRefTwoDim x7) \<Longrightarrow>
     wf_msg (MRefTwoDim y7) \<and> constructed (MRefTwoDim y7)"
  by (auto simp: constructed_def class_op_defs wf_header_def bindR_eq_Inr split: option.splits)

lemma clone_typed_text:
  "TextMsg_clone (Some junk) x = Inr y \<Longrightarrow> length (text_msg junk) = 100 \<Longrightarrow> wf_msg (MText x) \<Longrightarrow>
     wf_msg (MText y) \<and> constructed (MText y)"
  using strcpy_ready [of "text_msg junk" "text_msg x"]
  by (auto simp: constructed_def class_op_defs wf_header_def bindR_eq_Inr)

lemma clone_typed_arrays:
  "TopologyMsg_clone blk4 x4 = Inr y4 \<Longrightarrow> wf_msg (MTopology x4) \<Longrightarrow>
     wf_msg (MTopology y4) \<and> constructed (MTopology y4)"
  "IntArrayMsg_clone blk5 x5 = Inr y5 \<Longrightarrow> wf_msg (MIntArray x5) \<Longrightarrow>
     wf_msg (MIntArray y5) \<and> constructed (MIntArray y5)"
  "RequestMsg_clone blk8 x8 = Inr y8 \<Longrightarrow> wf_msg (MRequest x8) \<Longrightarrow>
     wf_msg (MRequest y8) \<and> constructed (MRequest y8)"
  "ResponseMsg_clone blk9 x9 = Inr y9 \<Longrightarrow> wf_msg (MResponse x9) \<Longrightarrow>
     wf_msg (MResponse y9) \<and> constructed (MResponse y9)"
  by (auto simp: constructed_def class_op_defs TopologyMsg_clone_def IntArrayMsg_clone_def
      RequestMsg_clone_def ResponseMsg_clone_def wf_header_def bindR_eq_Inr copy_elems_wf split: option.splits)

lemma typed_wf: "typed r x \<Longrightarrow> constructed x \<and> (r \<longrightarrow> wf_msg x)"
proof (induction rule: typed.induct)
  case (topo_set r x n ids y)
  then show ?case using topo_set_wf by blast
next
  case (ints_set r x n vs y)
  then show ?case using ints_set_wf by blast
next
  case (topo_write x v m a y m' k)
  then show ?case using topo_write_wf by blast
next
  case (req_set x n d y)
  then show ?case using req_set_wf by blast
next
  case (resp_set x n d y)
  then show ?case using resp_set_wf by blast
next
  case (text_set r x s y)
  then show ?case using text_ready by blast
next
  case (text_clone x junk y)
  then show ?case using clone_typed_text by blast
next
  case (bar_set x v)
  then show ?case by (simp add: constructed_def BarMsg_setValue_def wf_header_def)
next
  case (ref_set x n p)
  then show ?case by (simp add: constructed_def RefIntArrayMsg_setValues_def wf_header_def)
next
  case (topo_root r x i)
  then show ?case by (simp add: constructed_def TopologyMsg_setRootId_def wf_header_def)
next
  case (topo_sizes r x n d)
  then show ?case by (simp add: constructed_def wf_header_def)
next
  case (done_set x c)
  then show ?case by (simp add: constructed_def wf_header_def)
next
  case (two_set x n p q)
  then show ?case by (simp add: constructed_def wf_header_def)
next
  case (req_head x i k)
  then show ?case by (simp add: constructed_def wf_header_def)
next
  case (resp_head x c)
  then show ?case by (simp add: constructed_def wf_header_def)
qed (blast dest: create_typed create_fresh clone_typed clone_typed_arrays)+

section \<open>Messages that travel\<close>

lemma map_sum_Inr: "map_sum f g r = Inr y \<longleftrightarrow> (\<exists>z. r = Inr z \<and> y = g z)"
  by (cases r) auto

text \<open>A received text has a terminator, whatever the block of the receiver held.\<close>

lemma received_text:
  assumes "read_msg b v m a = Inr (MText y)" "blocks_ok b"
  shows "length (text_msg y) = 100 \<and> 0 \<in> set (text_msg y)"
proof -
  obtain junk x where c: "TextMsg_clone (Some junk) x = Inr y" "length (text_msg junk) = 100"
    using assms
    by (auto simp: read_msg_def clone_at_def blocks_ok_def Let_def map_sum_Inr split: if_splits option.splits
        msg_class.splits prod.splits)
  then show ?thesis
    using strcpy_ready [of "text_msg junk" "text_msg x"]
    by (auto simp: TextMsg_clone_def TextMsg_create_def bindR_eq_Inr)
qed

lemma received_wf:
  assumes "wf_msg x" "read_msg b v m a = Inr y" "norm_msg y = norm_msg x" "blocks_ok b"
  shows "wf_msg y \<and> class_of y = class_of x"
proof (cases x)
  case (MText z)
  with assms(3) obtain z' where z': "y = MText z'" "z'\<lparr>text_msg := cstr (text_msg z')\<rparr> = z\<lparr>text_msg := cstr (text_msg z)\<rparr>"
    by (cases y) auto
  then have "methods z' = methods z \<and> tid z' = tid z \<and> msg_size z' = msg_size z"
    by (metis TextMsg.select_convs TextMsg.update_convs TextMsg.surjective Message.select_convs)
  with z' MText assms(1) received_text [of b v m a z'] assms(2,4) show ?thesis
    by (auto simp: wf_header_def)
qed (use assms in \<open>cases y; auto\<close>)+

text \<open>
  C14. Type safety of messages: whatever constructors, setters, clones and serialisations a message comes
  from, once it is ready it is well formed, \<open>getTag\<close> and \<open>writeAt\<close> succeed on it, and any receiver that
  maps the bytes gets a well-formed message of the same class.
\<close>

theorem typed_messages_safe:
  assumes "typed True x" "receiver_ok b w" "a + msg_len x \<le> vlen w"
  shows "wf_msg x \<and> getTag x = Inr (tag (header_of x)) \<and>
    (\<exists>m' r y. writeAt v x m a = Inr (after_write x, m', r) \<and>
      read_msg b w m' a = Inr y \<and> wf_msg y \<and> class_of y = class_of x)"
proof -
  have wf: "wf_msg x" using typed_wf [OF assms(1)] by simp
  obtain r where wr: "writeAt v x m a = Inr (after_write x, write_mem v x m a, r)"
    using writeAt_total [OF wf] by blast
  have ok: "blocks_ok b" "wf_view w" using assms(2) by (simp_all add: receiver_ok_def)
  have "map_sum id norm_msg (read_msg b w (write_mem v x m a) a) = Inr (norm_msg x)"
    by (rule codec_roundtrip [OF wf ok assms(3), of v m]) (simp add: agree_on_def)
  then obtain y where "read_msg b w (write_mem v x m a) a = Inr y" "norm_msg y = norm_msg x"
    by (auto simp: map_sum_Inr)
  with received_wf [OF wf _ _ ok(1)] wr wf wf_msg_header(1) [OF wf] show ?thesis
    by (auto simp: getTag_def)
qed

definition typed_text :: TextMsg where
  "typed_text = \<lparr>tag = 4, tid = 2, msg_size = 168, methods = Some TextC, text_msg = [104, 105, 0] @ replicate 97 7\<rparr>"

lemma typed_text_built: "typed True (MText typed_text)"
proof (rule typed.text_set [OF typed.text_create])
  let ?junk = "\<lparr>tag = 0, tid = 0, msg_size = 0, methods = None, text_msg = replicate 100 7\<rparr> :: TextMsg"
  show "TextMsg_create (Some ?junk) 4 = Inr (typed_text\<lparr>text_msg := replicate 100 7\<rparr>)"
    by (simp add: TextMsg_create_def typed_text_def)
  show "TextMsg_setMsg (typed_text\<lparr>text_msg := replicate 100 7\<rparr>) [104, 105, 0] = Inr typed_text"
    by (simp add: TextMsg_setMsg_def strcpy_def cstr_def typed_text_def)
qed simp

theorem typed_messages_safe_witness:
  "wf_msg (MText typed_text) \<and> getTag (MText typed_text) = Inr 4 \<and>
   (\<exists>m' r y. writeAt sample_view (MText typed_text) (\<lambda>_. 9) 56 = Inr (MText typed_text, m', r) \<and>
      read_msg sample_blocks sample_view m' 56 = Inr y \<and> wf_msg y \<and> class_of y = TextC)"
proof -
  have "56 + msg_len (MText typed_text) \<le> vlen sample_view"
    by (simp add: msg_len_def typed_text_def sample_view_def Q_SIZE_def)
  from typed_messages_safe [OF typed_text_built sample_receiver this, of sample_view "\<lambda>_. 9"]
  show ?thesis by (simp add: typed_text_def)
qed

end
