(* ===== verification/MessageLife.thy ===== *)
theory MessageLife
  imports Messages
begin

text \<open>
  The life of a message object on the heap of its process: which blocks the constructors, setters and
  \<open>clone\<close> allocate and which ones \<open>destroy\<close> frees.  \<open>Messages\<close> describes the contents of the objects; here
  only their addresses count.  The classes \<open>TopologyMsg\<close>, \<open>IntArrayMsg\<close>, \<open>RequestMsg\<close> and \<open>ResponseMsg\<close>
  own a second block, their array.
\<close>

section \<open>Definitions\<close>

text \<open>The blocks that are allocated; \<open>malloc\<close> returns the null pointer 0 or a block that is not.\<close>

type_synonym allocs = "ptr set"

record obj =
  o_self :: ptr
  o_data :: ptr

definition c_free :: "ptr \<Rightarrow> allocs \<Rightarrow> allocs res" where
  "c_free p A = (if p = 0 then Inr A else if p \<in> A then Inr (A - {p}) else Inl OutOfBounds)"

definition has_array :: "msg_class \<Rightarrow> bool" where
  "has_array c \<longleftrightarrow> c = TopologyC \<or> c = IntArrayC \<or> c = RequestC \<or> c = ResponseC"

text \<open>
  A constructor: \<open>p\<close> is what \<open>malloc\<close> returned, \<open>junk\<close> the old contents of the array member, which only
  \<open>RequestMsg_create\<close> and \<open>ResponseMsg_create\<close> set to null.
\<close>

definition obj_create :: "msg_class \<Rightarrow> ptr \<Rightarrow> ptr \<Rightarrow> allocs \<Rightarrow> (obj \<times> allocs) res" where
  "obj_create c p junk A =
     (if p = 0 then Inl (ExitCall 1)
      else Inr (\<lparr>o_self = p, o_data = (if c = RequestC \<or> c = ResponseC then 0 else junk)\<rparr>, insert p A))"

text \<open>
  The setters of the classes with an array (\<open>setBucketIds\<close>, \<open>setValues\<close>, \<open>setData\<close>): \<open>q\<close> is what \<open>malloc\<close>
  returned for the new array of \<open>n\<close> elements, which is then filled.
\<close>

definition obj_set :: "int \<Rightarrow> ptr \<Rightarrow> obj \<Rightarrow> allocs \<Rightarrow> (obj \<times> allocs) res" where
  "obj_set n q this A =
     (if 0 < n \<and> q = 0 then Inl NullDeref
      else Inr (this\<lparr>o_data := q\<rparr>, if q = 0 then A else insert q A))"

definition obj_clone :: "msg_class \<Rightarrow> ptr \<Rightarrow> ptr \<Rightarrow> int \<Rightarrow> ptr \<Rightarrow> allocs \<Rightarrow> (obj \<times> allocs) res" where
  "obj_clone c p junk n q A =
     bindR (obj_create c p junk A) (\<lambda>(tmp, A').
       if has_array c then obj_set n q tmp A' else Inr (tmp, A'))"

definition BarMsg_destroy :: "obj \<Rightarrow> allocs \<Rightarrow> allocs res" where
  "BarMsg_destroy this A = c_free (o_self this) A"

definition TextMsg_destroy :: "obj \<Rightarrow> allocs \<Rightarrow> allocs res" where
  "TextMsg_destroy this A = c_free (o_self this) A"

definition RefIntArrayMsg_destroy :: "obj \<Rightarrow> allocs \<Rightarrow> allocs res" where
  "RefIntArrayMsg_destroy this A = c_free (o_self this) A"

definition TopologyMsg_destroy :: "obj \<Rightarrow> allocs \<Rightarrow> allocs res" where
  "TopologyMsg_destroy this A = bindR (c_free (o_data this) A) (c_free (o_self this))"

definition IntArrayMsg_destroy :: "obj \<Rightarrow> allocs \<Rightarrow> allocs res" where
  "IntArrayMsg_destroy this A = bindR (c_free (o_data this) A) (c_free (o_self this))"

definition DoneMsg_destroy :: "obj \<Rightarrow> allocs \<Rightarrow> allocs res" where
  "DoneMsg_destroy this A = c_free (o_self this) A"

definition RefTwoDimIntArrayMsg_destroy :: "obj \<Rightarrow> allocs \<Rightarrow> allocs res" where
  "RefTwoDimIntArrayMsg_destroy this A = c_free (o_self this) A"

definition RequestMsg_destroy :: "obj \<Rightarrow> allocs \<Rightarrow> allocs res" where
  "RequestMsg_destroy this A = bindR (c_free (o_data this) A) (c_free (o_self this))"

definition ResponseMsg_destroy :: "obj \<Rightarrow> allocs \<Rightarrow> allocs res" where
  "ResponseMsg_destroy this A = bindR (c_free (o_data this) A) (c_free (o_self this))"

text \<open>\<open>msg->destroy (msg)\<close>.\<close>

fun obj_destroy :: "msg_class \<Rightarrow> obj \<Rightarrow> allocs \<Rightarrow> allocs res" where
  "obj_destroy BarC = BarMsg_destroy"
| "obj_destroy TextC = TextMsg_destroy"
| "obj_destroy RefIntArrayC = RefIntArrayMsg_destroy"
| "obj_destroy TopologyC = TopologyMsg_destroy"
| "obj_destroy IntArrayC = IntArrayMsg_destroy"
| "obj_destroy DoneC = DoneMsg_destroy"
| "obj_destroy RefTwoDimC = RefTwoDimIntArrayMsg_destroy"
| "obj_destroy RequestC = RequestMsg_destroy"
| "obj_destroy ResponseC = ResponseMsg_destroy"

text \<open>
  One round of the database (\<open>start\<close> and \<open>receive\<close> of \<open>DatabaseTask.c\<close>): the blocks \<open>receive\<close> allocates for
  the clone of a request of \<open>n\<close> bytes, and the blocks of the response, which gets data when
  \<open>response_size\<close> is positive, is sent and is destroyed.
\<close>

record round_blks =
  b_request :: ptr
  b_request_data :: ptr
  b_response :: ptr
  b_response_data :: ptr

definition Database_round_allocs :: "round_blks \<Rightarrow> int \<Rightarrow> int \<Rightarrow> allocs \<Rightarrow> allocs res" where
  "Database_round_allocs bl n response_size A =
     bindR (obj_clone RequestC (b_request bl) 0 n (b_request_data bl) A) (\<lambda>(_, A1).
     bindR (obj_create ResponseC (b_response bl) 0 A1) (\<lambda>(res, A2).
     bindR (if 0 < response_size then obj_set response_size (b_response_data bl) res A2 else Inr (res, A2))
       (\<lambda>(res', A3). ResponseMsg_destroy res' A3)))"

fun Database_rounds_allocs :: "(round_blks \<times> int \<times> int) list \<Rightarrow> allocs \<Rightarrow> allocs res" where
  "Database_rounds_allocs [] A = Inr A"
| "Database_rounds_allocs ((bl, n, k) # rounds) A =
     bindR (Database_round_allocs bl n k A) (Database_rounds_allocs rounds)"

section \<open>Balanced lives\<close>

lemmas destroy_defs = BarMsg_destroy_def TextMsg_destroy_def RefIntArrayMsg_destroy_def
  TopologyMsg_destroy_def IntArrayMsg_destroy_def DoneMsg_destroy_def RefTwoDimIntArrayMsg_destroy_def
  RequestMsg_destroy_def ResponseMsg_destroy_def

lemma obj_destroy_eq:
  "obj_destroy c this A =
     (if has_array c then bindR (c_free (o_data this) A) (c_free (o_self this)) else c_free (o_self this) A)"
  by (cases c) (simp_all add: destroy_defs has_array_def)

lemma c_free_null [simp]: "c_free 0 A = Inr A"
  by (simp add: c_free_def)

lemma c_free_block: "p \<noteq> 0 \<Longrightarrow> p \<notin> A \<Longrightarrow> c_free p (insert p A) = Inr A"
  by (simp add: c_free_def)

lemma c_free_other: "p \<noteq> 0 \<Longrightarrow> p \<notin> A \<Longrightarrow> p \<noteq> q \<Longrightarrow> c_free p (insert q (insert p A)) = Inr (insert q A)"
  by (auto simp: c_free_def)

text \<open>Two blocks that \<open>malloc\<close> can return one after the other.\<close>

definition fresh2 :: "ptr \<Rightarrow> ptr \<Rightarrow> allocs \<Rightarrow> bool" where
  "fresh2 p q A \<longleftrightarrow> p \<noteq> 0 \<and> p \<notin> A \<and> (q \<noteq> 0 \<longrightarrow> q \<noteq> p \<and> q \<notin> A)"

text \<open>
  C28. \<open>destroy\<close> gives back what an object owns: a clone, and an object whose array was set once, leave the
  heap as it was before them; an object whose array was set a second time leaves its first array
  allocated for ever; and an object with an array that was never set is destroyed by freeing the
  pointer that \<open>malloc\<close> happened to leave there, except that requests and responses start with null.
\<close>

theorem destroy_balances:
  assumes "fresh2 p q A" "0 < n \<Longrightarrow> q \<noteq> 0" "fresh2 p q' (insert q A)"
  shows "bindR (obj_clone c p junk n q A) (\<lambda>(this, A1). obj_destroy c this A1) = Inr A \<and>
    (has_array c \<longrightarrow>
      bindR (obj_create c p junk A) (\<lambda>(this, A1).
      bindR (obj_set n q this A1) (\<lambda>(this1, A2). obj_destroy c this1 A2)) = Inr A \<and>
      (0 < n \<and> q' \<noteq> 0 \<longrightarrow>
        bindR (obj_create c p junk A) (\<lambda>(this, A1).
        bindR (obj_set n q this A1) (\<lambda>(this1, A2).
        bindR (obj_set n q' this1 A2) (\<lambda>(this2, A3). obj_destroy c this2 A3))) = Inr (insert q A))) \<and>
    bindR (obj_create c p junk A) (\<lambda>(this, A1). obj_destroy c this A1) =
      (if (c = TopologyC \<or> c = IntArrayC) \<and> junk \<noteq> 0
       then (if junk \<in> A then Inr (A - {junk}) else Inl OutOfBounds) else Inr A)"
proof -
  note defs = obj_destroy_eq obj_clone_def obj_create_def obj_set_def
  have p: "p \<noteq> 0" "p \<notin> A" and q: "q = 0 \<or> q \<noteq> p \<and> q \<notin> A" and q': "q' = 0 \<or> q' \<noteq> p \<and> q' \<noteq> q \<and> q' \<notin> A"
    using assms by (auto simp: fresh2_def)
  have nq: "q = 0 \<longrightarrow> \<not> 0 < n" using assms(2) by blast
  note free = c_free_block [OF p] c_free_other [OF p]
  have clone: "bindR (obj_clone c p junk n q A) (\<lambda>(this, A1). obj_destroy c this A1) = Inr A"
    using p q nq by (cases "q = 0"; cases "has_array c") (simp_all add: defs free c_free_block)
  have once: "bindR (obj_create c p junk A) (\<lambda>(this, A1).
      bindR (obj_set n q this A1) (\<lambda>(this1, A2). obj_destroy c this1 A2)) = Inr A" if "has_array c"
    using that p q nq by (cases "q = 0") (simp_all add: defs free c_free_block)
  have twice: "bindR (obj_create c p junk A) (\<lambda>(this, A1).
      bindR (obj_set n q this A1) (\<lambda>(this1, A2).
      bindR (obj_set n q' this1 A2) (\<lambda>(this2, A3). obj_destroy c this2 A3))) = Inr (insert q A)"
    if "has_array c" "0 < n" "q' \<noteq> 0"
    using that p q q' nq by (simp add: defs free c_free_block [of q'] not_sym [of q p])
  have unset: "bindR (obj_create c p junk A) (\<lambda>(this, A1). obj_destroy c this A1) =
      (if (c = TopologyC \<or> c = IntArrayC) \<and> junk \<noteq> 0
       then (if junk \<in> A then Inr (A - {junk}) else Inl OutOfBounds) else Inr A)"
    using p by (cases c; cases "junk \<in> A"; cases "junk = 0"; cases "junk = p")
      (auto simp: defs has_array_def c_free_def insert_Diff_if simp del: obj_destroy.simps)
  show ?thesis using clone once twice unset by blast
qed

theorem destroy_balances_witness:
  "bindR (obj_create IntArrayC 64 7 {32}) (\<lambda>(this, A1).
   bindR (obj_set 3 128 this A1) (\<lambda>(this1, A2).
   bindR (obj_set 3 256 this1 A2) (\<lambda>(this2, A3). obj_destroy IntArrayC this2 A3))) = Inr {128, 32}"
  using destroy_balances [of 64 128 "{32}" 3 256 IntArrayC 7] by (simp add: fresh2_def has_array_def del: obj_destroy.simps)

section \<open>The database\<close>

text \<open>The blocks of a round are fresh, and the request has data (clients send at least an identifier).\<close>

definition fresh_round :: "round_blks \<Rightarrow> allocs \<Rightarrow> bool" where
  "fresh_round bl A \<longleftrightarrow>
     distinct [0, b_request bl, b_request_data bl, b_response bl, b_response_data bl] \<and>
     b_request bl \<notin> A \<and> b_request_data bl \<notin> A \<and> b_response bl \<notin> A \<and> b_response_data bl \<notin> A"

fun fresh_rounds :: "(round_blks \<times> int \<times> int) list \<Rightarrow> allocs \<Rightarrow> bool" where
  "fresh_rounds [] A = True"
| "fresh_rounds ((bl, n, k) # rounds) A =
     (fresh_round bl A \<and> fresh_rounds rounds ({b_request bl, b_request_data bl} \<union> A))"

lemma round_leaks:
  assumes "fresh_round bl A"
  shows "Database_round_allocs bl n k A = Inr ({b_request bl, b_request_data bl} \<union> A)"
proof -
  let ?B = "insert (b_request_data bl) (insert (b_request bl) A)"
  have f: "b_response bl \<noteq> 0" "b_response bl \<notin> ?B" "b_response_data bl \<noteq> 0"
    "b_response_data bl \<notin> insert (b_response bl) ?B" "b_request bl \<noteq> 0" "b_request_data bl \<noteq> 0"
    using assms by (auto simp: fresh_round_def)
  have "c_free (b_response_data bl) (insert (b_response_data bl) (insert (b_response bl) ?B)) =
      Inr (insert (b_response bl) ?B)" "c_free (b_response bl) (insert (b_response bl) ?B) = Inr ?B"
    using f by (simp_all only: c_free_block not_False_eq_True)
  with f(1,3,5,6) show ?thesis
    by (simp add: Database_round_allocs_def obj_clone_def obj_create_def obj_set_def
        ResponseMsg_destroy_def has_array_def insert_commute)
qed

text \<open>
  C39. The database never destroys a request: every round destroys its response, but leaves the two blocks
  of the request allocated, so \<open>r\<close> rounds leave \<open>2 * r\<close> blocks behind.
\<close>

theorem database_leaks:
  assumes "fresh_rounds rounds A" "finite A"
  shows "\<exists>A'. Database_rounds_allocs rounds A = Inr A' \<and> A \<subseteq> A' \<and> card A' = card A + 2 * length rounds"
  using assms
proof (induction rounds arbitrary: A)
  case (Cons x rounds)
  obtain bl n k where x: "x = (bl, n, k)" by (metis prod_cases3)
  let ?B = "{b_request bl, b_request_data bl} \<union> A"
  have f: "fresh_round bl A" "fresh_rounds rounds ?B" "finite ?B" using Cons.prems by (simp_all add: x)
  obtain A' where A': "Database_rounds_allocs rounds ?B = Inr A'" "?B \<subseteq> A'"
    "card A' = card ?B + 2 * length rounds"
    using Cons.IH [OF f(2,3)] by blast
  have "card ?B = card A + 2" using f(1) Cons.prems(2) by (auto simp: fresh_round_def)
  with A' round_leaks [OF f(1)] show ?case by (auto simp: x)
qed simp

theorem database_leaks_witness:
  "\<exists>A'. Database_rounds_allocs
       [(\<lparr>b_request = 64, b_request_data = 128, b_response = 192, b_response_data = 256\<rparr>, 8, 56),
        (\<lparr>b_request = 320, b_request_data = 384, b_response = 192, b_response_data = 256\<rparr>, 56, 0)] {32} = Inr A' \<and>
     {32} \<subseteq> A' \<and> card A' = 5"
  using database_leaks [of "[(\<lparr>b_request = 64, b_request_data = 128, b_response = 192, b_response_data = 256\<rparr>, 8, 56),
      (\<lparr>b_request = 320, b_request_data = 384, b_response = 192, b_response_data = 256\<rparr>, 56, 0)]" "{32}"]
  by (simp add: fresh_round_def)

end
