(* ===== verification/BucketTask.thy ===== *)
theory BucketTask
  imports TaskComm TimeHelper
begin

text \<open>
  A bucket of the parallel sample sort (\<open>TaskSystem/src/Tasks/BucketTask/BucketTask.c\<close>).  A bucket gets
  a slice of the data and the splitters, splits its slice by splitter, hands the parts to the root
  by reference, gets back references to the parts that belong to it, and sorts them.

  References are pointers into the memory of the one process the tasks run in: the record \<open>heap\<close> maps
  a pointer to the integers, or to the pointers, from there to the end of the block it points into.
\<close>

section \<open>Definitions\<close>

record heap =
  hints :: "ptr \<Rightarrow> cint list"
  hptrs :: "ptr \<Rightarrow> ptr list"

record BucketTask =
  bk_taskID :: cint
  bk_bucket_count :: cint
  bk_bucket_ids :: "cint list"
  bk_root_id :: cint
  data_ref :: ptr
  bk_data_size :: cint
  splitters :: "cint list"
  splitter_size :: cint
  final_data_values :: "cint list"
  final_data_size :: cint
  send_time_acc :: timespec
  receive_wait_acc :: timespec
  rebuild_start :: timespec
  rebuild_end :: timespec

definition BucketTask_create ::
  "BucketTask option \<Rightarrow> os \<Rightarrow> bool \<Rightarrow> mem \<Rightarrow> shm \<Rightarrow> System \<Rightarrow>
     (mem \<times> shm \<times> System \<times> BucketTask) res" where
  "BucketTask_create blk e pthread_ok d s Comm =
     (case blk of None \<Rightarrow> Inl (ExitCall 1)
      | Some newRec \<Rightarrow>
          bindR (register_task e d s Comm) (\<lambda>(d', s', Comm', i).
            if pthread_ok then Inr (d', s', Comm', newRec\<lparr>bk_taskID := i\<rparr>)
            else Inl (ExitCall (-1))))"

text \<open>The tags shared by the sample sort tasks.\<close>

definition SS_BAR_MSG :: cint where "SS_BAR_MSG = 0"
definition REF_INTARRAY_MSG :: cint where "REF_INTARRAY_MSG = 1"
definition TOPOLOGY_MSG :: cint where "TOPOLOGY_MSG = 2"
definition DATA_REF_MSG :: cint where "DATA_REF_MSG = 3"
definition SPLITTER_MSG :: cint where "SPLITTER_MSG = 4"
definition GET_SUB_ARRAY_MSG :: cint where "GET_SUB_ARRAY_MSG = 5"
definition SUB_ARRAT_MSG :: cint where "SUB_ARRAT_MSG = 6"
definition SET_SUB_ARRAY_MSG :: cint where "SET_SUB_ARRAY_MSG = 7"
definition DONE_MSG :: cint where "DONE_MSG = 8"

lemmas ss_tags = SS_BAR_MSG_def REF_INTARRAY_MSG_def TOPOLOGY_MSG_def DATA_REF_MSG_def SPLITTER_MSG_def
  GET_SUB_ARRAY_MSG_def SUB_ARRAT_MSG_def SET_SUB_ARRAY_MSG_def DONE_MSG_def

text \<open>\<open>a - b\<close> of two \<open>int\<close> values, as the comparison functions of \<open>qsort\<close> return it.\<close>

definition buckettask_cmpfunc :: "cint \<Rightarrow> cint \<Rightarrow> cint" where
  "buckettask_cmpfunc a b = a - b"

text \<open>\<open>qsort\<close> of the C library with such a comparison function.\<close>

fun qsort_insert :: "(cint \<Rightarrow> cint \<Rightarrow> cint) \<Rightarrow> cint \<Rightarrow> cint list \<Rightarrow> cint list" where
  "qsort_insert cmp x [] = [x]"
| "qsort_insert cmp x (y # ys) =
     (if sint (cmp x y) \<le> 0 then x # y # ys else y # qsort_insert cmp x ys)"

definition qsort :: "(cint \<Rightarrow> cint \<Rightarrow> cint) \<Rightarrow> cint list \<Rightarrow> cint list" where
  "qsort cmp xs = foldr (qsort_insert cmp) xs []"

text \<open>The handlers.\<close>

definition handle_TopologyMsg :: "BucketTask \<Rightarrow> TopologyMsg \<Rightarrow> BucketTask res" where
  "handle_TopologyMsg this m =
     bindR (copy_elems (bucket_ids m) (sint (bucket_count m))) (\<lambda>is.
       Inr (this\<lparr>bk_bucket_count := bucket_count m, bk_bucket_ids := is, bk_root_id := root_id m\<rparr>))"

definition handle_DataRefMsg :: "BucketTask \<Rightarrow> RefIntArrayMsg \<Rightarrow> BucketTask" where
  "handle_DataRefMsg this m =
     this\<lparr>bk_data_size := RefIntArrayMsg_getSize m, data_ref := ria_values m\<rparr>"

text \<open>The copy loop of \<open>handle_SplitterMsg\<close>, from \<open>i\<close> with \<open>n\<close> elements to go.\<close>

fun copy_splitters :: "IntArrayMsg \<Rightarrow> nat \<Rightarrow> nat \<Rightarrow> cint list res" where
  "copy_splitters m i 0 = Inr []"
| "copy_splitters m i (Suc n) =
     bindR (IntArrayMsg_getValue m (of_nat i)) (\<lambda>v.
     bindR (copy_splitters m (Suc i) n) (\<lambda>vs. Inr (v # vs)))"

definition handle_SplitterMsg :: "BucketTask \<Rightarrow> IntArrayMsg \<Rightarrow> BucketTask res" where
  "handle_SplitterMsg this m =
     bindR (copy_splitters m 0 (nat (sint (IntArrayMsg_getSize m)))) (\<lambda>vs.
       Inr (this\<lparr>splitter_size := IntArrayMsg_getSize m, splitters := vs\<rparr>))"

definition handle_GetSubArrayMsg :: "BucketTask \<Rightarrow> DoneMsg \<Rightarrow> BucketTask" where
  "handle_GetSubArrayMsg this m = this"

text \<open>The size loop and the copy loop of \<open>handle_SetSubArrayMsg\<close>.\<close>

fun sum_counts :: "cint list \<Rightarrow> nat \<Rightarrow> nat \<Rightarrow> cint \<Rightarrow> cint res" where
  "sum_counts cs i 0 acc = Inr acc"
| "sum_counts cs i (Suc n) acc =
     bindR (array_get cs (of_nat i)) (\<lambda>c. sum_counts cs (Suc i) n (acc + c))"

fun rebuild_loop :: "heap \<Rightarrow> cint list \<Rightarrow> ptr list \<Rightarrow> nat \<Rightarrow> nat \<Rightarrow> cint list res" where
  "rebuild_loop h cs ps i 0 = Inr []"
| "rebuild_loop h cs ps i (Suc n) =
     bindR (array_get cs (of_nat i)) (\<lambda>c.
     bindR (if sint c \<le> 0 then Inr [] else
              bindR (array_get ps (of_nat i)) (\<lambda>p. copy_elems (hints h p) (sint c))) (\<lambda>vs.
     bindR (rebuild_loop h cs ps (Suc i) n) (\<lambda>ws. Inr (vs @ ws))))"

definition handle_SetSubArrayMsg ::
  "heap \<Rightarrow> timespec \<Rightarrow> timespec \<Rightarrow> BucketTask \<Rightarrow> RefTwoDimIntArrayMsg \<Rightarrow> BucketTask res" where
  "handle_SetSubArrayMsg h t0 t1 this m =
     (let n = nat (sint (rtd_size m)); cs = hints h (rtd_counts m); ps = hptrs h (rtd_values m) in
      bindR (sum_counts cs 0 n 0) (\<lambda>total.
      bindR (rebuild_loop h cs ps 0 n) (\<lambda>vs.
        if int (length vs) > sint total then Inl OutOfBounds
        else Inr (this\<lparr>rebuild_start := t0, final_data_size := total, final_data_values := vs,
                       rebuild_end := t1\<rparr>))))"

text \<open>
  The clock readings of one step: around the waiting loop of \<open>receive\<close> (\<open>None\<close> when the first
  \<open>getMsgTag\<close> found a message), around the rebuilding of the array and around a \<open>send\<close>.
\<close>

record bucket_clk =
  waited :: "(timespec \<times> timespec) option"
  rebuild_at :: "timespec \<times> timespec"
  send_at :: "timespec \<times> timespec"

definition account_wait :: "bucket_clk \<Rightarrow> BucketTask \<Rightarrow> BucketTask" where
  "account_wait clk this =
     (case waited clk of
        None \<Rightarrow> this
      | Some (recv_start, recv_end) \<Rightarrow>
          this\<lparr>receive_wait_acc := tsAdd (receive_wait_acc this) (diff recv_start recv_end)\<rparr>)"

text \<open>What the \<open>send\<close> of a bucket does besides the \<open>send\<close> of the system.\<close>

definition account_send :: "bucket_clk \<Rightarrow> BucketTask \<Rightarrow> BucketTask" where
  "account_send clk this =
     this\<lparr>send_time_acc := tsAdd (send_time_acc this) (diff (fst (send_at clk)) (snd (send_at clk)))\<rparr>"

text \<open>\<open>receive\<close>, or \<open>None\<close> while it polls.\<close>

definition Bucket_receive ::
  "heap \<Rightarrow> bucket_clk \<Rightarrow> BucketTask \<Rightarrow> message list \<Rightarrow> (BucketTask \<times> message list) res option" where
  "Bucket_receive h clk this0 ib =
     (let this = account_wait clk this0 in
      case poll_tag ib of
        None \<Rightarrow> None
      | Some t \<Rightarrow> Some
          (if t = TOPOLOGY_MSG then
             bindR (in_receive ib) (\<lambda>(msg, ib'). bindR (as_topology msg) (\<lambda>m.
             bindR (handle_TopologyMsg this m) (\<lambda>this'. Inr (this', ib'))))
           else if t = DATA_REF_MSG then
             bindR (in_receive ib) (\<lambda>(msg, ib'). bindR (as_ref_int_array msg) (\<lambda>m.
               Inr (handle_DataRefMsg this m, ib')))
           else if t = SPLITTER_MSG then
             bindR (in_receive ib) (\<lambda>(msg, ib'). bindR (as_int_array msg) (\<lambda>m.
             bindR (handle_SplitterMsg this m) (\<lambda>this'. Inr (this', ib'))))
           else if t = GET_SUB_ARRAY_MSG then
             bindR (in_receive ib) (\<lambda>(msg, ib'). bindR (as_done msg) (\<lambda>m.
               Inr (handle_GetSubArrayMsg this m, ib')))
           else if t = SET_SUB_ARRAY_MSG then
             bindR (in_receive ib) (\<lambda>(msg, ib'). bindR (as_ref_two_dim msg) (\<lambda>m.
             bindR (handle_SetSubArrayMsg h (fst (rebuild_at clk)) (snd (rebuild_at clk)) this m) (\<lambda>this'. Inr (this', ib'))))
           else if t \<in> {SS_BAR_MSG, REF_INTARRAY_MSG, SUB_ARRAT_MSG, DONE_MSG} then Inr (this, ib)
           else Inr (this, in_dropMsg ib)))"

text \<open>
  The inner loop over the splitters, from \<open>si\<close>: the bucket a value belongs to (the first whose
  splitter is not smaller, else the last); \<open>None\<close> when there are no splitters.
\<close>

fun pick_bucket :: "cint \<Rightarrow> cint list \<Rightarrow> nat \<Rightarrow> nat option" where
  "pick_bucket val [] si = None"
| "pick_bucket val (s # ss) si =
     (if sint val \<le> sint s then Some si
      else if ss = [] then Some si
      else pick_bucket val ss (Suc si))"

text \<open>1) \<open>counts[si]++\<close> for every value.\<close>

fun count_loop :: "cint list \<Rightarrow> cint list \<Rightarrow> cint list \<Rightarrow> cint list res" where
  "count_loop sp [] counts = Inr counts"
| "count_loop sp (val # vals) counts =
     (case pick_bucket val sp 0 of
        None \<Rightarrow> count_loop sp vals counts
      | Some si \<Rightarrow>
          (if si < length counts
           then count_loop sp vals (counts[si := counts ! si + 1]) else Inl OutOfBounds))"

text \<open>2) \<open>values_to_propagate[si][current[si]] = val; current[si]++\<close> for every value.\<close>

fun fill_loop :: "cint list \<Rightarrow> cint list \<Rightarrow> cint list list \<Rightarrow> nat list \<Rightarrow> cint list list res" where
  "fill_loop sp [] vss current = Inr vss"
| "fill_loop sp (val # vals) vss current =
     (case pick_bucket val sp 0 of
        None \<Rightarrow> fill_loop sp vals vss current
      | Some si \<Rightarrow>
          (if si < length vss \<and> si < length current \<and> current ! si < length (vss ! si)
           then fill_loop sp vals (vss[si := (vss ! si)[current ! si := val]])
                  (current[si := Suc (current ! si)])
           else Inl OutOfBounds))"

text \<open>
  The blocks the propagation phase uses: for the counts, for the array of pointers (on the stack of
  \<open>start\<close>) and for the values of each bucket; \<open>junk\<close> is what a fresh block holds.
\<close>

record blocks2 =
  p_counts :: ptr
  p_rows :: ptr
  p_values :: "ptr list"
  junk :: cint

text \<open>Filling several blocks.\<close>

fun upd_all :: "('p \<times> 'v) list \<Rightarrow> ('p \<Rightarrow> 'v) \<Rightarrow> 'p \<Rightarrow> 'v" where
  "upd_all [] f = f"
| "upd_all ((p, v) # pvs) f = upd_all pvs (f(p := v))"

definition Bucket_propagate ::
  "RefTwoDimIntArrayMsg option \<Rightarrow> blocks2 \<Rightarrow> heap \<Rightarrow> BucketTask \<Rightarrow>
     (heap \<times> RefTwoDimIntArrayMsg) res" where
  "Bucket_propagate blk bl h this =
     (let k = nat (sint (bk_bucket_count this)) in
      bindR (copy_elems (hints h (data_ref this)) (sint (bk_data_size this))) (\<lambda>data.
      bindR (copy_elems (splitters this) (sint (splitter_size this))) (\<lambda>sp.
      bindR (count_loop sp data (replicate k 0)) (\<lambda>counts.
      bindR (fill_loop sp data (map (\<lambda>c. replicate (nat (sint c)) (junk bl)) counts) (replicate k 0)) (\<lambda>vss.
      bindR (RefTwoDimIntArrayMsg_create blk SUB_ARRAT_MSG) (\<lambda>m.
        Inr (h\<lparr>hints := upd_all (zip (p_values bl) vss) ((hints h)(p_counts bl := counts)),
               hptrs := (hptrs h)(p_rows bl := take k (p_values bl))\<rparr>,
             m\<lparr>rtd_size := bk_bucket_count this, rtd_counts := p_counts bl,
               rtd_values := p_rows bl\<rparr>)))))))"

text \<open>The final sort and the message that ends the task.\<close>

definition Bucket_finish :: "DoneMsg option \<Rightarrow> BucketTask \<Rightarrow> (BucketTask \<times> cint \<times> message) res" where
  "Bucket_finish blk this =
     bindR (copy_elems (final_data_values this) (sint (final_data_size this))) (\<lambda>vs.
     bindR (DoneMsg_create blk DONE_MSG) (\<lambda>m.
       Inr (this\<lparr>final_data_values := qsort buckettask_cmpfunc vs\<rparr>, bk_root_id this,
            MDone (m\<lparr>success := 1\<rparr>))))"


text \<open>
  \<open>start\<close> up to the message to the root (rounds 1 and 2), and from there to the end (round 3).  The
  heap of round 3 is the one the other tasks have left.
\<close>

definition Bucket_rounds_1_2 ::
  "RefTwoDimIntArrayMsg option \<Rightarrow> blocks2 \<Rightarrow> (nat \<Rightarrow> bucket_clk) \<Rightarrow> heap \<Rightarrow> BucketTask \<Rightarrow>
     message list \<Rightarrow> (heap \<times> BucketTask \<times> message list \<times> cint \<times> message) res option" where
  "Bucket_rounds_1_2 blk bl clk h this ib =
     (let zero = \<lparr>tv_sec = 0, tv_nsec = 0\<rparr>;
          this0 = this\<lparr>send_time_acc := zero, receive_wait_acc := zero\<rparr> in
      bindW (Bucket_receive h (clk 0) this0 ib) (\<lambda>(this1, ib1).
      bindW (Bucket_receive h (clk 1) this1 ib1) (\<lambda>(this2, ib2).
      bindW (Bucket_receive h (clk 2) this2 ib2) (\<lambda>(this3, ib3).
      bindW (Bucket_receive h (clk 3) this3 ib3) (\<lambda>(this4, ib4).
        Some (bindR (Bucket_propagate blk bl h this4) (\<lambda>(h', m).
          Inr (h', account_send (clk 3) this4, ib4, bk_root_id this4, MRefTwoDim m))))))))"

definition Bucket_round_3 ::
  "DoneMsg option \<Rightarrow> bucket_clk \<Rightarrow> heap \<Rightarrow> BucketTask \<Rightarrow> message list \<Rightarrow>
     (BucketTask \<times> message list \<times> cint \<times> message) res option" where
  "Bucket_round_3 blk clk h this0 ib0 =
     bindW (Bucket_receive h clk this0 ib0) (\<lambda>(this, ib).
       Some (bindR (Bucket_finish blk this) (\<lambda>(this', dst, m).
         Inr (account_send clk this', ib, dst, m))))"

section \<open>Splitting by splitter\<close>

text \<open>The values of one bucket, in their order.\<close>

definition part :: "cint list \<Rightarrow> cint list \<Rightarrow> nat \<Rightarrow> cint list" where
  "part sp vals i = filter (\<lambda>v. pick_bucket v sp 0 = Some i) vals"

lemma pick_bucket_range: "sp \<noteq> [] \<Longrightarrow> \<exists>j < length sp. pick_bucket v sp si = Some (si + j)"
proof (induction v sp si rule: pick_bucket.induct)
  case (2 val s ss si)
  show ?case
  proof (cases "sint val \<le> sint s \<or> ss = []")
    case True
    then show ?thesis by (auto intro: exI [of _ 0])
  next
    case False
    with 2 obtain j where "j < length ss" "pick_bucket val ss (Suc si) = Some (Suc si + j)"
      by auto
    with False show ?thesis by (auto intro!: exI [of _ "Suc j"])
  qed
qed simp

lemma pick_bucket_less: "pick_bucket v sp 0 = Some i \<Longrightarrow> i < length sp"
  using pick_bucket_range [of sp v 0] by (cases sp) auto

lemma pick_bucket_bounds:
  "pick_bucket v sp si = Some (si + j) \<Longrightarrow>
     (\<forall>l < j. sint (sp ! l) < sint v) \<and> (Suc j < length sp \<longrightarrow> sint v \<le> sint (sp ! j))"
proof (induction v sp si arbitrary: j rule: pick_bucket.induct)
  case (2 val s ss si)
  show ?case
  proof (cases "sint val \<le> sint s \<or> ss = []")
    case True
    then have "j = 0" using 2(2) by (auto split: if_splits)
    with True show ?thesis by auto
  next
    case False
    then have pick: "pick_bucket val ss (Suc si) = Some (si + j)"
      using 2(2) by auto
    obtain j' where "pick_bucket val ss (Suc si) = Some (Suc si + j')"
      using pick_bucket_range False by blast
    with pick have j: "j = Suc j'" by simp
    with 2(1) [of j'] pick False show ?thesis
      by (auto simp: less_Suc_eq_0_disj)
  qed
qed simp

lemma part_Nil [simp]: "part sp [] i = []"
  by (simp add: part_def)

lemma part_Cons:
  "part sp (v # vals) i = (if pick_bucket v sp 0 = Some i then v # part sp vals i else part sp vals i)"
  by (simp add: part_def)

lemma part_bounds:
  assumes "v \<in> set (part sp vals i)"
  shows "v \<in> set vals" "l < i \<Longrightarrow> sint (sp ! l) < sint v" "Suc i < length sp \<Longrightarrow> sint v \<le> sint (sp ! i)"
  using assms pick_bucket_bounds [of v sp 0 i] by (auto simp: part_def)

text \<open>The parts of a list make up the list.\<close>

lemma mset_parts:
  assumes "sp \<noteq> []"
  shows "(\<Sum>i < length sp. mset (part sp vals i)) = mset vals"
proof (induction vals)
  case (Cons v vals)
  obtain j where j: "j < length sp" "pick_bucket v sp 0 = Some j"
    using pick_bucket_range [OF assms, of v 0] by auto
  have "(\<Sum>i < length sp. mset (part sp (v # vals) i)) =
      (\<Sum>i < length sp. (if i = j then {#v#} else {#}) + mset (part sp vals i))"
    using j(2) by (intro sum.cong) (auto simp: part_Cons)
  also have "\<dots> = add_mset v (\<Sum>i < length sp. mset (part sp vals i))"
    using j(1) by (simp add: sum.distrib)
  finally show ?case using Cons by simp
qed simp

lemma count_loop_ok:
  "length sp \<le> length cs \<Longrightarrow> \<exists>cs'. count_loop sp vals cs = Inr cs' \<and> length cs' = length cs \<and>
     (\<forall>i < length cs. cs' ! i = cs ! i + of_nat (length (part sp vals i)))"
proof (induction sp vals cs rule: count_loop.induct)
  case (2 sp val vals cs)
  show ?case
  proof (cases "pick_bucket val sp 0")
    case None
    with 2 show ?thesis by (auto simp: part_Cons)
  next
    case (Some si)
    with 2(3) pick_bucket_less [OF Some] have "si < length cs" by simp
    with 2(2) [OF Some this] 2(3) Some show ?thesis
      by (auto simp: part_Cons nth_list_update)
  qed
qed simp

lemma fill_loop_ok:
  assumes "length vss = length cur" "length sp \<le> length cur"
    "\<And>i. i < length cur \<Longrightarrow> cur ! i + length (part sp vals i) \<le> length (vss ! i)"
  shows "\<exists>wss. fill_loop sp vals vss cur = Inr wss \<and> length wss = length cur \<and>
     (\<forall>i < length cur. wss ! i = take (cur ! i) (vss ! i) @ part sp vals i @
        drop (cur ! i + length (part sp vals i)) (vss ! i))"
  using assms
proof (induction sp vals vss cur rule: fill_loop.induct)
  case (2 sp val vals vss cur)
  show ?case
  proof (cases "pick_bucket val sp 0")
    case None
    with 2(1) [OF None 2(3,4)] 2(5) show ?thesis by (simp add: part_Cons)
  next
    case (Some si)
    have si: "si < length cur" "si < length vss"
      using pick_bucket_less [OF Some] 2(3,4) by simp_all
    have room: "cur ! si < length (vss ! si)"
      using 2(5) [OF si(1)] Some by (simp add: part_Cons)
    let ?vss = "vss[si := (vss ! si)[cur ! si := val]]" and ?cur = "cur[si := Suc (cur ! si)]"
    have "?cur ! i + length (part sp vals i) \<le> length (?vss ! i)" if "i < length ?cur" for i
      using 2(5) [of i] that Some si by (cases "i = si") (simp_all add: part_Cons)
    then obtain wss where wss: "fill_loop sp vals ?vss ?cur = Inr wss" "length wss = length cur"
      "\<And>i. i < length cur \<Longrightarrow> wss ! i = take (?cur ! i) (?vss ! i) @ part sp vals i @
          drop (?cur ! i + length (part sp vals i)) (?vss ! i)"
      using 2(2) [OF Some] si room 2(3,4) by auto
    have row: "wss ! i = take (cur ! i) (vss ! i) @ part sp (val # vals) i @
        drop (cur ! i + length (part sp (val # vals) i)) (vss ! i)" if "i < length cur" for i
      using wss(3) [OF that] that Some si room
      by (cases "i = si") (simp_all add: part_Cons take_Suc_conv_app_nth)
    with wss(1,2) Some si room show ?thesis by auto
  qed
qed auto


section \<open>Sizes\<close>

lemma array_get_nth:
  "i < length xs \<Longrightarrow> i < 2 ^ 31 \<Longrightarrow> array_get xs (of_nat i) = Inr (xs ! i)"
  by (simp add: array_get_def sint_of_nat)

section \<open>Propagation\<close>

lemma upd_all_notin: "q \<notin> set ps \<Longrightarrow> upd_all (zip ps vss) f q = f q"
  by (induction ps arbitrary: vss f) (auto simp: zip_Cons1 split: list.split)

lemma upd_all_nth:
  "distinct ps \<Longrightarrow> length vss = length ps \<Longrightarrow> i < length ps \<Longrightarrow> upd_all (zip ps vss) f (ps ! i) = vss ! i"
proof (induction ps arbitrary: vss f i)
  case (Cons p ps)
  obtain v vss' where vss: "vss = v # vss'"
    using Cons.prems(2) by (cases vss) auto
  with Cons show ?case
    by (cases i) (auto simp: upd_all_notin)
qed simp

text \<open>
  What a bucket is given: \<open>k\<close> splitters and a slice \<open>vals\<close> of the data, and blocks that do not
  overlap.
\<close>

definition bucket_ready :: "heap \<Rightarrow> blocks2 \<Rightarrow> BucketTask \<Rightarrow> nat \<Rightarrow> cint list \<Rightarrow> cint list \<Rightarrow> bool" where
  "bucket_ready h bl this k sp vals \<longleftrightarrow>
     bk_bucket_count this = of_nat k \<and> splitter_size this = of_nat k \<and> splitters this = sp \<and>
     length sp = k \<and> bk_data_size this = of_nat (length vals) \<and>
     take (length vals) (hints h (data_ref this)) = vals \<and> length vals < 2 ^ 31 \<and> k < 2 ^ 31 \<and>
     length (p_values bl) = k \<and> distinct (p_counts bl # p_values bl)"

text \<open>A message to the root that refers to the parts of a slice.\<close>

definition refers :: "heap \<Rightarrow> RefTwoDimIntArrayMsg \<Rightarrow> nat \<Rightarrow> cint list \<Rightarrow> cint list \<Rightarrow> bool" where
  "refers h m k sp vals \<longleftrightarrow>
     rtd_size m = of_nat k \<and>
     hints h (rtd_counts m) = map (\<lambda>i. of_nat (length (part sp vals i))) [0..<k] \<and>
     length (hptrs h (rtd_values m)) = k \<and>
     (\<forall>i < k. hints h (hptrs h (rtd_values m) ! i) = part sp vals i)"

lemma length_part: "length (part sp vals i) \<le> length vals"
  by (simp add: part_def)

lemma propagate_ok:
  assumes ready: "bucket_ready h bl this k sp vals"
  shows "\<exists>h' m. Bucket_propagate (Some blk) bl h this = Inr (h', m) \<and> refers h' m k sp vals \<and>
     rtd_counts m = p_counts bl \<and> rtd_values m = p_rows bl \<and> hptrs h' (p_rows bl) = p_values bl \<and>
     (\<forall>p. p \<notin> set (p_counts bl # p_values bl) \<longrightarrow> hints h' p = hints h p) \<and>
     (\<forall>p. p \<noteq> p_rows bl \<longrightarrow> hptrs h' p = hptrs h p)"
proof -
  from ready have k: "bk_bucket_count this = of_nat k" "splitter_size this = of_nat k"
      "splitters this = sp" "length sp = k" "k < 2 ^ 31"
    and vals: "bk_data_size this = of_nat (length vals)" "length vals < 2 ^ 31"
      "take (length vals) (hints h (data_ref this)) = vals"
    and ps: "length (p_values bl) = k" "distinct (p_values bl)" "p_counts bl \<notin> set (p_values bl)"
    by (auto simp: bucket_ready_def)
  have len: "length vals \<le> length (hints h (data_ref this))"
    using vals(3) by (metis length_take min.cobounded1 min.commute)
  have data: "copy_elems (hints h (data_ref this)) (sint (bk_data_size this)) = Inr vals"
    using vals len by (simp add: copy_elems_def sint_of_nat)
  have sp: "copy_elems (splitters this) (sint (splitter_size this)) = Inr sp"
    using k by (simp add: copy_elems_def sint_of_nat)
  obtain cs where cs: "count_loop sp vals (replicate k 0) = Inr cs" "length cs = k"
    "\<And>i. i < k \<Longrightarrow> cs ! i = of_nat (length (part sp vals i))"
    using count_loop_ok [of sp "replicate k 0" vals] k(4) by auto
  have cs': "cs = map (\<lambda>i. of_nat (length (part sp vals i))) [0..<k]"
    using cs(2,3) by (intro nth_equalityI) simp_all
  let ?rows = "map (\<lambda>c. replicate (nat (sint c)) (junk bl)) cs"
  have row: "length (?rows ! i) = length (part sp vals i)" if "i < k" for i
    using that cs(2,3) length_part [of sp vals i] vals(2) by (simp add: sint_of_nat)
  obtain wss where wss: "fill_loop sp vals ?rows (replicate k 0) = Inr wss" "length wss = k"
    "\<And>i. i < k \<Longrightarrow> wss ! i = part sp vals i"
    using fill_loop_ok [of ?rows "replicate k 0" sp vals] cs(2) k(4) row by auto
  define h' where "h' = h\<lparr>hints := upd_all (zip (p_values bl) wss) ((hints h)(p_counts bl := cs)), hptrs := (hptrs h)(p_rows bl := p_values bl)\<rparr>"
  obtain m where "RefTwoDimIntArrayMsg_create (Some blk) SUB_ARRAT_MSG = Inr m"
    by (simp add: RefTwoDimIntArrayMsg_create_def)
  then have run: "Bucket_propagate (Some blk) bl h this =
      Inr (h', m\<lparr>rtd_size := of_nat k, rtd_counts := p_counts bl, rtd_values := p_rows bl\<rparr>)"
    using data sp cs(1) wss(1) k(1,5) ps(1) by (simp add: Bucket_propagate_def h'_def sint_of_nat)
  have "hints h' (p_counts bl) = cs" "\<forall>i < k. hints h' (p_values bl ! i) = part sp vals i"
    "\<forall>p. p \<notin> set (p_counts bl # p_values bl) \<longrightarrow> hints h' p = hints h p"
    using ps wss by (simp_all add: h'_def upd_all_notin upd_all_nth)
  with run ps(1) cs' show ?thesis
    by (simp add: refers_def h'_def)
qed

section \<open>Rebuilding\<close>

lemma sum_counts_ok:
  "i + n \<le> length cs \<Longrightarrow> i + n < 2 ^ 31 \<Longrightarrow>
     sum_counts cs i n acc = Inr (acc + sum_list (take n (drop i cs)))"
proof (induction n arbitrary: i acc)
  case (Suc n)
  then have "take (Suc n) (drop i cs) = cs ! i # take n (drop (Suc i) cs)"
    by (simp add: Cons_nth_drop_Suc [symmetric])
  with Suc show ?case
    by (simp add: array_get_nth add.assoc)
qed simp

lemma rebuild_loop_ok:
  assumes "i + n \<le> length cs" "i + n \<le> length ps" "i + n < 2 ^ 31"
    "\<And>j. j < i + n \<Longrightarrow> cs ! j = of_nat (length (hints h (ps ! j)))"
    "\<And>j. j < i + n \<Longrightarrow> length (hints h (ps ! j)) < 2 ^ 31"
  shows "rebuild_loop h cs ps i n = Inr (concat (map (\<lambda>j. hints h (ps ! j)) [i..<i + n]))"
  using assms
proof (induction n arbitrary: i)
  case (Suc n)
  let ?xs = "hints h (ps ! i)"
  have c: "sint (cs ! i) = int (length ?xs)"
    using Suc.prems(4,5) [of i] by (simp add: sint_of_nat)
  have "rebuild_loop h cs ps (Suc i) n = Inr (concat (map (\<lambda>j. hints h (ps ! j)) [Suc i..<Suc i + n]))"
    using Suc.prems by (intro Suc.IH) auto
  then show ?case
    using Suc.prems(1-3)
    by (simp only: upt_front rebuild_loop.simps) (simp add: array_get_nth c copy_elems_def del: upt_Suc)
qed simp

lemma sum_list_of_nat: "sum_list (map (\<lambda>x. of_nat (f x)) xs) = (of_nat (sum_list (map f xs)) :: cint)"
  by (induction xs) simp_all

text \<open>The pieces a message of the root refers to.\<close>

definition pieces_at :: "heap \<Rightarrow> RefTwoDimIntArrayMsg \<Rightarrow> cint list list \<Rightarrow> bool" where
  "pieces_at h m xss \<longleftrightarrow>
     rtd_size m = of_nat (length xss) \<and>
     hints h (rtd_counts m) = map (\<lambda>xs. of_nat (length xs)) xss \<and>
     map (hints h) (hptrs h (rtd_values m)) = xss"

lemma handle_SetSubArrayMsg_ok:
  assumes p: "pieces_at h m xss" and n: "length xss < 2 ^ 31" and total: "length (concat xss) < 2 ^ 31"
  shows "handle_SetSubArrayMsg h t0 t1 this m = Inr (this\<lparr>rebuild_start := t0,
     final_data_size := of_nat (length (concat xss)), final_data_values := concat xss, rebuild_end := t1\<rparr>)"
proof -
  let ?cs = "hints h (rtd_counts m)" and ?ps = "hptrs h (rtd_values m)"
  have cs: "?cs = map (\<lambda>xs. of_nat (length xs)) xss" and ps: "map (hints h) ?ps = xss"
    and sz: "nat (sint (rtd_size m)) = length xss"
    using p n by (simp_all add: pieces_at_def sint_of_nat)
  have len: "length ?ps = length xss"
    using ps by (metis length_map)
  have nth: "hints h (?ps ! j) = xss ! j" if "j < length xss" for j
    using that ps len by (metis nth_map)
  have all: "map (\<lambda>j. hints h (?ps ! j)) [0..<length xss] = xss"
    using nth by (intro nth_equalityI) simp_all
  have small: "length (xss ! j) < 2 ^ 31" if "j < length xss" for j
  proof -
    have "length (xss ! j) \<le> length (concat xss)"
      using that by (auto simp: length_concat intro!: member_le_sum_list)
    with total show ?thesis by simp
  qed
  have "sum_counts ?cs 0 (length xss) 0 = Inr (of_nat (length (concat xss)))"
    using n by (subst sum_counts_ok) (simp_all add: cs length_concat sum_list_of_nat)
  moreover have "rebuild_loop h ?cs ?ps 0 (length xss) = Inr (concat xss)"
    using n len nth small
    by (subst rebuild_loop_ok) (simp_all add: cs nth all)
  ultimately show ?thesis
    using sz total by (simp add: handle_SetSubArrayMsg_def Let_def sint_of_nat)
qed

section \<open>Sorting\<close>

text \<open>Values whose differences are \<open>int\<close> values: then \<open>a - b\<close> does not overflow.\<close>

definition diffs_fit :: "cint set \<Rightarrow> bool" where
  "diffs_fit A \<longleftrightarrow> (\<forall>x \<in> A. \<forall>y \<in> A. sint x - sint y < 2 ^ 31)"

lemma sint_cases:
  fixes x y :: cint
  defines "D \<equiv> sint x - sint y"
  shows "sint (x - y) = (if D < - (2 ^ 31) then D + 2 ^ 32 else if D < 2 ^ 31 then D else D - 2 ^ 32)"
proof -
  have "x - y = of_int D"
    by (simp add: D_def)
  then have s: "sint (x - y) = (D + 2 ^ 31) mod 2 ^ 32 - 2 ^ 31"
    by (simp only: signed_of_int) (simp add: signed_take_bit_eq_take_bit_shift take_bit_eq_mod)
  have D: "- (2 ^ 32) < D" "D < 2 ^ 32"
    using sint_lt [of x] sint_ge [of x] sint_lt [of y] sint_ge [of y] by (simp_all add: D_def)
  consider "D < - (2 ^ 31)" | "- (2 ^ 31) \<le> D" "D < 2 ^ 31" | "2 ^ 31 \<le> D"
    by linarith
  then show ?thesis
  proof cases
    case 1
    have "(D + 2 ^ 31) mod 2 ^ 32 = (D + 2 ^ 31 + 2 ^ 32) mod 2 ^ 32"
      by (rule mod_add_self2 [symmetric])
    also have "\<dots> = D + 2 ^ 31 + 2 ^ 32"
      using 1 D by (intro mod_pos_pos_trivial) simp_all
    finally show ?thesis using s 1 by simp
  next
    case 2
    then have "(D + 2 ^ 31) mod 2 ^ 32 = D + 2 ^ 31"
      by (intro mod_pos_pos_trivial) simp_all
    then show ?thesis using s 2 by simp
  next
    case 3
    have "(D + 2 ^ 31) mod 2 ^ 32 = (D + 2 ^ 31 - 2 ^ 32) mod 2 ^ 32"
      by (rule minus_mod_self2 [symmetric])
    also have "\<dots> = D + 2 ^ 31 - 2 ^ 32"
      using 3 D by (intro mod_pos_pos_trivial) simp_all
    finally show ?thesis using s 3 by simp
  qed
qed

lemma sint_diff:
  assumes "sint (x :: cint) - sint y < 2 ^ 31" "sint y - sint x < 2 ^ 31"
  shows "sint (x - y) = sint x - sint y"
  using assms sint_cases [of x y] by simp

lemma cmpfunc_order:
  "diffs_fit A \<Longrightarrow> x \<in> A \<Longrightarrow> y \<in> A \<Longrightarrow> sint (buckettask_cmpfunc x y) \<le> 0 \<longleftrightarrow> sint x \<le> sint y"
  by (simp add: diffs_fit_def buckettask_cmpfunc_def sint_diff)

lemma mset_qsort_insert [simp]: "mset (qsort_insert cmp x ys) = add_mset x (mset ys)"
  by (induction ys) simp_all

lemma mset_qsort [simp]: "mset (qsort cmp xs) = mset xs"
  by (induction xs) (simp_all add: qsort_def)

lemma set_qsort [simp]: "set (qsort cmp xs) = set xs"
  by (metis mset_qsort set_mset_mset)

lemma length_qsort [simp]: "length (qsort cmp xs) = length xs"
  by (metis mset_qsort size_mset)

lemma set_qsort_insert [simp]: "set (qsort_insert cmp x ys) = insert x (set ys)"
  by (metis mset_qsort_insert set_mset_add_mset_insert set_mset_mset)

lemma qsort_insert_sorted:
  assumes "\<And>a b. a \<in> insert x (set ys) \<Longrightarrow> b \<in> insert x (set ys) \<Longrightarrow> sint (cmp a b) \<le> 0 \<longleftrightarrow> sint a \<le> sint b"
    "sorted (map sint ys)"
  shows "sorted (map sint (qsort_insert cmp x ys))"
  using assms by (induction ys) auto

lemma qsort_sorted:
  assumes "\<And>a b. a \<in> set xs \<Longrightarrow> b \<in> set xs \<Longrightarrow> sint (cmp a b) \<le> 0 \<longleftrightarrow> sint a \<le> sint b"
  shows "sorted (map sint (qsort cmp xs))"
  using assms
proof (induction xs)
  case (Cons x xs)
  then have "sorted (map sint (qsort cmp xs))" by simp
  with Cons.prems show ?case
    using qsort_insert_sorted [of x "qsort cmp xs" cmp] by (simp add: qsort_def [of cmp "x # xs"] qsort_def [of cmp xs, symmetric])
qed (simp add: qsort_def)

lemma bucket_qsort_sorted:
  "diffs_fit (set xs) \<Longrightarrow> sorted (map sint (qsort buckettask_cmpfunc xs))"
  by (intro qsort_sorted) (simp add: cmpfunc_order)

section \<open>The rounds of a bucket\<close>

lemma copy_splitters_ok:
  "i + n \<le> length (ia_values m) \<Longrightarrow> i + n < 2 ^ 31 \<Longrightarrow>
     copy_splitters m i n = Inr (take n (drop i (ia_values m)))"
proof (induction n arbitrary: i)
  case (Suc n)
  then have "take (Suc n) (drop i (ia_values m)) = ia_values m ! i # take n (drop (Suc i) (ia_values m))"
    by (simp add: Cons_nth_drop_Suc [symmetric])
  with Suc show ?case
    by (simp add: IntArrayMsg_getValue_def array_get_nth)
qed simp

text \<open>The first four messages of a bucket: topology, slice, splitters and the command.\<close>

definition round_1_inbox ::
  "TopologyMsg \<Rightarrow> RefIntArrayMsg \<Rightarrow> IntArrayMsg \<Rightarrow> DoneMsg \<Rightarrow> bool" where
  "round_1_inbox t d s g \<longleftrightarrow>
     tag t = TOPOLOGY_MSG \<and> tag d = DATA_REF_MSG \<and> tag s = SPLITTER_MSG \<and> tag g = GET_SUB_ARRAY_MSG \<and>
     bucket_ids t \<noteq> [] \<and> length (bucket_ids t) < 2 ^ 31 \<and> bucket_count t = of_nat (length (bucket_ids t)) \<and>
     length (ia_values s) = length (bucket_ids t) \<and> ia_size s = of_nat (length (bucket_ids t))"

lemma account_wait_sel [simp]:
  "bk_taskID (account_wait clk t) = bk_taskID t" "bk_bucket_count (account_wait clk t) = bk_bucket_count t"
  "bk_bucket_ids (account_wait clk t) = bk_bucket_ids t" "bk_root_id (account_wait clk t) = bk_root_id t"
  "data_ref (account_wait clk t) = data_ref t" "bk_data_size (account_wait clk t) = bk_data_size t"
  "splitters (account_wait clk t) = splitters t" "splitter_size (account_wait clk t) = splitter_size t"
  "final_data_values (account_wait clk t) = final_data_values t"
  "final_data_size (account_wait clk t) = final_data_size t"
  by (simp_all add: account_wait_def split: option.split)

lemma account_send_sel [simp]:
  "bk_taskID (account_send clk t) = bk_taskID t" "bk_bucket_count (account_send clk t) = bk_bucket_count t"
  "bk_bucket_ids (account_send clk t) = bk_bucket_ids t" "bk_root_id (account_send clk t) = bk_root_id t"
  "final_data_values (account_send clk t) = final_data_values t"
  "final_data_size (account_send clk t) = final_data_size t"
  by (simp_all add: account_send_def)

lemmas receive_defs = Bucket_receive_def poll_tag_def in_getMsgTag_def in_receive_def Let_def

lemma receive_topology:
  assumes "tag t = TOPOLOGY_MSG" "bucket_count t = of_nat (length (bucket_ids t))" "length (bucket_ids t) < 2 ^ 31"
  shows "Bucket_receive h clk this (MTopology t # ib) =
     Some (Inr ((account_wait clk this)\<lparr>bk_bucket_count := bucket_count t, bk_bucket_ids := bucket_ids t,
       bk_root_id := root_id t\<rparr>, ib))"
  using assms
  by (simp add: receive_defs as_topology_def handle_TopologyMsg_def copy_elems_def sint_of_nat ss_tags
      Message.truncate_def)

lemma receive_data_ref:
  assumes "tag d = DATA_REF_MSG"
  shows "Bucket_receive h clk this (MRefIntArray d # ib) =
     Some (Inr ((account_wait clk this)\<lparr>bk_data_size := ria_size d, data_ref := ria_values d\<rparr>, ib))"
  using assms
  by (simp add: receive_defs as_ref_int_array_def handle_DataRefMsg_def RefIntArrayMsg_getSize_def ss_tags
      Message.truncate_def)

lemma receive_splitters:
  assumes "tag s = SPLITTER_MSG" "ia_size s = of_nat (length (ia_values s))" "length (ia_values s) < 2 ^ 31"
  shows "Bucket_receive h clk this (MIntArray s # ib) =
     Some (Inr ((account_wait clk this)\<lparr>splitter_size := ia_size s, splitters := ia_values s\<rparr>, ib))"
  using assms
  by (simp add: receive_defs as_int_array_def handle_SplitterMsg_def IntArrayMsg_getSize_def ss_tags
      copy_splitters_ok sint_of_nat Message.truncate_def)

lemma receive_command:
  assumes "tag g = GET_SUB_ARRAY_MSG"
  shows "Bucket_receive h clk this (MDone g # ib) = Some (Inr (account_wait clk this, ib))"
  using assms
  by (simp add: receive_defs as_done_def handle_GetSubArrayMsg_def ss_tags Message.truncate_def)

lemma receive_pieces:
  assumes "tag m = SET_SUB_ARRAY_MSG"
  shows "Bucket_receive h clk this (MRefTwoDim m # ib) =
     Some (bindR (handle_SetSubArrayMsg h (fst (rebuild_at clk)) (snd (rebuild_at clk))
       (account_wait clk this) m) (\<lambda>this'. Inr (this', ib)))"
  using assms
  by (simp add: receive_defs as_ref_two_dim_def ss_tags Message.truncate_def)

lemma rounds_1_2_ok:
  assumes inbox: "round_1_inbox t d s g"
    and data: "take (length vals) (hints h (ria_values d)) = vals" "ria_size d = of_nat (length vals)"
      "length vals < 2 ^ 31"
    and blocks: "length (p_values bl) = length (bucket_ids t)" "distinct (p_counts bl # p_values bl)"
  shows "\<exists>h' this' m. Bucket_rounds_1_2 (Some blk) bl clk h this
       (MTopology t # MRefIntArray d # MIntArray s # MDone g # ib) =
       Some (Inr (h', this', ib, root_id t, MRefTwoDim m)) \<and>
     refers h' m (length (bucket_ids t)) (ia_values s) vals \<and>
     rtd_counts m = p_counts bl \<and> rtd_values m = p_rows bl \<and> hptrs h' (p_rows bl) = p_values bl \<and>
     (\<forall>p. p \<notin> set (p_counts bl # p_values bl) \<longrightarrow> hints h' p = hints h p) \<and>
     (\<forall>p. p \<noteq> p_rows bl \<longrightarrow> hptrs h' p = hptrs h p) \<and>
     tag m = SUB_ARRAT_MSG \<and> bk_root_id this' = root_id t \<and> bk_taskID this' = bk_taskID this"
proof -
  let ?z = "\<lparr>tv_sec = 0, tv_nsec = 0\<rparr>"
  let ?t0 = "this\<lparr>send_time_acc := ?z, receive_wait_acc := ?z\<rparr>"
  let ?t1 = "(account_wait (clk 0) ?t0)\<lparr>bk_bucket_count := bucket_count t, bk_bucket_ids := bucket_ids t, bk_root_id := root_id t\<rparr>"
  let ?t2 = "(account_wait (clk 1) ?t1)\<lparr>bk_data_size := ria_size d, data_ref := ria_values d\<rparr>"
  let ?t3 = "(account_wait (clk 2) ?t2)\<lparr>splitter_size := ia_size s, splitters := ia_values s\<rparr>"
  let ?t4 = "account_wait (clk 3) ?t3"
  from inbox have "bucket_ready h bl ?t4 (length (bucket_ids t)) (ia_values s) vals"
    using data blocks by (simp add: bucket_ready_def round_1_inbox_def)
  from propagate_ok [OF this, of blk] obtain h' m where pr: "Bucket_propagate (Some blk) bl h ?t4 = Inr (h', m)"
    "refers h' m (length (bucket_ids t)) (ia_values s) vals" "rtd_counts m = p_counts bl" "rtd_values m = p_rows bl"
    "hptrs h' (p_rows bl) = p_values bl" "\<forall>p. p \<notin> set (p_counts bl # p_values bl) \<longrightarrow> hints h' p = hints h p"
    "\<forall>p. p \<noteq> p_rows bl \<longrightarrow> hptrs h' p = hptrs h p" by blast
  have tag: "tag m = SUB_ARRAT_MSG"
    using pr(1) by (auto simp: Bucket_propagate_def Let_def bindR_eq_Inr RefTwoDimIntArrayMsg_create_def)
  have "Bucket_rounds_1_2 (Some blk) bl clk h this (MTopology t # MRefIntArray d # MIntArray s # MDone g # ib) =
      Some (Inr (h', account_send (clk 3) ?t4, ib, root_id t, MRefTwoDim m))"
    using inbox pr(1)
    by (simp add: Bucket_rounds_1_2_def Let_def round_1_inbox_def receive_topology receive_data_ref
        receive_splitters receive_command)
  with pr(2-) tag show ?thesis by fastforce
qed

lemma round_3_ok:
  assumes "tag m = SET_SUB_ARRAY_MSG" "pieces_at h m xss" "length xss < 2 ^ 31" "length (concat xss) < 2 ^ 31"
  shows "\<exists>this' d. Bucket_round_3 (Some blk) clk h this (MRefTwoDim m # ib) =
       Some (Inr (this', ib, bk_root_id this, MDone d)) \<and> tag d = DONE_MSG \<and> success d = 1 \<and>
     final_data_values this' = qsort buckettask_cmpfunc (concat xss) \<and>
     final_data_size this' = of_nat (length (concat xss))"
  using assms
  by (simp add: Bucket_round_3_def receive_pieces handle_SetSubArrayMsg_ok Bucket_finish_def
      copy_elems_def sint_of_nat DoneMsg_create_def)

section \<open>Properties\<close>

text \<open>
  C19. A bucket that gets its topology, its slice of the data, the splitters and the command sends
  the root a message that refers to one part of the slice per bucket, with its size: the parts make
  up the slice, and the part for bucket \<open>i\<close> has the values above all splitters before \<open>i\<close> and, unless
  \<open>i\<close> is the last bucket, not above splitter \<open>i\<close>, in their order.  Only the blocks of the bucket
  are written.
\<close>

theorem bucket_propagates:
  assumes "round_1_inbox t d s g"
    "take (length vals) (hints h (ria_values d)) = vals" "ria_size d = of_nat (length vals)"
    "length vals < 2 ^ 31"
    "length (p_values bl) = length (bucket_ids t)" "distinct (p_counts bl # p_values bl)"
  shows "\<exists>h' this' m parts. Bucket_rounds_1_2 (Some blk) bl clk h this
       (MTopology t # MRefIntArray d # MIntArray s # MDone g # ib) =
       Some (Inr (h', this', ib, root_id t, MRefTwoDim m)) \<and>
     tag m = SUB_ARRAT_MSG \<and> rtd_size m = of_nat (length parts) \<and>
     length parts = length (bucket_ids t) \<and>
     hints h' (rtd_counts m) = map (\<lambda>xs. of_nat (length xs)) parts \<and>
     map (hints h') (hptrs h' (rtd_values m)) = parts \<and>
     sum_list (map mset parts) = mset vals \<and>
     (\<forall>i < length parts. subseq (parts ! i) vals \<and> (\<forall>v \<in> set (parts ! i).
        (\<forall>l < i. sint (ia_values s ! l) < sint v) \<and>
        (Suc i < length parts \<longrightarrow> sint v \<le> sint (ia_values s ! i)))) \<and>
     (\<forall>p. p \<notin> set (p_counts bl # p_values bl) \<longrightarrow> hints h' p = hints h p)"
proof -
  let ?k = "length (bucket_ids t)" and ?sp = "ia_values s"
  let ?parts = "map (part ?sp vals) [0..<?k]"
  have k: "length ?sp = ?k" "?sp \<noteq> []"
    using assms(1) by (auto simp: round_1_inbox_def)
  obtain h' this' m where run: "Bucket_rounds_1_2 (Some blk) bl clk h this
      (MTopology t # MRefIntArray d # MIntArray s # MDone g # ib) =
      Some (Inr (h', this', ib, root_id t, MRefTwoDim m))" "refers h' m ?k ?sp vals" "tag m = SUB_ARRAT_MSG"
    "\<forall>p. p \<notin> set (p_counts bl # p_values bl) \<longrightarrow> hints h' p = hints h p"
    using rounds_1_2_ok [OF assms, of blk clk this ib] by blast
  have "map (hints h') (hptrs h' (rtd_values m)) = ?parts"
    using run(2) by (intro nth_equalityI) (auto simp: refers_def)
  moreover have "sum_list (map mset ?parts) = mset vals"
    using mset_parts [OF k(2), of vals] k(1) by (simp add: o_def sum_list_sum_nth atLeast0LessThan)
  moreover have "hints h' (rtd_counts m) = map (\<lambda>xs. of_nat (length xs)) ?parts"
    "rtd_size m = of_nat (length ?parts)"
    using run(2) by (simp_all add: refers_def)
  moreover have "\<forall>i < length ?parts. subseq (?parts ! i) vals \<and> (\<forall>v \<in> set (?parts ! i).
      (\<forall>l < i. sint (?sp ! l) < sint v) \<and> (Suc i < length ?parts \<longrightarrow> sint v \<le> sint (?sp ! i)))"
    using part_bounds(2,3) k(1) by (auto simp: part_def subseq_filter_left)
  moreover have "length ?parts = ?k" by simp
  ultimately show ?thesis
    using run(1,3,4) by blast
qed

definition sample_topology :: TopologyMsg where
  "sample_topology =
     \<lparr>tag = 2, tid = 4, msg_size = 136, methods = Some TopologyC, bucket_count = 2, root_id = 1,
      sample_size = 2, topo_data_size = 4, bucket_ids = [2, 3]\<rparr>"

definition sample_slice :: RefIntArrayMsg where
  "sample_slice =
     \<lparr>tag = 3, tid = 3, msg_size = 88, methods = Some RefIntArrayC, ria_size = 3, ria_values = 4096\<rparr>"

definition sample_splitters :: IntArrayMsg where
  "sample_splitters =
     \<lparr>tag = 4, tid = 5, msg_size = 96, methods = Some IntArrayC, ia_size = 2, ia_values = [10, 1000000]\<rparr>"

definition sample_done :: "cint \<Rightarrow> DoneMsg" where
  "sample_done t = \<lparr>tag = t, tid = 6, msg_size = 48, methods = Some DoneC, success = 1\<rparr>"

definition sample_two_dim :: RefTwoDimIntArrayMsg where
  "sample_two_dim =
     \<lparr>tag = 7, tid = 7, msg_size = 64, methods = Some RefTwoDimC, rtd_size = 2, rtd_counts = 8192,
      rtd_values = 8256\<rparr>"

definition sample_heap :: heap where
  "sample_heap =
     \<lparr>hints = (\<lambda>p. if p = 4096 then [30, 10, 20] else if p = 8192 then [2, 1]
        else if p = 12288 then [5, 3] else if p = 12352 then [4] else []),
      hptrs = (\<lambda>p. if p = 8256 then [12288, 12352] else [])\<rparr>"

definition sample_bucket :: BucketTask where
  "sample_bucket =
     \<lparr>bk_taskID = 2, bk_bucket_count = 0, bk_bucket_ids = [], bk_root_id = 1, data_ref = 0,
      bk_data_size = 0, splitters = [], splitter_size = 0, final_data_values = [], final_data_size = 0,
      send_time_acc = \<lparr>tv_sec = 0, tv_nsec = 0\<rparr>, receive_wait_acc = \<lparr>tv_sec = 0, tv_nsec = 0\<rparr>,
      rebuild_start = \<lparr>tv_sec = 0, tv_nsec = 0\<rparr>, rebuild_end = \<lparr>tv_sec = 0, tv_nsec = 0\<rparr>\<rparr>"

definition sample_clk :: bucket_clk where
  "sample_clk = \<lparr>waited = None, rebuild_at = (\<lparr>tv_sec = 0, tv_nsec = 0\<rparr>, \<lparr>tv_sec = 0, tv_nsec = 5\<rparr>),
     send_at = (\<lparr>tv_sec = 0, tv_nsec = 6\<rparr>, \<lparr>tv_sec = 0, tv_nsec = 8\<rparr>)\<rparr>"

definition sample_blocks2 :: blocks2 where
  "sample_blocks2 = \<lparr>p_counts = 16384, p_rows = 16448, p_values = [16512, 16576], junk = 7\<rparr>"

theorem bucket_propagates_witness:
  "\<exists>h' this' m parts. Bucket_rounds_1_2 (Some sample_two_dim) sample_blocks2 (\<lambda>_. sample_clk) sample_heap
       sample_bucket (MTopology sample_topology # MRefIntArray sample_slice # MIntArray sample_splitters #
         MDone (sample_done 5) # []) =
       Some (Inr (h', this', [], 1, MRefTwoDim m)) \<and> map (hints h') (hptrs h' (rtd_values m)) = parts \<and>
     sum_list (map mset parts) = mset [30, 10, 20]"
  using bucket_propagates [where t = sample_topology and d = sample_slice and s = sample_splitters
      and g = "sample_done 5" and vals = "[30, 10, 20]" and h = sample_heap and bl = sample_blocks2
      and blk = sample_two_dim and clk = "\<lambda>_. sample_clk" and this = sample_bucket and ib = "[]"]
  by (fastforce simp: round_1_inbox_def sample_topology_def sample_slice_def sample_splitters_def
      sample_done_def ss_tags sample_heap_def sample_blocks2_def)

text \<open>
  C20. The last round of a bucket: given a message that refers to pieces \<open>xss\<close>, it keeps all their
  values, in ascending order, and then tells the root that it is done.  The values must be close
  enough for the subtraction of the comparison function.
\<close>

theorem bucket_sorts:
  assumes "tag m = SET_SUB_ARRAY_MSG" "pieces_at h m xss" "length xss < 2 ^ 31"
    "length (concat xss) < 2 ^ 31" "diffs_fit (set (concat xss))"
  shows "\<exists>this' d. Bucket_round_3 (Some blk) clk h this (MRefTwoDim m # ib) =
       Some (Inr (this', ib, bk_root_id this, MDone d)) \<and> tag d = DONE_MSG \<and> success d = 1 \<and>
     sorted (map sint (final_data_values this')) \<and>
     mset (final_data_values this') = mset (concat xss)"
  using round_3_ok [OF assms(1-4), of blk clk this ib] bucket_qsort_sorted [OF assms(5)] by fastforce

theorem bucket_sorts_witness:
  "\<exists>this' d. Bucket_round_3 (Some (sample_done 8)) sample_clk sample_heap sample_bucket
       (MRefTwoDim sample_two_dim # []) =
       Some (Inr (this', [], 1, MDone d)) \<and> tag d = DONE_MSG \<and> success d = 1 \<and>
     sorted (map sint (final_data_values this')) \<and> mset (final_data_values this') = mset [5, 3, 4]"
  using bucket_sorts [where m = sample_two_dim and h = sample_heap and xss = "[[5, 3], [4]]"
      and blk = "sample_done 8" and clk = sample_clk and this = sample_bucket and ib = "[]"]
  by (simp add: sample_two_dim_def sample_heap_def pieces_at_def ss_tags diffs_fit_def sample_bucket_def)

text \<open>
  The comparison function of the buckets orders two values correctly if and only if their
  difference is an \<open>int\<close>; beyond that it says that the greater value is the smaller one.
\<close>

theorem cmpfunc_correct_iff:
  "(sint (buckettask_cmpfunc x y) \<le> 0 \<longleftrightarrow> sint x \<le> sint y) \<longleftrightarrow>
     - (2 ^ 31) \<le> sint x - sint y \<and> sint x - sint y < 2 ^ 31"
  using sint_cases [of x y] sint_lt [of x] sint_ge [of x] sint_lt [of y] sint_ge [of y]
  by (auto simp: buckettask_cmpfunc_def)

end
