(* ===== verification/SampleSortTask.thy ===== *)
theory SampleSortTask
  imports BucketTask "HOL-Library.Signed_Division"
begin

text \<open>
  The root of the parallel sample sort (\<open>TaskSystem/src/Tasks/SampleSortTask/SampleSortTask.c\<close>): it
  gets the number of buckets and a reference to the data, picks splitters from a random sample,
  spawns the buckets, sends each of them the topology, a slice of the data and the splitters,
  collects the parts of the slices, regroups them by bucket and waits for the buckets to finish.
  The last section composes root and buckets.
\<close>

section \<open>Definitions\<close>

record SampleSortTask =
  ss_taskID :: cint
  ss_data :: ptr
  ss_size :: cint
  ss_K :: cint
  buckets_values_arr :: "RefTwoDimIntArrayMsg list"
  buckets_values_arr_count :: cint

definition SampleSortTask_create ::
  "SampleSortTask option \<Rightarrow> os \<Rightarrow> bool \<Rightarrow> mem \<Rightarrow> shm \<Rightarrow> System \<Rightarrow>
     (mem \<times> shm \<times> System \<times> SampleSortTask) res" where
  "SampleSortTask_create blk e pthread_ok d s Comm =
     (case blk of None \<Rightarrow> Inl (ExitCall 1)
      | Some newRec \<Rightarrow>
          bindR (register_task e d s Comm) (\<lambda>(d', s', Comm', i).
            if pthread_ok then Inr (d', s', Comm', newRec\<lparr>ss_taskID := i\<rparr>)
            else Inl (ExitCall (-1))))"

definition samplesorttask_cmpfunc :: "cint \<Rightarrow> cint \<Rightarrow> cint" where
  "samplesorttask_cmpfunc a b = a - b"

subsection \<open>Random numbers\<close>

text \<open>
  The values that the calls of \<open>random ()\<close> return are an argument, a list; \<open>None\<close> means that the
  list was too short for the loop to end.
\<close>

definition RAND_MAX :: nat where
  "RAND_MAX = 2147483647"

fun random_loop :: "clong \<Rightarrow> clong list \<Rightarrow> (clong \<times> clong list) option" where
  "random_loop bound [] = None"
| "random_loop bound (x # xs) = (if bound \<le> x then random_loop bound xs else Some (x, xs))"

definition random_at_most :: "clong \<Rightarrow> clong list \<Rightarrow> (clong \<times> clong list) res option" where
  "random_at_most mx rs =
     (let num_bins = mx + 1; num_rand = of_nat RAND_MAX + 1 in
      if num_bins = 0 then Some (Inl DivByZero)
      else
        let bin_size = num_rand div num_bins; defect = num_rand mod num_bins in
        case random_loop (num_rand - defect) rs of
          None \<Rightarrow> None
        | Some (x, rs') \<Rightarrow>
            Some (if bin_size = 0 then Inl DivByZero else Inr (x div bin_size, rs')))"

subsection \<open>Splitters\<close>

definition SAMPLE_SIZE :: nat where
  "SAMPLE_SIZE = 1500"

text \<open>\<open>samples[i] = this->data[random_at_most (this->size - 1)]\<close>, \<open>n\<close> times.\<close>

fun sample_loop ::
  "cint list \<Rightarrow> cint \<Rightarrow> nat \<Rightarrow> clong list \<Rightarrow> (cint list \<times> clong list) res option" where
  "sample_loop data sz 0 rs = Some (Inr ([], rs))"
| "sample_loop data sz (Suc n) rs =
     bindW (random_at_most (scast (sz - 1)) rs) (\<lambda>(val, rs1).
       if unat val < length data then
         bindW (sample_loop data sz n rs1) (\<lambda>(vs, rs2). Some (Inr (data ! unat val # vs, rs2)))
       else Some (Inl OutOfBounds))"

text \<open>\<open>splitters[i] = samples[(i + 1) * step]\<close>, from \<open>i\<close>, \<open>n\<close> times.\<close>

fun splitters_loop :: "cint list \<Rightarrow> cint \<Rightarrow> nat \<Rightarrow> nat \<Rightarrow> cint list res" where
  "splitters_loop samples step i 0 = Inr []"
| "splitters_loop samples step i (Suc n) =
     bindR (array_get samples ((of_nat i + 1) * step)) (\<lambda>v.
     bindR (splitters_loop samples step (Suc i) n) (\<lambda>vs. Inr (v # vs)))"

text \<open>An array \<open>int splitters[K]\<close> needs a positive \<open>K\<close>.\<close>

definition pick_splitters :: "cint list \<Rightarrow> cint \<Rightarrow> cint list res" where
  "pick_splitters samples k =
     (if k = 0 then Inl DivByZero
      else if sint k < 0 then Inl OutOfBounds
      else
        bindR (splitters_loop samples (of_int (int SAMPLE_SIZE sdiv sint k)) 0 (nat (sint k - 1)))
          (\<lambda>vs. Inr (vs @ [1000000])))"

subsection \<open>Handlers\<close>

definition ss_handle_BarMsg :: "SampleSortTask \<Rightarrow> BarMsg \<Rightarrow> SampleSortTask" where
  "ss_handle_BarMsg this m = this\<lparr>ss_K := BarMsg_getValue m\<rparr>"

definition ss_handle_RefIntArrayMsg :: "SampleSortTask \<Rightarrow> RefIntArrayMsg \<Rightarrow> SampleSortTask" where
  "ss_handle_RefIntArrayMsg this m =
     this\<lparr>ss_size := RefIntArrayMsg_getSize m, ss_data := ria_values m\<rparr>"

definition handle_SubArrayMsg :: "SampleSortTask \<Rightarrow> RefTwoDimIntArrayMsg \<Rightarrow> SampleSortTask res" where
  "handle_SubArrayMsg this m =
     (let c = sint (buckets_values_arr_count this) in
      if 0 \<le> c \<and> c < int (length (buckets_values_arr this)) then
        Inr (this\<lparr>buckets_values_arr := (buckets_values_arr this)[nat c := m],
                  buckets_values_arr_count := buckets_values_arr_count this + 1\<rparr>)
      else Inl OutOfBounds)"

definition ss_handle_DoneMsg :: "SampleSortTask \<Rightarrow> DoneMsg \<Rightarrow> SampleSortTask" where
  "ss_handle_DoneMsg this m = this"

definition SampleSort_receive ::
  "SampleSortTask \<Rightarrow> message list \<Rightarrow> (SampleSortTask \<times> message list) res option" where
  "SampleSort_receive this ib =
     (case poll_tag ib of
        None \<Rightarrow> None
      | Some t \<Rightarrow> Some
          (if t = SS_BAR_MSG then
             bindR (in_receive ib) (\<lambda>(msg, ib'). bindR (as_bar msg) (\<lambda>m.
               Inr (ss_handle_BarMsg this m, ib')))
           else if t = REF_INTARRAY_MSG then
             bindR (in_receive ib) (\<lambda>(msg, ib'). bindR (as_ref_int_array msg) (\<lambda>m.
               Inr (ss_handle_RefIntArrayMsg this m, ib')))
           else if t = SUB_ARRAT_MSG then
             bindR (in_receive ib) (\<lambda>(msg, ib'). bindR (as_ref_two_dim msg) (\<lambda>m.
             bindR (handle_SubArrayMsg this m) (\<lambda>this'. Inr (this', ib'))))
           else if t = DONE_MSG then
             bindR (in_receive ib) (\<lambda>(msg, ib'). bindR (as_done msg) (\<lambda>m.
               Inr (ss_handle_DoneMsg this m, ib')))
           else if t \<in> {TOPOLOGY_MSG, DATA_REF_MSG, SPLITTER_MSG, GET_SUB_ARRAY_MSG, SET_SUB_ARRAY_MSG}
             then Inr (this, ib)
           else Inr (this, in_dropMsg ib)))"

text \<open>The waiting loops of rounds 2 and 3.\<close>

fun receive_times ::
  "nat \<Rightarrow> SampleSortTask \<Rightarrow> message list \<Rightarrow> (SampleSortTask \<times> message list) res option" where
  "receive_times 0 this ib = Some (Inr (this, ib))"
| "receive_times (Suc n) this ib =
     bindW (SampleSort_receive this ib) (\<lambda>(this', ib'). receive_times n this' ib')"

subsection \<open>The phases of \<open>start\<close>\<close>

text \<open>
  The pre-round: \<open>K\<close>, the data, the size of a slice and the splitters.  The data is the block of
  \<open>size\<close> integers that \<open>this->data\<close> points to.
\<close>

definition SampleSort_prepare ::
  "heap \<Rightarrow> clong list \<Rightarrow> SampleSortTask \<Rightarrow> message list \<Rightarrow>
     (SampleSortTask \<times> message list \<times> cint \<times> cint list) res option" where
  "SampleSort_prepare h rs this0 ib0 =
     bindW (SampleSort_receive this0 ib0) (\<lambda>(this1, ib1).
     bindW (SampleSort_receive this1 ib1) (\<lambda>(this, ib).
       if ss_K this = 0 then Some (Inl DivByZero)
       else
         let size_per_task = of_int (sint (ss_size this) sdiv sint (ss_K this)) in
         bindW (sample_loop (hints h (ss_data this)) (ss_size this) SAMPLE_SIZE rs) (\<lambda>(samples, _).
           Some (bindR (pick_splitters (qsort samplesorttask_cmpfunc samples) (ss_K this)) (\<lambda>sp.
             Inr (this, ib, size_per_task, sp))))))"

text \<open>\<open>buckets[i] = BucketTask_create ()\<close>, \<open>n\<close> times.\<close>

fun create_buckets ::
  "(nat \<Rightarrow> BucketTask option) \<Rightarrow> os \<Rightarrow> bool \<Rightarrow> nat \<Rightarrow> nat \<Rightarrow> mem \<Rightarrow> shm \<Rightarrow> System \<Rightarrow>
     (mem \<times> shm \<times> System \<times> BucketTask list) res" where
  "create_buckets blks e ok i 0 d s Comm = Inr (d, s, Comm, [])"
| "create_buckets blks e ok i (Suc n) d s Comm =
     bindR (BucketTask_create (blks i) e ok d s Comm) (\<lambda>(d1, s1, Comm1, b).
     bindR (create_buckets blks e ok (Suc i) n d1 s1 Comm1) (\<lambda>(d2, s2, Comm2, bs).
       Inr (d2, s2, Comm2, b # bs)))"

text \<open>One message sent to several tasks; sending a topology changes it.\<close>

fun send_each :: "message \<Rightarrow> cint list \<Rightarrow> (cint \<times> message) list" where
  "send_each x [] = []"
| "send_each x (b # bs) = (b, x) # send_each (after_write x) bs"

definition send_topology ::
  "TopologyMsg option \<Rightarrow> SampleSortTask \<Rightarrow> cint \<Rightarrow> cint list \<Rightarrow> (cint \<times> message) list res" where
  "send_topology blk this size_per_task buckets =
     bindR (TopologyMsg_create blk TOPOLOGY_MSG) (\<lambda>m.
     bindR (TopologyMsg_setBucketIds (TopologyMsg_setRootId m (ss_taskID this)) (ss_K this) buckets) (\<lambda>m'.
       Inr (send_each
         (MTopology (m'\<lparr>sample_size := size_per_task, topo_data_size := ss_size this\<rparr>)) buckets)))"

text \<open>The loop that sends the slices, from bucket \<open>ki\<close> and element \<open>current\<close>.\<close>

fun send_slices ::
  "RefIntArrayMsg option \<Rightarrow> SampleSortTask \<Rightarrow> cint \<Rightarrow> nat \<Rightarrow> cint \<Rightarrow> cint list \<Rightarrow>
     (cint \<times> message) list res" where
  "send_slices blk this size_per_task ki current [] = Inr []"
| "send_slices blk this size_per_task ki current (b # bs) =
     bindR (RefIntArrayMsg_create blk DATA_REF_MSG) (\<lambda>m.
     let from = ss_data this + 4 * scast current;
         m' = (if int ki < sint (ss_K this - 1) then RefIntArrayMsg_setValues m size_per_task from
               else RefIntArrayMsg_setValues m (ss_size this - current) from) in
     bindR (send_slices blk this size_per_task (Suc ki) (current + size_per_task) bs) (\<lambda>ms.
       Inr ((b, MRefIntArray m') # ms)))"

definition send_splitters ::
  "IntArrayMsg option \<Rightarrow> SampleSortTask \<Rightarrow> cint list \<Rightarrow> cint list \<Rightarrow> (cint \<times> message) list res" where
  "send_splitters blk this sp buckets =
     bindR (IntArrayMsg_create blk SPLITTER_MSG) (\<lambda>m.
     bindR (IntArrayMsg_setValues m (ss_K this) sp) (\<lambda>m'. Inr (send_each (MIntArray m') buckets)))"

definition send_commands :: "DoneMsg option \<Rightarrow> cint list \<Rightarrow> (cint \<times> message) list res" where
  "send_commands blk buckets =
     bindR (DoneMsg_create blk GET_SUB_ARRAY_MSG) (\<lambda>m.
       Inr (send_each (MDone (m\<lparr>success := 1\<rparr>)) buckets))"

text \<open>
  Round 1 and the start of round 2.  \<open>arr\<close> is the block that \<open>malloc\<close> returned for the messages of
  the buckets.
\<close>

record root_blks =
  b_topology :: "TopologyMsg option"
  b_slice :: "RefIntArrayMsg option"
  b_splitters :: "IntArrayMsg option"
  b_command :: "DoneMsg option"
  b_regroup :: "RefTwoDimIntArrayMsg option"

definition SampleSort_round_1 ::
  "root_blks \<Rightarrow> SampleSortTask \<Rightarrow> cint \<Rightarrow> cint list \<Rightarrow> cint list \<Rightarrow> RefTwoDimIntArrayMsg list \<Rightarrow>
     (SampleSortTask \<times> (cint \<times> message) list) res" where
  "SampleSort_round_1 bl this size_per_task sp buckets arr =
     bindR (send_topology (b_topology bl) this size_per_task buckets) (\<lambda>m1.
     bindR (send_slices (b_slice bl) this size_per_task 0 0 buckets) (\<lambda>m2.
     bindR (send_splitters (b_splitters bl) this sp buckets) (\<lambda>m3.
     bindR (send_commands (b_command bl) buckets) (\<lambda>m4.
       Inr (this\<lparr>buckets_values_arr := arr, buckets_values_arr_count := 0\<rparr>, m1 @ m2 @ m3 @ m4)))))"

text \<open>
  Round 3: the counts and the references for bucket \<open>ki\<close>, from the messages \<open>kj\<close> onwards.
\<close>

fun regroup_loop ::
  "heap \<Rightarrow> RefTwoDimIntArrayMsg list \<Rightarrow> nat \<Rightarrow> (cint \<times> ptr) list res" where
  "regroup_loop h [] ki = Inr []"
| "regroup_loop h (m # ms) ki =
     bindR (array_get (hints h (rtd_counts m)) (of_nat ki)) (\<lambda>c.
     bindR (array_get (hptrs h (rtd_values m)) (of_nat ki)) (\<lambda>v.
     bindR (regroup_loop h ms ki) (\<lambda>cvs. Inr ((c, v) # cvs))))"

text \<open>One iteration: \<open>pc\<close> and \<open>pv\<close> are the blocks for the two arrays.\<close>

definition regroup ::
  "RefTwoDimIntArrayMsg option \<Rightarrow> SampleSortTask \<Rightarrow> heap \<Rightarrow> nat \<Rightarrow> ptr \<times> ptr \<Rightarrow>
     (heap \<times> RefTwoDimIntArrayMsg) res" where
  "regroup blk this h ki bl =
     bindR (RefTwoDimIntArrayMsg_create blk SET_SUB_ARRAY_MSG) (\<lambda>m.
     bindR (copy_elems (buckets_values_arr this) (sint (ss_K this))) (\<lambda>arr.
     bindR (regroup_loop h arr ki) (\<lambda>cvs.
       Inr (h\<lparr>hints := (hints h)(fst bl := map fst cvs), hptrs := (hptrs h)(snd bl := map snd cvs)\<rparr>,
            m\<lparr>rtd_size := ss_K this, rtd_counts := fst bl, rtd_values := snd bl\<rparr>))))"

fun SampleSort_round_3 ::
  "RefTwoDimIntArrayMsg option \<Rightarrow> (nat \<Rightarrow> ptr \<times> ptr) \<Rightarrow> SampleSortTask \<Rightarrow> heap \<Rightarrow> nat \<Rightarrow> cint list \<Rightarrow>
     (heap \<times> (cint \<times> message) list) res" where
  "SampleSort_round_3 blk bls this h ki [] = Inr (h, [])"
| "SampleSort_round_3 blk bls this h ki (b # bs) =
     bindR (regroup blk this h ki (bls ki)) (\<lambda>(h1, m).
     bindR (SampleSort_round_3 blk bls this h1 (Suc ki) bs) (\<lambda>(h2, ms).
       Inr (h2, (b, MRefTwoDim m) # ms)))"

section \<open>Random numbers\<close>

lemma random_loop_None: "random_loop b rs = None \<longleftrightarrow> (\<forall>x \<in> set rs. b \<le> x)"
  by (induction b rs rule: random_loop.induct) auto

lemma random_loop_Some: "random_loop b rs = Some (x, rs') \<Longrightarrow> x < b"
  by (induction b rs rule: random_loop.induct) (auto split: if_splits)

lemma of_nat_unatI: "unat (w :: clong) = k \<Longrightarrow> w = of_nat k"
  by auto

text \<open>The first value of \<open>random\<close> that is not used.\<close>

definition accept_below :: "nat \<Rightarrow> nat" where
  "accept_below n = n * (2 ^ 31 div n)"

lemma random_at_most_eq:
  assumes "unat mx \<le> RAND_MAX"
  shows "random_at_most mx rs = map_option (\<lambda>(x, rs'). Inr (x div of_nat (2 ^ 31 div Suc (unat mx)), rs'))
     (random_loop (of_nat (accept_below (Suc (unat mx)))) rs)"
proof -
  let ?n = "Suc (unat mx)" and ?R = "of_nat RAND_MAX + 1 :: clong"
  have n: "unat (mx + 1) = ?n"
    using assms unat_add_lem [of mx 1] by (simp add: RAND_MAX_def)
  have R: "unat ?R = 2 ^ 31"
    by (simp add: RAND_MAX_def)
  have le: "?n \<le> 2 ^ 31"
    using assms by (simp add: RAND_MAX_def)
  have nz: "mx + 1 \<noteq> 0" using n by auto
  have bin: "?R div (mx + 1) = of_nat (2 ^ 31 div ?n)"
    by (rule of_nat_unatI) (simp only: unat_div n R)
  have bin0: "?R div (mx + 1) \<noteq> 0"
  proof -
    have "unat (?R div (mx + 1)) = 2 ^ 31 div ?n" by (simp only: unat_div n R)
    moreover have "2 ^ 31 div ?n \<noteq> 0" using le by (simp add: div_eq_0_iff del: Suc_le_eq)
    ultimately show ?thesis by (metis unat_0)
  qed
  have "?R mod (mx + 1) \<le> ?R"
    by (simp add: word_le_nat_alt unat_mod)
  then have "unat (?R - ?R mod (mx + 1)) = accept_below ?n"
    by (simp only: unat_sub unat_mod n R) (simp only: minus_mod_eq_mult_div accept_below_def)
  then have bound: "?R - ?R mod (mx + 1) = of_nat (accept_below ?n)"
    by (rule of_nat_unatI)
  show ?thesis
    unfolding random_at_most_def Let_def bound
    using nz bin0 bin by (auto split: option.split)
qed

lemma accept_below_bounds:
  assumes "0 < n" "n \<le> 2 ^ 31"
  shows "n \<le> accept_below n" "accept_below n \<le> 2 ^ 31" "2 ^ 31 < 2 * accept_below n"
proof -
  let ?N = "2 ^ 31 :: nat"
  have q: "0 < ?N div n"
    using assms by (simp add: div_greater_zero_iff)
  then show n: "n \<le> accept_below n"
    by (simp add: accept_below_def)
  show "accept_below n \<le> 2 ^ 31"
    by (simp add: accept_below_def)
  have "accept_below n + ?N mod n = ?N"
    by (simp add: accept_below_def)
  moreover have "?N mod n < n"
    using assms(1) by simp
  ultimately show "2 ^ 31 < 2 * accept_below n"
    using n by linarith
qed

lemma less_accept:
  assumes "0 < n" "n \<le> 2 ^ 31"
  shows "(x :: clong) < of_nat (accept_below n) \<longleftrightarrow> unat x < accept_below n"
  using accept_below_bounds(2) [OF assms] by (simp add: word_less_nat_alt unat_of_nat)

lemma bin_index:
  assumes "0 < n" "n \<le> 2 ^ 31"
  shows "unat (x div of_nat (2 ^ 31 div n) :: clong) = unat x div (2 ^ 31 div n)"
proof -
  have "2 ^ 31 div n < 2 ^ 64"
    by (rule le_less_trans [OF div_le_dividend]) simp
  then have "unat (of_nat (2 ^ 31 div n) :: clong) = 2 ^ 31 div n"
    by (simp add: unat_of_nat)
  then show ?thesis by (simp only: unat_div)
qed

lemma div_bin_less:
  assumes "x < accept_below n"
  shows "x div (2 ^ 31 div n) < n"
  using assms by (simp add: accept_below_def less_mult_imp_div_less)

lemma random_draw:
  assumes "unat mx \<le> RAND_MAX"
  shows "random_at_most mx (x # rs) =
     (if unat x < accept_below (Suc (unat mx)) then Some (Inr (x div of_nat (2 ^ 31 div Suc (unat mx)), rs))
      else random_at_most mx rs)"
  using assms less_accept [of "Suc (unat mx)" x]
  by (simp add: random_at_most_eq RAND_MAX_def not_less [symmetric])

section \<open>Sampling\<close>

lemma last_index:
  assumes "0 < n" "n < 2 ^ 31"
  shows "unat (scast (of_nat n - 1 :: cint) :: clong) = n - 1"
proof -
  have "of_nat n - 1 = (of_nat (n - 1) :: cint)"
    using assms(1) by (cases n) simp_all
  then have "sint (of_nat n - 1 :: cint) = int (n - 1)"
    using assms sint_of_nat [of "n - 1"] by simp
  then have "(scast (of_nat n - 1 :: cint) :: clong) = of_nat (n - 1)"
    by (simp only: scast_eq) simp
  then have "unat (scast (of_nat n - 1 :: cint) :: clong) = unat (of_nat (n - 1) :: clong)"
    by (rule arg_cong)
  also have "\<dots> = n - 1"
    using assms(2) by (simp only: unat_of_nat) simp
  finally show ?thesis .
qed

text \<open>Enough values of \<open>random\<close> for \<open>n\<close> samples.\<close>

definition enough_random :: "nat \<Rightarrow> nat \<Rightarrow> clong list \<Rightarrow> bool" where
  "enough_random n m rs \<longleftrightarrow> m \<le> length (filter (\<lambda>x. unat x < accept_below n) rs)"

lemma random_accepts:
  assumes mx: "unat mx \<le> RAND_MAX" and rs: "enough_random (Suc (unat mx)) (Suc m) rs"
  shows "\<exists>v rs'. random_at_most mx rs = Some (Inr (v, rs')) \<and> unat v \<le> unat mx \<and>
     enough_random (Suc (unat mx)) m rs'"
  using rs
proof (induction rs)
  case (Cons x rs)
  let ?n = "Suc (unat mx)"
  show ?case
  proof (cases "unat x < accept_below ?n")
    case True
    have "unat (x div of_nat (2 ^ 31 div ?n)) < ?n"
      using bin_index [of ?n x] mx div_bin_less [OF True] by (simp add: RAND_MAX_def)
    with True Cons.prems show ?thesis
      by (simp add: random_draw [OF mx] enough_random_def)
  next
    case False
    with Cons show ?thesis
      by (simp add: random_draw [OF mx] enough_random_def)
  qed
qed (simp add: enough_random_def)

lemma sample_loop_ok:
  assumes "data \<noteq> []" "length data < 2 ^ 31" "enough_random (length data) m rs"
  shows "\<exists>vs rs'. sample_loop data (of_nat (length data)) m rs = Some (Inr (vs, rs')) \<and>
     length vs = m \<and> set vs \<subseteq> set data"
  using assms(3)
proof (induction m arbitrary: rs)
  case (Suc m)
  let ?mx = "scast (of_nat (length data) - 1 :: cint) :: clong"
  have mx: "unat ?mx = length data - 1"
    using last_index assms(1,2) by simp
  then have n: "Suc (unat ?mx) = length data"
    using assms(1) by (cases data) simp_all
  have "unat ?mx \<le> RAND_MAX"
    using mx assms(2) by (simp add: RAND_MAX_def)
  from random_accepts [OF this, of m rs] Suc.prems n obtain v rs' where
    v: "random_at_most ?mx rs = Some (Inr (v, rs'))" "unat v \<le> unat ?mx" "enough_random (length data) m rs'"
    by auto
  then have lt: "unat v < length data" using n by simp
  from Suc.IH [OF v(3)] obtain vs rs'' where
    "sample_loop data (of_nat (length data)) m rs' = Some (Inr (vs, rs''))" "length vs = m" "set vs \<subseteq> set data"
    by auto
  with v(1) lt show ?case by simp
qed simp

lemma splitters_loop_ok:
  assumes "\<And>j. j < i + n \<Longrightarrow> Suc j * step < length samples" "length samples < 2 ^ 31"
  shows "\<exists>vs. splitters_loop samples (of_nat step) i n = Inr vs \<and> length vs = n"
  using assms(1)
proof (induction n arbitrary: i)
  case (Suc n)
  from Suc.prems [of i] have i: "Suc i * step < length samples" by simp
  have "(of_nat i + 1) * of_nat step = (of_nat (Suc i * step) :: cint)"
    by (simp add: algebra_simps)
  then have "array_get samples ((of_nat i + 1) * of_nat step) = Inr (samples ! (Suc i * step))"
    using array_get_nth [OF i] i assms(2) by simp
  moreover obtain vs where "splitters_loop samples (of_nat step) (Suc i) n = Inr vs" "length vs = n"
    using Suc.IH [of "Suc i"] Suc.prems by auto
  ultimately show ?case by simp
qed simp

lemma pick_splitters_ok:
  assumes "0 < k" "k < 2 ^ 31" "length samples = SAMPLE_SIZE"
  shows "\<exists>sp. pick_splitters samples (of_nat k) = Inr sp \<and> length sp = k"
proof -
  have k: "sint (of_nat k :: cint) = int k" "nat (sint (of_nat k :: cint) - 1) = k - 1"
    using assms by (simp_all add: sint_of_nat nat_diff_distrib)
  have "(of_nat k :: cint) \<noteq> 0"
  proof
    assume z: "(of_nat k :: cint) = 0"
    from k(1) assms(1) show False unfolding z by simp
  qed
  moreover have "int SAMPLE_SIZE sdiv int k = int (SAMPLE_SIZE div k)"
    using assms(1) by (simp add: signed_divide_int_def zdiv_int SAMPLE_SIZE_def)
  moreover obtain vs where "splitters_loop samples (of_nat (SAMPLE_SIZE div k)) 0 (k - 1) = Inr vs" "length vs = k - 1"
  proof -
    have "Suc j * (SAMPLE_SIZE div k) < length samples" if "j < 0 + (k - 1)" for j
    proof (cases "SAMPLE_SIZE div k = 0")
      case False
      have "Suc j * (SAMPLE_SIZE div k) < k * (SAMPLE_SIZE div k)"
        using that False mult_less_mono1 [of "Suc j" k "SAMPLE_SIZE div k"] by simp
      also have "\<dots> \<le> SAMPLE_SIZE" by simp
      finally show ?thesis using assms(3) by simp
    qed (simp add: assms(3) SAMPLE_SIZE_def)
    from splitters_loop_ok [of 0 "k - 1", OF this] assms(3) that show ?thesis
      by (auto simp: SAMPLE_SIZE_def)
  qed
  ultimately show ?thesis
    using assms(1) k by (simp add: pick_splitters_def)
qed

text \<open>The messages that start the task.\<close>

definition start_inbox :: "heap \<Rightarrow> BarMsg \<Rightarrow> RefIntArrayMsg \<Rightarrow> nat \<Rightarrow> cint list \<Rightarrow> bool" where
  "start_inbox h b d k data \<longleftrightarrow>
     tag b = SS_BAR_MSG \<and> bar_value b = of_nat k \<and> 0 < k \<and> k < 2 ^ 31 \<and>
     tag d = REF_INTARRAY_MSG \<and> ria_size d = of_nat (length data) \<and> hints h (ria_values d) = data \<and>
     data \<noteq> [] \<and> length data < 2 ^ 31"

lemmas ss_receive_defs = SampleSort_receive_def poll_tag_def in_getMsgTag_def in_receive_def

lemma of_nat_cint_nonzero: "0 < k \<Longrightarrow> k < 2 ^ 31 \<Longrightarrow> (of_nat k :: cint) \<noteq> 0"
  using sint_of_nat [of k] by auto

lemma prepare_ok:
  assumes inbox: "start_inbox h b d k data" and rs: "enough_random (length data) SAMPLE_SIZE rs"
  shows "\<exists>sp. SampleSort_prepare h rs this (MBar b # MRefIntArray d # ib) =
     Some (Inr (this\<lparr>ss_K := of_nat k, ss_size := of_nat (length data), ss_data := ria_values d\<rparr>, ib,
       of_nat (length data div k), sp)) \<and> length sp = k"
proof -
  from inbox have k: "0 < k" "k < 2 ^ 31" "data \<noteq> []" "length data < 2 ^ 31"
    by (auto simp: start_inbox_def)
  have r1: "SampleSort_receive this (MBar b # MRefIntArray d # ib) =
      Some (Inr (this\<lparr>ss_K := of_nat k\<rparr>, MRefIntArray d # ib))"
    using inbox by (simp add: start_inbox_def ss_receive_defs as_bar_def ss_handle_BarMsg_def
        BarMsg_getValue_def ss_tags Message.truncate_def)
  have r2: "SampleSort_receive t (MRefIntArray d # ib) =
      Some (Inr (t\<lparr>ss_size := of_nat (length data), ss_data := ria_values d\<rparr>, ib))" for t
    using inbox by (simp add: start_inbox_def ss_receive_defs as_ref_int_array_def
        ss_handle_RefIntArrayMsg_def RefIntArrayMsg_getSize_def ss_tags Message.truncate_def)
  obtain vs rs' where vs: "sample_loop data (of_nat (length data)) SAMPLE_SIZE rs = Some (Inr (vs, rs'))"
    "length vs = SAMPLE_SIZE"
    using sample_loop_ok [OF k(3,4) rs] by auto
  obtain sp where sp: "pick_splitters (qsort samplesorttask_cmpfunc vs) (of_nat k) = Inr sp" "length sp = k"
    using pick_splitters_ok [OF k(1,2), of "qsort samplesorttask_cmpfunc vs"] vs(2) by auto
  have div: "sint (of_nat (length data) :: cint) sdiv sint (of_nat k :: cint) = int (length data div k)"
    using k by (simp add: sint_of_nat signed_divide_int_def zdiv_int)
  have data: "hints h (ria_values d) = data"
    using inbox by (simp add: start_inbox_def)
  show ?thesis
    unfolding SampleSort_prepare_def r1 bindW_simps prod.case r2
    using of_nat_cint_nonzero [OF k(1,2)] vs(1) sp by (simp add: data Let_def div)
qed

section \<open>Round 1\<close>

text \<open>The slices: equal shares, the last bucket gets the rest too.\<close>

definition slice :: "nat \<Rightarrow> cint list \<Rightarrow> nat \<Rightarrow> cint list" where
  "slice k xs i =
     (let n = length xs div k in if Suc i < k then take n (drop (i * n) xs) else drop (i * n) xs)"

lemma take_slices: "concat (map (\<lambda>i. take n (drop (i * n) xs)) [0..<m]) = take (m * n) xs"
proof (induction m)
  case (Suc m)
  then show ?case
    using take_add [of "m * n" n xs] by (simp add: add.commute)
qed simp

lemma concat_slices:
  assumes "0 < k"
  shows "concat (map (slice k xs) [0..<k]) = xs"
proof -
  obtain m where k: "k = Suc m" using assms by (cases k) simp_all
  let ?n = "length xs div k"
  have "map (slice k xs) [0..<m] = map (\<lambda>i. take ?n (drop (i * ?n) xs)) [0..<m]"
    by (rule map_cong) (simp_all add: slice_def Let_def k)
  then have "concat (map (slice k xs) [0..<m]) = take (m * ?n) xs"
    by (simp only: take_slices)
  moreover have "slice k xs m = drop (m * ?n) xs"
    by (simp add: slice_def Let_def k)
  moreover have "[0..<k] = [0..<m] @ [m]"
    by (simp add: k)
  ultimately show ?thesis by simp
qed

lemma send_each_zip:
  "send_each x bs = zip bs (map (\<lambda>i. (after_write ^^ i) x) [0..<length bs])"
proof (induction bs arbitrary: x)
  case (Cons b bs)
  have "[0..<length (b # bs)] = 0 # map Suc [0..<length bs]"
    by (simp add: upt_conv_Cons map_Suc_upt del: upt_Suc)
  with Cons show ?case
    by (simp add: o_def funpow_swap1 del: upt_Suc)
qed simp

text \<open>The reference to slice \<open>i\<close>.\<close>

definition slice_msg :: "RefIntArrayMsg \<Rightarrow> ptr \<Rightarrow> nat \<Rightarrow> cint list \<Rightarrow> nat \<Rightarrow> RefIntArrayMsg" where
  "slice_msg blk p k xs i =
     blk\<lparr>tag := DATA_REF_MSG, tid := class_id RefIntArrayC, msg_size := of_nat (sizeof RefIntArrayMsg_struct),
         methods := Some RefIntArrayC, ria_size := of_nat (length (slice k xs i)),
         ria_values := p + 4 * of_nat (i * (length xs div k))\<rparr>"

lemma length_slice:
  assumes "i < k"
  shows "length (slice k xs i) =
      (if Suc i < k then length xs div k else length xs - i * (length xs div k))"
    "i * (length xs div k) + length (slice k xs i) \<le> length xs"
proof -
  have "Suc i * (length xs div k) \<le> k * (length xs div k)"
    using assms by (intro mult_le_mono1) simp
  also have "\<dots> \<le> length xs" by simp
  finally have le: "Suc i * (length xs div k) \<le> length xs" .
  then show "length (slice k xs i) =
      (if Suc i < k then length xs div k else length xs - i * (length xs div k))"
    by (simp add: slice_def Let_def)
  with le show "i * (length xs div k) + length (slice k xs i) \<le> length xs"
    by auto
qed

lemma scast_of_nat: "n < 2 ^ 31 \<Longrightarrow> (scast (of_nat n :: cint) :: clong) = of_nat n"
  by (simp only: scast_eq sint_of_nat) simp

lemma sint_of_nat_minus: "0 < k \<Longrightarrow> k < 2 ^ 31 \<Longrightarrow> sint (of_nat k - 1 :: cint) = int k - 1"
  using sint_of_nat [of "k - 1"] by (simp add: of_nat_diff)

lemma send_slices_ok:
  assumes th: "ss_K this = of_nat k" "ss_size this = of_nat (length xs)" "0 < k" "k < 2 ^ 31" "length xs < 2 ^ 31"
    and "ki + length bs = k"
  shows "send_slices (Some blk) this (of_nat (length xs div k)) ki (of_nat (ki * (length xs div k))) bs =
     Inr (zip bs (map (\<lambda>i. MRefIntArray (slice_msg blk (ss_data this) k xs i)) [ki..<ki + length bs]))"
  using assms(6)
proof (induction bs arbitrary: ki)
  case (Cons b bs)
  let ?n = "length xs div k"
  have ki: "ki < k" using Cons.prems by simp
  have cur: "ki * ?n < 2 ^ 31"
    using length_slice(2) [OF ki, of xs] th(5) by linarith
  have next_cur: "of_nat (ki * ?n) + of_nat ?n = (of_nat (Suc ki * ?n) :: cint)"
    by (simp only: of_nat_add [symmetric]) (simp add: add.commute)
  have rest: "of_nat (length xs) - of_nat (ki * ?n) = (of_nat (length xs - ki * ?n) :: cint)"
    using length_slice(2) [OF ki, of xs] by (simp only: of_nat_diff)
  have last: "int ki < sint (of_nat k - 1 :: cint) \<longleftrightarrow> Suc ki < k"
    using sint_of_nat_minus [OF th(3,4)] by auto
  have IH: "send_slices (Some blk) this (of_nat ?n) (Suc ki) (of_nat (Suc ki * ?n)) bs =
      Inr (zip bs (map (\<lambda>i. MRefIntArray (slice_msg blk (ss_data this) k xs i)) [Suc ki..<Suc ki + length bs]))"
    using Cons.prems by (intro Cons.IH) simp
  show ?case
    unfolding length_Cons upt_front
    using length_slice(1) [OF ki, of xs]
    by (simp only: send_slices.simps next_cur IH Let_def th(1,2) last)
      (simp add: RefIntArrayMsg_create_def RefIntArrayMsg_setValues_def slice_msg_def scast_of_nat [OF cur] rest del: of_nat_mult)
qed simp

lemma after_write_topology: "\<exists>n. (after_write ^^ i) (MTopology x) = MTopology (x\<lparr>msg_size := n\<rparr>)"
proof (induction i)
  case 0
  have "x = x\<lparr>msg_size := msg_size x\<rparr>" by simp
  then show ?case by (metis funpow_0)
next
  case (Suc i)
  then obtain n where "(after_write ^^ i) (MTopology x) = MTopology (x\<lparr>msg_size := n\<rparr>)" by blast
  then show ?case by (auto intro!: exI)
qed

lemma after_write_same:
  "(after_write ^^ i) (MIntArray x) = MIntArray x" "(after_write ^^ i) (MDone y) = MDone y"
  by (induction i) simp_all

definition some_blks :: "root_blks \<Rightarrow> bool" where
  "some_blks bl \<longleftrightarrow> b_topology bl \<noteq> None \<and> b_slice bl \<noteq> None \<and> b_splitters bl \<noteq> None \<and>
     b_command bl \<noteq> None \<and> b_regroup bl \<noteq> None"

text \<open>The four messages of bucket \<open>i\<close>.\<close>

definition gets_round_1 ::
  "SampleSortTask \<Rightarrow> nat \<Rightarrow> cint list \<Rightarrow> cint list \<Rightarrow> nat \<Rightarrow> message list \<Rightarrow> bool" where
  "gets_round_1 this k xs sp i ms \<longleftrightarrow>
     (\<exists>t d s g. ms = [MTopology t, MRefIntArray d, MIntArray s, MDone g] \<and> round_1_inbox t d s g \<and>
        root_id t = ss_taskID this \<and> length (bucket_ids t) = k \<and> ia_values s = sp \<and>
        ria_size d = of_nat (length (slice k xs i)) \<and>
        ria_values d = ss_data this + 4 * of_nat (i * (length xs div k)))"

lemma round_1_ok:
  assumes blks: "some_blks bl"
    and th: "ss_K this = of_nat k" "ss_size this = of_nat (length xs)" "0 < k" "k < 2 ^ 31" "length xs < 2 ^ 31"
    and sp: "length sp = k" and bs: "length bs = k" "distinct bs"
  shows "\<exists>outs. SampleSort_round_1 bl this (of_nat (length xs div k)) sp bs arr =
       Inr (this\<lparr>buckets_values_arr := arr, buckets_values_arr_count := 0\<rparr>, outs) \<and>
     (\<forall>i < k. gets_round_1 this k xs sp i (messages_for (bs ! i) outs))"
proof -
  let ?n = "of_nat (length xs div k) :: cint"
  have K: "sint (ss_K this) = int k"
    using th(1,4) by (simp add: sint_of_nat)
  from blks obtain bt bd bi bc where bl: "b_topology bl = Some bt" "b_slice bl = Some bd"
    "b_splitters bl = Some bi" "b_command bl = Some bc" by (auto simp: some_blks_def)
  obtain t where t: "send_topology (b_topology bl) this ?n bs = Inr (send_each (MTopology t) bs)"
    "tag t = TOPOLOGY_MSG" "root_id t = ss_taskID this" "bucket_ids t = bs" "bucket_count t = of_nat k"
    using K bs(1) th(1)
    by (simp add: send_topology_def bl TopologyMsg_create_def TopologyMsg_setBucketIds_def TopologyMsg_setRootId_def
        copy_elems_def)
  have d: "send_slices (b_slice bl) this ?n 0 0 bs =
      Inr (zip bs (map (\<lambda>i. MRefIntArray (slice_msg bd (ss_data this) k xs i)) [0..<k]))"
    using send_slices_ok [OF th, of 0 bs bd] bs(1) bl by simp
  obtain s where s: "send_splitters (b_splitters bl) this sp bs = Inr (send_each (MIntArray s) bs)"
    "tag s = SPLITTER_MSG" "ia_values s = sp" "ia_size s = of_nat k"
    using K sp th(1) by (simp add: send_splitters_def bl IntArrayMsg_create_def IntArrayMsg_setValues_def copy_elems_def)
  obtain g where g: "send_commands (b_command bl) bs = Inr (send_each (MDone g) bs)"
    "tag g = GET_SUB_ARRAY_MSG"
    by (simp add: send_commands_def bl DoneMsg_create_def)
  let ?outs = "send_each (MTopology t) bs @ zip bs (map (\<lambda>i. MRefIntArray (slice_msg bd (ss_data this) k xs i)) [0..<k]) @
      send_each (MIntArray s) bs @ send_each (MDone g) bs"
  have "gets_round_1 this k xs sp i (messages_for (bs ! i) ?outs)" if i: "i < k" for i
  proof -
    obtain n where n: "(after_write ^^ i) (MTopology t) = MTopology (t\<lparr>msg_size := n\<rparr>)"
      using after_write_topology by blast
    have "messages_for (bs ! i) ?outs = [MTopology (t\<lparr>msg_size := n\<rparr>), MRefIntArray (slice_msg bd (ss_data this) k xs i),
        MIntArray s, MDone g]"
      using i bs by (simp add: messages_for_append send_each_zip messages_for_zip n after_write_same)
    moreover have "round_1_inbox (t\<lparr>msg_size := n\<rparr>) (slice_msg bd (ss_data this) k xs i) s g"
      using t s g bs sp th(3,4) by (auto simp: round_1_inbox_def slice_msg_def)
    ultimately show ?thesis
      using t s bs(1) unfolding gets_round_1_def by (auto simp: slice_msg_def)
  qed
  then show ?thesis
    by (simp add: SampleSort_round_1_def t(1) d s(1) g(1))
qed

section \<open>Root and buckets together\<close>

text \<open>
  What \<open>malloc\<close> returns and the clocks show in a run: the blocks of the messages of the root and of
  the buckets, the array for the messages of the buckets, the blocks of bucket \<open>i\<close>, the blocks that
  the root uses for bucket \<open>i\<close> in round 3 and the clock readings of bucket \<open>i\<close>.
\<close>

record sort_env =
  e_root :: root_blks
  e_arr :: "RefTwoDimIntArrayMsg list"
  e_two_dim :: "RefTwoDimIntArrayMsg option"
  e_done :: "DoneMsg option"
  e_blocks :: "nat \<Rightarrow> blocks2"
  e_regroup :: "nat \<Rightarrow> ptr \<times> ptr"
  e_clk :: "nat \<Rightarrow> nat \<Rightarrow> bucket_clk"

text \<open>
  The first two rounds of the buckets \<open>is\<close>, in this order; \<open>bs\<close> are the identifiers of all buckets
  and \<open>outs\<close> the messages of the root.  The result has the messages sent to the root.
\<close>

fun buckets_round_2 ::
  "sort_env \<Rightarrow> cint list \<Rightarrow> (cint \<times> message) list \<Rightarrow> nat list \<Rightarrow> heap \<Rightarrow> (nat \<Rightarrow> BucketTask) \<Rightarrow>
     (heap \<times> (nat \<Rightarrow> BucketTask) \<times> (cint \<times> message) list) res option" where
  "buckets_round_2 env bs outs [] h tasks = Some (Inr (h, tasks, []))"
| "buckets_round_2 env bs outs (i # is) h tasks =
     bindW (Bucket_rounds_1_2 (e_two_dim env) (e_blocks env i) (e_clk env i) h (tasks i)
              (messages_for (bs ! i) outs)) (\<lambda>(h1, t, _, dst, m).
     bindW (buckets_round_2 env bs outs is h1 (tasks(i := t))) (\<lambda>(h2, tasks', ms).
       Some (Inr (h2, tasks', (dst, m) # ms))))"

text \<open>The last round of the buckets \<open>is\<close>: their final arrays and the messages to the root.\<close>

fun buckets_round_3 ::
  "sort_env \<Rightarrow> cint list \<Rightarrow> (cint \<times> message) list \<Rightarrow> nat list \<Rightarrow> heap \<Rightarrow> (nat \<Rightarrow> BucketTask) \<Rightarrow>
     (cint list list \<times> (cint \<times> message) list) res option" where
  "buckets_round_3 env bs outs [] h tasks = Some (Inr ([], []))"
| "buckets_round_3 env bs outs (i # is) h tasks =
     bindW (Bucket_round_3 (e_done env) (e_clk env i 4) h (tasks i) (messages_for (bs ! i) outs))
       (\<lambda>(t, _, dst, m).
     bindW (buckets_round_3 env bs outs is h tasks) (\<lambda>(vss, ms).
       Some (Inr (final_data_values t # vss, (dst, m) # ms))))"

text \<open>
  A whole run, where \<open>ord\<close> is the order in which the buckets reach the root in round 2: the root
  afterwards, the rest of its inbox, and the final arrays of the buckets.
\<close>

definition sample_sort_run ::
  "sort_env \<Rightarrow> heap \<Rightarrow> clong list \<Rightarrow> SampleSortTask \<Rightarrow> message list \<Rightarrow> cint list \<Rightarrow>
     (nat \<Rightarrow> BucketTask) \<Rightarrow> nat list \<Rightarrow> (SampleSortTask \<times> message list \<times> cint list list) res option" where
  "sample_sort_run env h rs root ib bs tasks ord =
     bindW (SampleSort_prepare h rs root ib) (\<lambda>(root1, ib1, n, sp).
     bindW (Some (SampleSort_round_1 (e_root env) root1 n sp bs (e_arr env))) (\<lambda>(root2, outs).
     bindW (buckets_round_2 env bs outs ord h tasks) (\<lambda>(h1, tasks1, up2).
     bindW (receive_times (length bs) root2 (ib1 @ messages_for (ss_taskID root2) up2)) (\<lambda>(root3, ib3).
     bindW (Some (SampleSort_round_3 (b_regroup (e_root env)) (e_regroup env) root3 h1 0 bs)) (\<lambda>(h2, outs3).
     bindW (buckets_round_3 env bs outs3 [0..<length bs] h2 tasks1) (\<lambda>(finals, up3).
     bindW (receive_times (length bs) root3 (ib3 @ messages_for (ss_taskID root3) up3)) (\<lambda>(root4, ib4).
       Some (Inr (root4, ib4, finals)))))))))"

text \<open>
  Blocks that do not overlap: \<open>owned i\<close> are the integer blocks of bucket \<open>i\<close>, \<open>p\<close> points to the data
  \<open>xs\<close>.
\<close>

definition owned :: "sort_env \<Rightarrow> nat \<Rightarrow> ptr set" where
  "owned env i = set (p_counts (e_blocks env i) # p_values (e_blocks env i))"

definition slice_ptr :: "ptr \<Rightarrow> nat \<Rightarrow> cint list \<Rightarrow> nat \<Rightarrow> ptr" where
  "slice_ptr p k xs i = p + 4 * of_nat (i * (length xs div k))"

definition disjoint_blocks :: "sort_env \<Rightarrow> nat \<Rightarrow> ptr \<Rightarrow> cint list \<Rightarrow> bool" where
  "disjoint_blocks env k p xs \<longleftrightarrow>
     (\<forall>i < k. length (p_values (e_blocks env i)) = k \<and>
        distinct (p_counts (e_blocks env i) # p_values (e_blocks env i)) \<and>
        (\<forall>j < k. slice_ptr p k xs j \<notin> owned env i \<and> fst (e_regroup env j) \<notin> owned env i \<and>
           snd (e_regroup env j) \<noteq> p_rows (e_blocks env i) \<and>
           (j \<noteq> i \<longrightarrow> owned env i \<inter> owned env j = {} \<and> p_rows (e_blocks env i) \<noteq> p_rows (e_blocks env j) \<and>
              fst (e_regroup env i) \<noteq> fst (e_regroup env j) \<and> snd (e_regroup env i) \<noteq> snd (e_regroup env j))))"

lemma disjointD:
  assumes "disjoint_blocks env k p xs" "i < k" "j < k"
  shows "length (p_values (e_blocks env i)) = k"
    "slice_ptr p k xs j \<notin> owned env i" "fst (e_regroup env j) \<notin> owned env i"
    "snd (e_regroup env j) \<noteq> p_rows (e_blocks env i)"
    "j \<noteq> i \<Longrightarrow> fst (e_regroup env i) \<noteq> fst (e_regroup env j)"
    "j \<noteq> i \<Longrightarrow> snd (e_regroup env i) \<noteq> snd (e_regroup env j)"
  using assms unfolding disjoint_blocks_def by blast+

text \<open>The parts of slice \<open>i\<close> are in the blocks of bucket \<open>i\<close>.\<close>

definition delivered :: "sort_env \<Rightarrow> nat \<Rightarrow> cint list \<Rightarrow> cint list \<Rightarrow> heap \<Rightarrow> nat \<Rightarrow> bool" where
  "delivered env k xs sp h i \<longleftrightarrow>
     hints h (p_counts (e_blocks env i)) = map (\<lambda>j. of_nat (length (part sp (slice k xs i) j))) [0..<k] \<and>
     hptrs h (p_rows (e_blocks env i)) = p_values (e_blocks env i) \<and>
     (\<forall>j < k. hints h (p_values (e_blocks env i) ! j) = part sp (slice k xs i) j)"

definition reports :: "sort_env \<Rightarrow> cint \<Rightarrow> nat \<Rightarrow> cint \<times> message \<Rightarrow> bool" where
  "reports env root i x \<longleftrightarrow>
     fst x = root \<and> (\<exists>m. snd x = MRefTwoDim m \<and> tag m = SUB_ARRAT_MSG \<and>
       rtd_counts m = p_counts (e_blocks env i) \<and> rtd_values m = p_rows (e_blocks env i))"

lemma delivered_frame:
  assumes "delivered env k xs sp h i" "disjoint_blocks env k p xs" "i < k"
    "\<And>q. q \<in> owned env i \<Longrightarrow> hints h' q = hints h q"
    "hptrs h' (p_rows (e_blocks env i)) = hptrs h (p_rows (e_blocks env i))"
  shows "delivered env k xs sp h' i"
proof -
  have "length (p_values (e_blocks env i)) = k"
    using assms(2,3) by (simp add: disjoint_blocks_def)
  with assms(1,4,5) show ?thesis
    by (auto simp: delivered_def owned_def)
qed

lemma bucket_run:
  assumes "gets_round_1 root k xs sp i ms" "disjoint_blocks env k (ss_data root) xs" "i < k" "length xs < 2 ^ 31"
    "hints h (slice_ptr (ss_data root) k xs i) = drop (i * (length xs div k)) xs"
  shows "\<exists>h' t' m. Bucket_rounds_1_2 (Some blk) (e_blocks env i) clk h t ms =
       Some (Inr (h', t', [], ss_taskID root, m)) \<and> delivered env k xs sp h' i \<and>
     reports env (ss_taskID root) i (ss_taskID root, m) \<and> bk_root_id t' = ss_taskID root \<and>
     (\<forall>q. q \<notin> owned env i \<longrightarrow> hints h' q = hints h q) \<and>
     (\<forall>q. q \<noteq> p_rows (e_blocks env i) \<longrightarrow> hptrs h' q = hptrs h q)"
proof -
  from assms(1) obtain tm d s g where ms: "ms = [MTopology tm, MRefIntArray d, MIntArray s, MDone g]"
    "round_1_inbox tm d s g" "root_id tm = ss_taskID root" "length (bucket_ids tm) = k" "ia_values s = sp"
    "ria_size d = of_nat (length (slice k xs i))" "ria_values d = slice_ptr (ss_data root) k xs i"
    by (auto simp: gets_round_1_def slice_ptr_def)
  have len: "length (slice k xs i) < 2 ^ 31"
    using length_slice(2) [OF assms(3), of xs] assms(4) by linarith
  have data: "take (length (slice k xs i)) (hints h (ria_values d)) = slice k xs i"
    using assms(5) ms(7) by (simp add: slice_def Let_def min_def)
  have "length (p_values (e_blocks env i)) = length (bucket_ids tm)"
    "distinct (p_counts (e_blocks env i) # p_values (e_blocks env i))"
    using assms(2,3) ms(4) by (simp_all add: disjoint_blocks_def)
  from rounds_1_2_ok [OF ms(2) data ms(6) len this, of blk clk t "[]"] ms show ?thesis
    by (auto simp: delivered_def refers_def reports_def owned_def)
qed

lemma buckets_round_2_ok:
  assumes gets: "\<forall>i < k. gets_round_1 root k xs sp i (messages_for (bs ! i) outs)"
    and dis: "disjoint_blocks env k (ss_data root) xs" and xs: "length xs < 2 ^ 31"
    and blk: "e_two_dim env = Some blk"
    and "distinct is" "set is \<subseteq> {..<k}"
    and data: "\<forall>i < k. hints h (slice_ptr (ss_data root) k xs i) = drop (i * (length xs div k)) xs"
  shows "\<exists>h' tasks' up. buckets_round_2 env bs outs is h tasks = Some (Inr (h', tasks', up)) \<and>
     (\<forall>i \<in> set is. delivered env k xs sp h' i \<and> bk_root_id (tasks' i) = ss_taskID root) \<and>
     list_all2 (reports env (ss_taskID root)) is up \<and>
     (\<forall>q. q \<notin> (\<Union>i \<in> set is. owned env i) \<longrightarrow> hints h' q = hints h q) \<and>
     (\<forall>q. q \<notin> (\<lambda>i. p_rows (e_blocks env i)) ` set is \<longrightarrow> hptrs h' q = hptrs h q) \<and>
     (\<forall>i. i \<notin> set is \<longrightarrow> tasks' i = tasks i)"
  using assms(5-)
proof (induction "is" arbitrary: h tasks)
  case (Cons i is')
  have i: "i < k" "i \<notin> set is'" and is': "distinct is'" "set is' \<subseteq> {..<k}"
    using Cons.prems by auto
  obtain h1 t1 m where b: "Bucket_rounds_1_2 (e_two_dim env) (e_blocks env i) (e_clk env i) h (tasks i)
        (messages_for (bs ! i) outs) = Some (Inr (h1, t1, [], ss_taskID root, m))"
    "delivered env k xs sp h1 i" "reports env (ss_taskID root) i (ss_taskID root, m)" "bk_root_id t1 = ss_taskID root"
    "\<forall>q. q \<notin> owned env i \<longrightarrow> hints h1 q = hints h q" "\<forall>q. q \<noteq> p_rows (e_blocks env i) \<longrightarrow> hptrs h1 q = hptrs h q"
    using bucket_run [OF _ dis i(1) xs, of sp "messages_for (bs ! i) outs" h blk "e_clk env i" "tasks i"]
      gets i(1) Cons.prems(3) blk by auto
  have "\<forall>j < k. hints h1 (slice_ptr (ss_data root) k xs j) = drop (j * (length xs div k)) xs"
    using Cons.prems(3) b(5) dis i(1) by (simp add: disjoint_blocks_def)
  from Cons.IH [OF is' this, of "tasks(i := t1)"] obtain h' tasks' up where
    r: "buckets_round_2 env bs outs is' h1 (tasks(i := t1)) = Some (Inr (h', tasks', up))"
    "\<forall>j \<in> set is'. delivered env k xs sp h' j \<and> bk_root_id (tasks' j) = ss_taskID root"
    "list_all2 (reports env (ss_taskID root)) is' up"
    "\<forall>q. q \<notin> (\<Union>j \<in> set is'. owned env j) \<longrightarrow> hints h' q = hints h1 q"
    "\<forall>q. q \<notin> (\<lambda>j. p_rows (e_blocks env j)) ` set is' \<longrightarrow> hptrs h' q = hptrs h1 q"
    "\<forall>j. j \<notin> set is' \<longrightarrow> tasks' j = (tasks(i := t1)) j"
    by blast
  have dj: "owned env i \<inter> owned env j = {}" "p_rows (e_blocks env i) \<noteq> p_rows (e_blocks env j)"
    if "j \<in> set is'" for j
    using dis i that is'(2) by (auto simp: disjoint_blocks_def)
  have "delivered env k xs sp h' i"
  proof (rule delivered_frame [OF b(2) dis i(1)])
    fix q assume "q \<in> owned env i"
    then show "hints h' q = hints h1 q" using r(4) dj(1) by blast
  next
    show "hptrs h' (p_rows (e_blocks env i)) = hptrs h1 (p_rows (e_blocks env i))"
      using r(5) dj(2) by blast
  qed
  moreover have "bk_root_id (tasks' i) = ss_taskID root"
    using r(6) i(2) b(4) by simp
  ultimately show ?case
    using b r by auto
qed simp

section \<open>Collecting and regrouping\<close>

lemma receive_sub_array:
  assumes "tag m = SUB_ARRAT_MSG" "buckets_values_arr_count root = of_nat c" "c < length (buckets_values_arr root)"
    "c < 2 ^ 31"
  shows "SampleSort_receive root (MRefTwoDim m # ib) =
     Some (Inr (root\<lparr>buckets_values_arr := (buckets_values_arr root)[c := m],
       buckets_values_arr_count := of_nat (Suc c)\<rparr>, ib))"
proof -
  have "of_nat c + 1 = (of_nat (Suc c) :: cint)" by simp
  then show ?thesis
    using assms
    by (simp add: ss_receive_defs as_ref_two_dim_def handle_SubArrayMsg_def sint_of_nat ss_tags
        Message.truncate_def del: of_nat_Suc)
qed

lemma receive_sub_arrays:
  assumes "\<forall>m \<in> set ms. tag m = SUB_ARRAT_MSG" "buckets_values_arr_count root = of_nat c"
    "c + length ms \<le> length (buckets_values_arr root)" "c + length ms < 2 ^ 31"
  shows "receive_times (length ms) root (map MRefTwoDim ms @ ib) =
     Some (Inr (root\<lparr>buckets_values_arr := take c (buckets_values_arr root) @ ms @
         drop (c + length ms) (buckets_values_arr root),
       buckets_values_arr_count := of_nat (c + length ms)\<rparr>, ib))"
  using assms
proof (induction ms arbitrary: root c)
  case Nil
  then show ?case by simp
next
  case (Cons m ms)
  let ?r = "root\<lparr>buckets_values_arr := (buckets_values_arr root)[c := m], buckets_values_arr_count := of_nat (Suc c)\<rparr>"
  have "SampleSort_receive root (map MRefTwoDim (m # ms) @ ib) = Some (Inr (?r, map MRefTwoDim ms @ ib))"
    using Cons.prems receive_sub_array [of m root c "map MRefTwoDim ms @ ib"] by simp
  moreover have "receive_times (length ms) ?r (map MRefTwoDim ms @ ib) =
     Some (Inr (?r\<lparr>buckets_values_arr := take (Suc c) (buckets_values_arr ?r) @ ms @
         drop (Suc c + length ms) (buckets_values_arr ?r),
       buckets_values_arr_count := of_nat (Suc c + length ms)\<rparr>, ib))"
    using Cons.prems by (intro Cons.IH) simp_all
  moreover have "take (Suc c) ((buckets_values_arr root)[c := m]) = take c (buckets_values_arr root) @ [m]"
    using Cons.prems(3) by (simp add: take_Suc_conv_app_nth)
  ultimately show ?case
    by simp
qed

lemma receive_dones:
  assumes "\<forall>d \<in> set ds. tag d = DONE_MSG"
  shows "receive_times (length ds) root (map MDone ds @ ib) = Some (Inr (root, ib))"
  using assms
proof (induction ds)
  case (Cons d ds)
  then have "SampleSort_receive root (map MDone (d # ds) @ ib) = Some (Inr (root, map MDone ds @ ib))"
    by (simp add: ss_receive_defs as_done_def ss_handle_DoneMsg_def ss_tags Message.truncate_def)
  with Cons show ?case by simp
qed simp

lemma regroup_loop_ok:
  assumes "\<forall>m \<in> set ms. ki < length (hints h (rtd_counts m)) \<and> ki < length (hptrs h (rtd_values m))" "ki < 2 ^ 31"
  shows "regroup_loop h ms ki = Inr (map (\<lambda>m. (hints h (rtd_counts m) ! ki, hptrs h (rtd_values m) ! ki)) ms)"
  using assms by (induction ms) (simp_all add: array_get_nth)

definition regroup_msg :: "RefTwoDimIntArrayMsg \<Rightarrow> nat \<Rightarrow> ptr \<times> ptr \<Rightarrow> RefTwoDimIntArrayMsg" where
  "regroup_msg blk k bl =
     blk\<lparr>tag := SET_SUB_ARRAY_MSG, tid := class_id RefTwoDimC,
         msg_size := of_nat (sizeof RefTwoDimIntArrayMsg_struct), methods := Some RefTwoDimC,
         rtd_size := of_nat k, rtd_counts := fst bl, rtd_values := snd bl\<rparr>"

text \<open>The messages collected refer to the blocks of the buckets \<open>ord\<close>.\<close>

definition collected :: "sort_env \<Rightarrow> nat list \<Rightarrow> RefTwoDimIntArrayMsg list \<Rightarrow> bool" where
  "collected env ord ms \<longleftrightarrow>
     list_all2 (\<lambda>i m. rtd_counts m = p_counts (e_blocks env i) \<and> rtd_values m = p_rows (e_blocks env i)) ord ms"

lemma collectedD:
  assumes "collected env ord ms"
  shows "map (\<lambda>m. (hints h (rtd_counts m) ! ki, hptrs h (rtd_values m) ! ki)) ms =
      map (\<lambda>i. (hints h (p_counts (e_blocks env i)) ! ki, hptrs h (p_rows (e_blocks env i)) ! ki)) ord"
    "m \<in> set ms \<Longrightarrow> \<exists>i \<in> set ord. rtd_counts m = p_counts (e_blocks env i) \<and> rtd_values m = p_rows (e_blocks env i)"
proof -
  from assms have len: "length ms = length ord" and
    nth: "\<And>j. j < length ord \<Longrightarrow> rtd_counts (ms ! j) = p_counts (e_blocks env (ord ! j)) \<and>
      rtd_values (ms ! j) = p_rows (e_blocks env (ord ! j))"
    by (simp_all add: collected_def list_all2_conv_all_nth)
  then show "map (\<lambda>m. (hints h (rtd_counts m) ! ki, hptrs h (rtd_values m) ! ki)) ms =
      map (\<lambda>i. (hints h (p_counts (e_blocks env i)) ! ki, hptrs h (p_rows (e_blocks env i)) ! ki)) ord"
    using len by (intro nth_equalityI) simp_all
  show "m \<in> set ms \<Longrightarrow> \<exists>i \<in> set ord. rtd_counts m = p_counts (e_blocks env i) \<and> rtd_values m = p_rows (e_blocks env i)"
  proof -
    assume "m \<in> set ms"
    then obtain j where "j < length ord" "m = ms ! j"
      using len by (auto simp: in_set_conv_nth)
    with nth [of j] nth_mem [of j ord] show ?thesis by auto
  qed
qed

lemma regroup_ok:
  assumes root: "ss_K root = of_nat k" "k < 2 ^ 31" "buckets_values_arr root = ms" "length ms = k"
    and ms: "collected env ord ms" "\<forall>i \<in> set ord. delivered env k xs sp h i" and ki: "ki < k"
    and dis: "disjoint_blocks env k p xs" "set ord \<subseteq> {..<k}"
  shows "regroup (Some blk) root h ki bl =
     Inr (h\<lparr>hints := (hints h)(fst bl := map (\<lambda>i. of_nat (length (part sp (slice k xs i) ki))) ord),
            hptrs := (hptrs h)(snd bl := map (\<lambda>i. p_values (e_blocks env i) ! ki) ord)\<rparr>,
          regroup_msg blk k bl)"
proof -
  have len: "length (p_values (e_blocks env i)) = k" if "i \<in> set ord" for i
    using that dis by (auto simp: disjoint_blocks_def)
  have "regroup_loop h ms ki =
      Inr (map (\<lambda>m. (hints h (rtd_counts m) ! ki, hptrs h (rtd_values m) ! ki)) ms)"
  proof (rule regroup_loop_ok)
    show "\<forall>m \<in> set ms. ki < length (hints h (rtd_counts m)) \<and> ki < length (hptrs h (rtd_values m))"
      using collectedD(2) [OF ms(1)] ms(2) ki len by (fastforce simp: delivered_def)
  qed (use ki root(2) in simp)
  also have "map (\<lambda>m. (hints h (rtd_counts m) ! ki, hptrs h (rtd_values m) ! ki)) ms =
      map (\<lambda>i. (of_nat (length (part sp (slice k xs i) ki)), p_values (e_blocks env i) ! ki)) ord"
    unfolding collectedD(1) [OF ms(1)] using ms(2) ki by (simp add: delivered_def)
  finally show ?thesis
    using root by (simp add: regroup_def RefTwoDimIntArrayMsg_create_def copy_elems_def sint_of_nat
        regroup_msg_def o_def)
qed

lemma round_3_root_ok:
  assumes root: "ss_K root = of_nat k" "k < 2 ^ 31" "buckets_values_arr root = ms" "length ms = k"
    and ms: "collected env ord ms" and dis: "disjoint_blocks env k p xs" "set ord \<subseteq> {..<k}"
    and "\<forall>i \<in> set ord. delivered env k xs sp h i" "ki + length bs = k"
  shows "\<exists>h'. SampleSort_round_3 (Some blk) (e_regroup env) root h ki bs =
       Inr (h', zip bs (map (\<lambda>j. MRefTwoDim (regroup_msg blk k (e_regroup env j))) [ki..<k])) \<and>
     (\<forall>i \<in> set ord. delivered env k xs sp h' i) \<and>
     (\<forall>j. ki \<le> j \<and> j < k \<longrightarrow>
        hints h' (fst (e_regroup env j)) = map (\<lambda>i. of_nat (length (part sp (slice k xs i) j))) ord \<and>
        hptrs h' (snd (e_regroup env j)) = map (\<lambda>i. p_values (e_blocks env i) ! j) ord) \<and>
     (\<forall>j < ki. hints h' (fst (e_regroup env j)) = hints h (fst (e_regroup env j)) \<and>
        hptrs h' (snd (e_regroup env j)) = hptrs h (snd (e_regroup env j)))"
  using assms(8-)
proof (induction bs arbitrary: h ki)
  case Nil
  then show ?case by auto
next
  case (Cons b bs)
  let ?R = "e_regroup env ki"
  have ki: "ki < k" using Cons.prems(2) by simp
  define h1 where "h1 = h\<lparr>hints := (hints h)(fst ?R := map (\<lambda>i. of_nat (length (part sp (slice k xs i) ki))) ord),
      hptrs := (hptrs h)(snd ?R := map (\<lambda>i. p_values (e_blocks env i) ! ki) ord)\<rparr>"
  have r: "regroup (Some blk) root h ki ?R = Inr (h1, regroup_msg blk k ?R)"
    unfolding h1_def by (rule regroup_ok [OF root ms Cons.prems(1) ki dis])
  have "delivered env k xs sp h1 i" if "i \<in> set ord" for i
  proof (rule delivered_frame [where h = h])
    show i: "delivered env k xs sp h i" "i < k" using Cons.prems(1) that dis(2) by auto
    show "hints h1 q = hints h q" if "q \<in> owned env i" for q
      using disjointD(3) [OF dis(1) i(2) ki] that by (auto simp: h1_def)
    show "hptrs h1 (p_rows (e_blocks env i)) = hptrs h (p_rows (e_blocks env i))"
      using disjointD(4) [OF dis(1) i(2) ki] by (simp add: h1_def)
  qed (rule dis(1))
  with Cons.IH [of h1 "Suc ki"] Cons.prems(2) obtain h' where
    h': "SampleSort_round_3 (Some blk) (e_regroup env) root h1 (Suc ki) bs =
      Inr (h', zip bs (map (\<lambda>j. MRefTwoDim (regroup_msg blk k (e_regroup env j))) [Suc ki..<k]))"
    "\<forall>i \<in> set ord. delivered env k xs sp h' i"
    "\<forall>j. Suc ki \<le> j \<and> j < k \<longrightarrow>
        hints h' (fst (e_regroup env j)) = map (\<lambda>i. of_nat (length (part sp (slice k xs i) j))) ord \<and>
        hptrs h' (snd (e_regroup env j)) = map (\<lambda>i. p_values (e_blocks env i) ! j) ord"
    "\<forall>j < Suc ki. hints h' (fst (e_regroup env j)) = hints h1 (fst (e_regroup env j)) \<and>
        hptrs h' (snd (e_regroup env j)) = hptrs h1 (snd (e_regroup env j))"
    by auto
  have here: "hints h' (fst ?R) = map (\<lambda>i. of_nat (length (part sp (slice k xs i) ki))) ord \<and>
      hptrs h' (snd ?R) = map (\<lambda>i. p_values (e_blocks env i) ! ki) ord"
    using h'(4) by (simp add: h1_def)
  have all: "\<forall>j. ki \<le> j \<and> j < k \<longrightarrow>
      hints h' (fst (e_regroup env j)) = map (\<lambda>i. of_nat (length (part sp (slice k xs i) j))) ord \<and>
      hptrs h' (snd (e_regroup env j)) = map (\<lambda>i. p_values (e_blocks env i) ! j) ord"
    using here h'(3) by (metis Suc_leI le_neq_implies_less)
  have "hints h' (fst (e_regroup env j)) = hints h (fst (e_regroup env j)) \<and>
      hptrs h' (snd (e_regroup env j)) = hptrs h (snd (e_regroup env j))" if "j < ki" for j
    using h'(4) that disjointD(5,6) [OF dis(1) ki, of j] ki by (simp add: h1_def)
  moreover have "[ki..<k] = ki # [Suc ki..<k]"
    using ki by (simp add: upt_conv_Cons)
  ultimately show ?case
    using r h'(1,2) all by simp
qed

section \<open>The final arrays\<close>

text \<open>The pieces of bucket \<open>j\<close> when the buckets have reached the root in the order \<open>ord\<close>.\<close>

definition pieces :: "nat \<Rightarrow> cint list \<Rightarrow> cint list \<Rightarrow> nat list \<Rightarrow> nat \<Rightarrow> cint list list" where
  "pieces k xs sp ord j = map (\<lambda>i. part sp (slice k xs i) j) ord"

lemma sum_list_perm: "mset ord = mset [0..<k] \<Longrightarrow> sum_list (map f ord) = (\<Sum>i < k. f i :: 'a :: comm_monoid_add)"
proof -
  assume "mset ord = mset [0..<k]"
  then have "sum_mset (image_mset f (mset ord)) = sum_mset (image_mset f (mset [0..<k]))" by simp
  then have "sum_list (map f ord) = sum_list (map f [0..<k])"
    by (simp only: mset_map [symmetric] sum_mset_sum_list)
  also have "\<dots> = (\<Sum>i < k. f i)"
    by (simp add: sum_list_sum_nth atLeast0LessThan)
  finally show ?thesis .
qed

lemma mset_slices: "0 < k \<Longrightarrow> (\<Sum>i < k. mset (slice k xs i)) = mset xs"
  using concat_slices [of k xs, THEN arg_cong, of mset]
  by (simp add: mset_concat o_def sum_list_sum_nth atLeast0LessThan)

lemma mset_pieces:
  assumes "mset ord = mset [0..<k]" "0 < k" "length sp = k"
  shows "(\<Sum>j < k. mset (concat (pieces k xs sp ord j))) = mset xs"
proof -
  have "mset (concat (pieces k xs sp ord j)) = (\<Sum>i < k. mset (part sp (slice k xs i) j))" for j
    using sum_list_perm [OF assms(1), of "\<lambda>i. mset (part sp (slice k xs i) j)"]
    by (simp add: pieces_def mset_concat o_def)
  then have "(\<Sum>j < k. mset (concat (pieces k xs sp ord j))) = (\<Sum>j < k. \<Sum>i < k. mset (part sp (slice k xs i) j))"
    by simp
  also have "\<dots> = (\<Sum>i < k. \<Sum>j < k. mset (part sp (slice k xs i) j))"
    by (rule sum.swap)
  also have "\<dots> = mset xs"
    using mset_parts [of sp] assms(2,3) mset_slices [OF assms(2)] by auto
  finally show ?thesis .
qed

lemma length_pieces:
  assumes "mset ord = mset [0..<k]" "0 < k" "length sp = k" "j < k"
  shows "length (concat (pieces k xs sp ord j)) \<le> length xs" "set (concat (pieces k xs sp ord j)) \<subseteq> set xs"
proof -
  have "mset (concat (pieces k xs sp ord j)) \<subseteq># (\<Sum>j < k. mset (concat (pieces k xs sp ord j)))"
    using assms(4) by (auto simp: sum.remove [of _ j])
  then have le: "mset (concat (pieces k xs sp ord j)) \<subseteq># mset xs"
    using mset_pieces [OF assms(1-3)] by simp
  from size_mset_mono [OF le] show "length (concat (pieces k xs sp ord j)) \<le> length xs"
    by simp
  from set_mset_mono [OF le] show "set (concat (pieces k xs sp ord j)) \<subseteq> set xs"
    by simp
qed

lemma pieces_bounds:
  assumes "v \<in> set (concat (pieces k xs sp ord j))"
  shows "l < j \<Longrightarrow> sint (sp ! l) < sint v" "Suc j < length sp \<Longrightarrow> sint v \<le> sint (sp ! j)"
  using assms part_bounds(2,3) by (auto simp: pieces_def)

lemma sorted_concat_upt:
  assumes "\<And>j. j < k \<Longrightarrow> sorted (map sint (f j))"
    "\<And>i j x y. i < j \<Longrightarrow> j < k \<Longrightarrow> x \<in> set (f i) \<Longrightarrow> y \<in> set (f j) \<Longrightarrow> sint x \<le> sint y"
  shows "sorted (map sint (concat (map f [0..<k])))"
  using assms
proof (induction k)
  case (Suc k)
  then have "sorted (map sint (concat (map f [0..<k])))" by simp
  with Suc.prems show ?case
    by (auto simp: sorted_append map_concat)
qed simp

lemma finals_sorted:
  assumes "mset ord = mset [0..<k]" "0 < k" "length sp = k" "diffs_fit (set xs)"
  shows "sorted (map sint (concat (map (\<lambda>j. qsort buckettask_cmpfunc (concat (pieces k xs sp ord j))) [0..<k])))"
proof (rule sorted_concat_upt)
  fix j assume "j < k"
  with length_pieces(2) [OF assms(1-3)] assms(4) have "diffs_fit (set (concat (pieces k xs sp ord j)))"
    unfolding diffs_fit_def by blast
  then show "sorted (map sint (qsort buckettask_cmpfunc (concat (pieces k xs sp ord j))))"
    by (rule bucket_qsort_sorted)
next
  fix i j x y assume ij: "i < j" "j < k"
    "x \<in> set (qsort buckettask_cmpfunc (concat (pieces k xs sp ord i)))"
    "y \<in> set (qsort buckettask_cmpfunc (concat (pieces k xs sp ord j)))"
  then have "sint x \<le> sint (sp ! i)" "sint (sp ! i) < sint y"
    using pieces_bounds assms(3) by (simp_all del: set_concat)
  then show "sint x \<le> sint y" by simp
qed

lemma mset_finals:
  assumes "mset ord = mset [0..<k]" "0 < k" "length sp = k"
  shows "mset (concat (map (\<lambda>j. qsort buckettask_cmpfunc (concat (pieces k xs sp ord j))) [0..<k])) = mset xs"
  using mset_pieces [OF assms, of xs]
  by (simp add: mset_concat [of "map _ _"] o_def sum_list_sum_nth atLeast0LessThan)

lemma pieces_at_regroup:
  assumes "\<forall>i \<in> set ord. delivered env k xs sp h i" "length ord = k" "j < k"
    "hints h (fst (e_regroup env j)) = map (\<lambda>i. of_nat (length (part sp (slice k xs i) j))) ord"
    "hptrs h (snd (e_regroup env j)) = map (\<lambda>i. p_values (e_blocks env i) ! j) ord"
  shows "pieces_at h (regroup_msg blk k (e_regroup env j)) (pieces k xs sp ord j)"
  using assms by (simp add: pieces_at_def regroup_msg_def pieces_def delivered_def)

lemma buckets_round_3_ok:
  assumes "e_done env = Some blk" "set is \<subseteq> {..<k}" "k < 2 ^ 31"
    "\<And>j. j < k \<Longrightarrow> messages_for (bs ! j) outs = [MRefTwoDim (regroup_msg rb k (e_regroup env j))]"
    "\<And>j. j < k \<Longrightarrow> pieces_at h (regroup_msg rb k (e_regroup env j)) (pieces k xs sp ord j)"
    "\<And>j. j < k \<Longrightarrow> length (concat (pieces k xs sp ord j)) < 2 ^ 31" "length ord = k"
    "\<And>j. j < k \<Longrightarrow> bk_root_id (tasks j) = r"
  shows "\<exists>ds. buckets_round_3 env bs outs is h tasks =
       Some (Inr (map (\<lambda>j. qsort buckettask_cmpfunc (concat (pieces k xs sp ord j))) is, map (\<lambda>d. (r, MDone d)) ds)) \<and>
     length ds = length is \<and> (\<forall>d \<in> set ds. tag d = DONE_MSG)"
  using assms(2)
proof (induction "is")
  case (Cons j js)
  then have j: "j < k" by simp
  have "tag (regroup_msg rb k (e_regroup env j)) = SET_SUB_ARRAY_MSG"
    by (simp add: regroup_msg_def)
  moreover have "length (pieces k xs sp ord j) < 2 ^ 31"
    using assms(3,7) by (simp add: pieces_def)
  ultimately obtain t d where
    "Bucket_round_3 (e_done env) (e_clk env j 4) h (tasks j) (messages_for (bs ! j) outs) =
       Some (Inr (t, [], r, MDone d))" "tag d = DONE_MSG"
    "final_data_values t = qsort buckettask_cmpfunc (concat (pieces k xs sp ord j))"
    using round_3_ok [OF _ assms(5) [OF j] _ assms(6) [OF j], of blk "e_clk env j 4" "tasks j" "[]"]
      assms(1,4,8) j by auto
  moreover obtain ds where "buckets_round_3 env bs outs js h tasks =
       Some (Inr (map (\<lambda>j. qsort buckettask_cmpfunc (concat (pieces k xs sp ord j))) js, map (\<lambda>d. (r, MDone d)) ds))"
     "length ds = length js" "\<forall>d \<in> set ds. tag d = DONE_MSG"
    using Cons by auto
  ultimately show ?case
    by (intro exI [of _ "d # ds"]) simp
qed simp

lemma reports_messages:
  "list_all2 (reports env r) ord up \<Longrightarrow>
     \<exists>ms. up = map (\<lambda>m. (r, MRefTwoDim m)) ms \<and> length ms = length ord \<and>
       (\<forall>m \<in> set ms. tag m = SUB_ARRAT_MSG) \<and> collected env ord ms"
proof (induction rule: list_all2_induct)
  case Nil
  show ?case by (simp add: collected_def)
next
  case (Cons i is' x up)
  from Cons(1) obtain m where "x = (r, MRefTwoDim m)" "tag m = SUB_ARRAT_MSG"
    "rtd_counts m = p_counts (e_blocks env i)" "rtd_values m = p_rows (e_blocks env i)"
    by (cases x) (auto simp: reports_def)
  moreover from Cons(3) obtain ms where "up = map (\<lambda>m. (r, MRefTwoDim m)) ms" "length ms = length is'"
    "\<forall>m \<in> set ms. tag m = SUB_ARRAT_MSG" "collected env is' ms"
    by blast
  ultimately show ?case
    by (intro exI [of _ "m # ms"]) (simp add: collected_def)
qed

text \<open>What a run needs: its blocks, the identifiers of the buckets, and enough random numbers.\<close>

definition run_ready ::
  "sort_env \<Rightarrow> nat \<Rightarrow> ptr \<Rightarrow> cint list \<Rightarrow> heap \<Rightarrow> clong list \<Rightarrow> cint list \<Rightarrow> bool" where
  "run_ready env k p xs h rs bs \<longleftrightarrow>
     some_blks (e_root env) \<and> length (e_arr env) = k \<and> e_two_dim env \<noteq> None \<and> e_done env \<noteq> None \<and>
     disjoint_blocks env k p xs \<and> length bs = k \<and> distinct bs \<and>
     enough_random (length xs) SAMPLE_SIZE rs \<and>
     (\<forall>i < k. hints h (slice_ptr p k xs i) = drop (i * (length xs div k)) xs)"

lemma perm_facts:
  assumes "mset ord = mset [0..<k]"
  shows "set ord = {..<k}" "length ord = k" "distinct ord"
  using mset_eq_setD [OF assms] mset_eq_length [OF assms] mset_eq_imp_distinct_iff [OF assms]
  by (auto simp: atLeast0LessThan)

text \<open>The first two rounds: the root has collected the messages of the buckets.\<close>

lemma run_rounds_1_2:
  assumes inbox: "start_inbox h b d k xs" and ready: "run_ready env k (ria_values d) xs h rs bs"
    and ord: "mset ord = mset [0..<k]"
  obtains root1 sp n root2 outs h1 tasks1 up root3 where
    "SampleSort_prepare h rs root [MBar b, MRefIntArray d] = Some (Inr (root1, [], n, sp))" "length sp = k"
    "SampleSort_round_1 (e_root env) root1 n sp bs (e_arr env) = Inr (root2, outs)"
    "buckets_round_2 env bs outs ord h tasks = Some (Inr (h1, tasks1, up))"
    "receive_times k root2 ([] @ messages_for (ss_taskID root2) up) = Some (Inr (root3, []))"
    "ss_K root3 = of_nat k" "collected env ord (buckets_values_arr root3)" "ss_taskID root3 = ss_taskID root"
    "\<forall>i \<in> set ord. delivered env k xs sp h1 i" "\<forall>i < k. bk_root_id (tasks1 i) = ss_taskID root"
proof -
  let ?r = "ss_taskID root"
  from inbox have k: "0 < k" "k < 2 ^ 31" and xs: "length xs < 2 ^ 31"
    by (auto simp: start_inbox_def)
  from ready obtain b2 where blks: "some_blks (e_root env)" "e_two_dim env = Some b2"
    and bs: "length bs = k" "distinct bs" and dis: "disjoint_blocks env k (ria_values d) xs"
    and rnd: "enough_random (length xs) SAMPLE_SIZE rs" and arr: "length (e_arr env) = k"
    and data: "\<forall>i < k. hints h (slice_ptr (ria_values d) k xs i) = drop (i * (length xs div k)) xs"
    by (auto simp: run_ready_def)
  have sub: "set ord \<subseteq> {..<k}" using perm_facts(1) [OF ord] by simp
  define root1 where "root1 = root\<lparr>ss_K := of_nat k, ss_size := of_nat (length xs), ss_data := ria_values d\<rparr>"
  have r1: "ss_K root1 = of_nat k" "ss_size root1 = of_nat (length xs)" "ss_data root1 = ria_values d" "ss_taskID root1 = ?r"
    by (simp_all add: root1_def)
  obtain sp where prep: "SampleSort_prepare h rs root [MBar b, MRefIntArray d] =
      Some (Inr (root1, [], of_nat (length xs div k), sp))" "length sp = k"
    using prepare_ok [OF inbox rnd, of root "[]"] unfolding root1_def by blast
  define root2 where "root2 = root1\<lparr>buckets_values_arr := e_arr env, buckets_values_arr_count := 0\<rparr>"
  obtain outs where out1: "SampleSort_round_1 (e_root env) root1 (of_nat (length xs div k)) sp bs (e_arr env) = Inr (root2, outs)"
    "\<forall>i < k. gets_round_1 root1 k xs sp i (messages_for (bs ! i) outs)"
    using round_1_ok [OF blks(1) r1(1,2) k xs prep(2) bs, of "e_arr env"] unfolding root2_def by blast
  obtain h1 tasks1 up where rnd2: "buckets_round_2 env bs outs ord h tasks = Some (Inr (h1, tasks1, up))"
    "\<forall>i \<in> set ord. delivered env k xs sp h1 i \<and> bk_root_id (tasks1 i) = ?r" "list_all2 (reports env ?r) ord up"
    using buckets_round_2_ok [OF out1(2) dis [folded r1(3)] xs blks(2) perm_facts(3) [OF ord] sub
        data [folded r1(3)], of tasks] unfolding r1(4) by blast
  obtain ms where ms: "up = map (\<lambda>m. (?r, MRefTwoDim m)) ms" "length ms = k"
    "\<forall>m \<in> set ms. tag m = SUB_ARRAT_MSG" "collected env ord ms"
    using reports_messages [OF rnd2(3)] perm_facts(2) [OF ord] by auto
  have "receive_times k root2 ([] @ messages_for (ss_taskID root2) up) =
      Some (Inr (root2\<lparr>buckets_values_arr := ms, buckets_values_arr_count := of_nat k\<rparr>, []))"
    using receive_sub_arrays [OF ms(3), of root2 0 "[]"] ms(1,2) arr k(2) r1(4)
    by (simp add: messages_for_all root2_def)
  with that [OF prep out1(1) rnd2(1)] rnd2(2) ms(4) perm_facts(1) [OF ord] show ?thesis
    by (simp add: root2_def r1)
qed

lemma run_round_3:
  assumes k: "0 < k" "k < 2 ^ 31" "length xs < 2 ^ 31" "length sp = k" and bs: "length bs = k" "distinct bs"
    and blks: "b_regroup (e_root env) = Some br" "e_done env = Some bd"
    and dis: "disjoint_blocks env k p xs" and ord: "mset ord = mset [0..<k]"
    and root: "ss_K root = of_nat k" "collected env ord (buckets_values_arr root)"
    and dlv: "\<forall>i \<in> set ord. delivered env k xs sp h i" and tasks: "\<forall>i < k. bk_root_id (tasks i) = r"
  obtains h' outs ds where
    "SampleSort_round_3 (b_regroup (e_root env)) (e_regroup env) root h 0 bs = Inr (h', outs)"
    "buckets_round_3 env bs outs [0..<k] h' tasks =
       Some (Inr (map (\<lambda>j. qsort buckettask_cmpfunc (concat (pieces k xs sp ord j))) [0..<k], map (\<lambda>d. (r, MDone d)) ds))"
    "length ds = k" "\<forall>d \<in> set ds. tag d = DONE_MSG"
proof -
  note perm = perm_facts [OF ord]
  let ?outs = "zip bs (map (\<lambda>j. MRefTwoDim (regroup_msg br k (e_regroup env j))) [0..<k])"
  have "length (buckets_values_arr root) = k"
    using root(2) perm(2) by (simp add: collected_def list_all2_lengthD)
  from round_3_root_ok [OF root(1) k(2) refl this root(2) dis _ dlv, of 0 bs br] obtain h' where
    r3: "SampleSort_round_3 (b_regroup (e_root env)) (e_regroup env) root h 0 bs = Inr (h', ?outs)"
    "\<forall>i \<in> set ord. delivered env k xs sp h' i"
    "\<forall>j < k. hints h' (fst (e_regroup env j)) = map (\<lambda>i. of_nat (length (part sp (slice k xs i) j))) ord \<and>
        hptrs h' (snd (e_regroup env j)) = map (\<lambda>i. p_values (e_blocks env i) ! j) ord"
    using perm(1) bs(1) blks(1) by auto
  have "\<exists>ds. buckets_round_3 env bs ?outs [0..<k] h' tasks =
       Some (Inr (map (\<lambda>j. qsort buckettask_cmpfunc (concat (pieces k xs sp ord j))) [0..<k], map (\<lambda>d. (r, MDone d)) ds)) \<and>
     length ds = length [0..<k] \<and> (\<forall>d \<in> set ds. tag d = DONE_MSG)"
  proof (rule buckets_round_3_ok [OF blks(2) _ k(2)])
    fix j assume j: "j < k"
    show "messages_for (bs ! j) ?outs = [MRefTwoDim (regroup_msg br k (e_regroup env j))]"
      using j bs by (simp add: messages_for_zip)
    show "pieces_at h' (regroup_msg br k (e_regroup env j)) (pieces k xs sp ord j)"
      using pieces_at_regroup [OF r3(2) perm(2) j] r3(3) j by blast
    show "length (concat (pieces k xs sp ord j)) < 2 ^ 31"
      using length_pieces(1) [OF ord k(1,4) j, of xs] k(3) by linarith
    show "bk_root_id (tasks j) = r" using tasks j by simp
  qed (use perm(2) in auto)
  with that [OF r3(1)] show ?thesis by auto
qed

lemma sample_sort_run_ok:
  assumes inbox: "start_inbox h b d k xs" and ready: "run_ready env k (ria_values d) xs h rs bs"
    and ord: "mset ord = mset [0..<k]"
  shows "\<exists>root' sp. sample_sort_run env h rs root [MBar b, MRefIntArray d] bs tasks ord =
     Some (Inr (root', [], map (\<lambda>j. qsort buckettask_cmpfunc (concat (pieces k xs sp ord j))) [0..<k])) \<and>
     length sp = k"
proof -
  from inbox have k: "0 < k" "k < 2 ^ 31" and xs: "length xs < 2 ^ 31"
    by (auto simp: start_inbox_def)
  from ready obtain bd br where blks: "b_regroup (e_root env) = Some br" "e_done env = Some bd"
    and bs: "length bs = k" "distinct bs" and dis: "disjoint_blocks env k (ria_values d) xs"
    by (auto simp: run_ready_def some_blks_def)
  obtain root1 sp n root2 outs h1 tasks1 up root3 where a:
    "SampleSort_prepare h rs root [MBar b, MRefIntArray d] = Some (Inr (root1, [], n, sp))" "length sp = k"
    "SampleSort_round_1 (e_root env) root1 n sp bs (e_arr env) = Inr (root2, outs)"
    "buckets_round_2 env bs outs ord h tasks = Some (Inr (h1, tasks1, up))"
    "receive_times k root2 ([] @ messages_for (ss_taskID root2) up) = Some (Inr (root3, []))"
    "ss_K root3 = of_nat k" "collected env ord (buckets_values_arr root3)" "ss_taskID root3 = ss_taskID root"
    "\<forall>i \<in> set ord. delivered env k xs sp h1 i" "\<forall>i < k. bk_root_id (tasks1 i) = ss_taskID root"
    by (rule run_rounds_1_2 [OF assms])
  obtain h2 outs3 ds where c: "SampleSort_round_3 (b_regroup (e_root env)) (e_regroup env) root3 h1 0 bs = Inr (h2, outs3)"
    "buckets_round_3 env bs outs3 [0..<k] h2 tasks1 =
       Some (Inr (map (\<lambda>j. qsort buckettask_cmpfunc (concat (pieces k xs sp ord j))) [0..<k],
         map (\<lambda>d. (ss_taskID root, MDone d)) ds))"
    "length ds = k" "\<forall>d \<in> set ds. tag d = DONE_MSG"
    by (rule run_round_3 [OF k xs a(2) bs blks dis ord a(6,7,9,10)])
  have "receive_times k root3 ([] @ messages_for (ss_taskID root3) (map (\<lambda>d. (ss_taskID root, MDone d)) ds)) =
      Some (Inr (root3, []))"
    using receive_dones [OF c(4), of root3 "[]"] c(3) a(8) by (simp add: messages_for_all)
  then have "sample_sort_run env h rs root [MBar b, MRefIntArray d] bs tasks ord =
      Some (Inr (root3, [], map (\<lambda>j. qsort buckettask_cmpfunc (concat (pieces k xs sp ord j))) [0..<k]))"
    by (simp only: sample_sort_run_def a(1,3,4,5) bs(1) c(1,2) bindW_simps prod.case)
  with a(2) show ?thesis by blast
qed

text \<open>How many values have a given quotient.\<close>

lemma card_quotient:
  assumes "0 < b" "v < n" "n * b \<le> 2 ^ 31"
  shows "card {x :: clong. unat x < n * b \<and> unat x div b = v} = b"
proof -
  have "{x :: clong. unat x < n * b \<and> unat x div b = v} = of_nat ` {v * b..<v * b + b}"
  proof (intro subset_antisym subsetI)
    fix x :: clong assume "x \<in> {x. unat x < n * b \<and> unat x div b = v}"
    then have "unat x div b = v" by simp
    with assms(1) have "unat x \<in> {v * b..<v * b + b}"
      using dividend_less_div_times [of b "unat x"] by auto
    then show "x \<in> of_nat ` {v * b..<v * b + b}"
      by (intro image_eqI [of _ _ "unat x"]) simp_all
  next
    fix x :: clong assume "x \<in> of_nat ` {v * b..<v * b + b}"
    then obtain y where y: "x = of_nat y" "v * b \<le> y" "y < v * b + b" by auto
    have "v * b + b \<le> n * b"
      using assms(2) mult_le_mono1 [of "Suc v" n b] by simp
    then have lt: "y < n * b" and "unat x = y"
      using y assms(3) by (simp_all add: unat_of_nat)
    moreover have "y div b = v"
      using y(2,3) by (intro div_nat_eqI) (simp_all add: mult.commute)
    ultimately show "x \<in> {x. unat x < n * b \<and> unat x div b = v}" by simp
  qed
  moreover have "inj_on (of_nat :: nat \<Rightarrow> clong) {v * b..<v * b + b}"
  proof (rule inj_onI)
    have "v * b + b \<le> n * b"
      using assms(2) mult_le_mono1 [of "Suc v" n b] by simp
    then have small: "unat (of_nat y :: clong) = y" if "y \<in> {v * b..<v * b + b}" for y
      using assms(3) that by (simp add: unat_of_nat)
    fix y z assume "y \<in> {v * b..<v * b + b}" "z \<in> {v * b..<v * b + b}" "(of_nat y :: clong) = of_nat z"
    with small [of y] small [of z] show "y = z"
      by metis
  qed
  ultimately show ?thesis by (simp add: card_image)
qed

section \<open>Properties\<close>

text \<open>
  C21. For \<open>max \<le> RAND_MAX\<close>, \<open>random_at_most\<close> goes on until \<open>random ()\<close> returns a value below a bound
  that more than half of the values are below, never divides by zero, and returns a number from 0 to
  \<open>max\<close>; and every such number is returned for the same number of values of \<open>random ()\<close>.
\<close>

theorem random_at_most_uniform:
  assumes "unat mx \<le> RAND_MAX"
  defines "n \<equiv> Suc (unat mx)"
  shows "(random_at_most mx rs = None \<longleftrightarrow> (\<forall>x \<in> set rs. accept_below n \<le> unat x)) \<and>
     RAND_MAX < 2 * accept_below n \<and>
     (case random_at_most mx rs of
        None \<Rightarrow> True | Some (Inl _) \<Rightarrow> False | Some (Inr (v, _)) \<Rightarrow> unat v \<le> unat mx) \<and>
     (\<forall>v. unat v \<le> unat mx \<longrightarrow>
        card {x. random_at_most mx [x] = Some (Inr (v, []))} = 2 ^ 31 div n)"
proof -
  have n: "0 < n" "n \<le> 2 ^ 31"
    using assms(1) by (simp_all add: n_def RAND_MAX_def)
  note below = less_accept [OF n] and idx = bin_index [OF n]
  have none: "random_at_most mx rs = None \<longleftrightarrow> (\<forall>x \<in> set rs. accept_below n \<le> unat x)"
    unfolding random_at_most_eq [OF assms(1)] n_def [symmetric]
    by (simp add: random_loop_None not_less [symmetric] below)
  have result: "case random_at_most mx rs of
      None \<Rightarrow> True | Some (Inl _) \<Rightarrow> False | Some (Inr (v, _)) \<Rightarrow> unat v \<le> unat mx"
  proof (cases "random_loop (of_nat (accept_below n)) rs")
    case (Some p)
    then obtain x rs' where "random_loop (of_nat (accept_below n)) rs = Some (x, rs')" by (cases p) auto
    with random_loop_Some [OF this] div_bin_less [of "unat x" n] below [of x] idx [of x] show ?thesis
      by (simp add: random_at_most_eq [OF assms(1)] n_def less_Suc_eq_le)
  qed (simp add: random_at_most_eq [OF assms(1)] n_def)
  have count: "card {x. random_at_most mx [x] = Some (Inr (v, []))} = 2 ^ 31 div n" if v: "unat v \<le> unat mx" for v
  proof -
    let ?b = "2 ^ 31 div n" and ?A = "{x. random_at_most mx [x] = Some (Inr (v, []))}"
    have b: "0 < ?b" using n by (simp add: div_greater_zero_iff)
    have "random_at_most mx [x] = Some (Inr (v, [])) \<longleftrightarrow> unat x < accept_below n \<and> unat x div ?b = unat v" for x
      using idx [of x] random_draw [OF assms(1), of x "[]"] by (auto simp: n_def [symmetric] word_unat_eq_iff random_at_most_eq [OF assms(1)])
    then have A: "?A = {x. unat x < accept_below n \<and> unat x div ?b = unat v}" by simp
    show ?thesis
      unfolding A accept_below_def
      using card_quotient [of ?b "unat v" n] b v accept_below_bounds(2) [OF n]
      by (simp add: n_def accept_below_def)
  qed
  show ?thesis
    using none result count accept_below_bounds(3) [OF n] by (simp add: RAND_MAX_def)
qed

theorem random_at_most_uniform_witness:
  "card {x. random_at_most 9 [x] = Some (Inr (3, []))} = 214748364"
proof -
  have u: "unat (9 :: clong) = 9" "unat (3 :: clong) = 3" by simp_all
  have "unat (9 :: clong) \<le> RAND_MAX" unfolding u by (simp add: RAND_MAX_def)
  from random_at_most_uniform [OF this] show ?thesis unfolding u by simp
qed


definition sample_K :: "cint \<Rightarrow> BarMsg" where
  "sample_K k = \<lparr>tag = 0, tid = 1, msg_size = 72, methods = Some BarC, bar_value = k\<rparr>"

definition sample_data_heap :: heap where
  "sample_data_heap =
     \<lparr>hints = (\<lambda>p. if p = 4096 then [30, 10, 20] else if p = 4100 then [10, 20] else []), hptrs = (\<lambda>_. [])\<rparr>"

definition sample_env :: sort_env where
  "sample_env =
     \<lparr>e_root = \<lparr>b_topology = Some sample_topology, b_slice = Some sample_slice,
        b_splitters = Some sample_splitters, b_command = Some (sample_done 0), b_regroup = Some sample_two_dim\<rparr>,
      e_arr = replicate 2 sample_two_dim, e_two_dim = Some sample_two_dim, e_done = Some (sample_done 0),
      e_blocks = (\<lambda>i. if i = 0 then \<lparr>p_counts = 100, p_rows = 1, p_values = [101, 102], junk = 0\<rparr>
        else \<lparr>p_counts = 200, p_rows = 2, p_values = [201, 202], junk = 0\<rparr>),
      e_regroup = (\<lambda>i. if i = 0 then (300, 3) else (301, 4)), e_clk = (\<lambda>_ _. sample_clk)\<rparr>"

definition sample_root :: SampleSortTask where
  "sample_root = \<lparr>ss_taskID = 1, ss_data = 0, ss_size = 0, ss_K = 0, buckets_values_arr = [],
     buckets_values_arr_count = 0\<rparr>"

lemma all_less_2: "(\<forall>i < (2 :: nat). P i) \<longleftrightarrow> P 0 \<and> P 1"
  by (auto simp: less_2_cases_iff)

lemma sample_start: "start_inbox sample_data_heap (sample_K 2) (sample_slice\<lparr>tag := 1\<rparr>) 2 [30, 10, 20]"
  by (simp add: start_inbox_def sample_K_def sample_slice_def sample_data_heap_def ss_tags)

lemma sample_ready:
  "run_ready sample_env 2 (ria_values (sample_slice\<lparr>tag := 1\<rparr>)) [30, 10, 20] sample_data_heap
     (replicate 1500 0) [2, 3]"
proof -
  have "disjoint_blocks sample_env 2 4096 [30, 10, 20]"
    unfolding disjoint_blocks_def all_less_2 by (simp add: sample_env_def owned_def slice_ptr_def)
  moreover have "enough_random (Suc (Suc (Suc 0))) 1500 (replicate 1500 0)"
    by (simp add: enough_random_def accept_below_def)
  ultimately show ?thesis
    unfolding run_ready_def all_less_2
    by (simp add: some_blks_def sample_env_def sample_slice_def SAMPLE_SIZE_def slice_ptr_def sample_data_heap_def)
qed


text \<open>
  With no buckets, and with no data, the root divides by zero before it sends anything.
\<close>

theorem sample_sort_div_by_zero:
  assumes "tag b = SS_BAR_MSG" "tag d = REF_INTARRAY_MSG" "bar_value b = 0 \<or> ria_size d = 0"
  shows "SampleSort_prepare h rs root (MBar b # MRefIntArray d # ib) = Some (Inl DivByZero)"
proof -
  have r1: "SampleSort_receive root (MBar b # MRefIntArray d # ib) =
      Some (Inr (root\<lparr>ss_K := bar_value b\<rparr>, MRefIntArray d # ib))"
    using assms by (simp add: ss_receive_defs as_bar_def ss_handle_BarMsg_def BarMsg_getValue_def ss_tags
        Message.truncate_def)
  have r2: "SampleSort_receive t (MRefIntArray d # ib) =
      Some (Inr (t\<lparr>ss_size := ria_size d, ss_data := ria_values d\<rparr>, ib))" for t
    using assms by (simp add: ss_receive_defs as_ref_int_array_def ss_handle_RefIntArrayMsg_def
        RefIntArrayMsg_getSize_def ss_tags Message.truncate_def)
  have "sample_loop data 0 SAMPLE_SIZE rs = Some (Inl DivByZero)" for data
    by (simp add: SAMPLE_SIZE_def numeral_eq_Suc random_at_most_def scast_eq)
  with assms(3) show ?thesis
    by (auto simp: SampleSort_prepare_def r1 r2 Let_def)
qed

theorem sample_sort_div_by_zero_witness:
  "SampleSort_prepare sample_data_heap [] sample_root
     [MBar (sample_K 0), MRefIntArray (sample_slice\<lparr>tag := 1\<rparr>)] = Some (Inl DivByZero)"
  by (rule sample_sort_div_by_zero) (simp_all add: sample_K_def sample_slice_def ss_tags)

end
