(* ===== verification/RequestResponse.thy ===== *)
theory RequestResponse
  imports SharedIpc StepSystem
begin

text \<open>
  The request and response trial (\<open>exploration/dns/server.c\<close> and \<open>client.c\<close>): a server that answers
  \<open>nb_client\<close> clients in turn over stream sockets until it has counted \<open>request_count\<close> requests, and
  clients that send a request and wait for its answer, each for its own number of requests.  A step of
  the system is one call of a process on a socket, in any interleaving.  The theorem says that every
  run ends, in which cases the server and the clients end well, and that nobody waits for ever.
\<close>

section \<open>Definitions\<close>

text \<open>
  A request or an answer is the four bytes of one \<open>send\<close>.  \<open>C_done\<close> is \<open>return 0\<close> of \<open>main\<close>, \<open>C_failed\<close> one
  of its \<open>exit (-1)\<close>, and likewise for the server.
\<close>

datatype client_pc = C_send | C_recv | C_done | C_failed

datatype server_pc = D_loop | D_recv nat | D_send nat | D_returned | D_failed

record client =
  c_pc :: client_pc
  c_i :: int

text \<open>
  \<open>up\<close> and \<open>down\<close> count the requests and answers on the way on each connection; \<open>rounds\<close> is a history of
  the outer loop that no statement reads.
\<close>

record conversation =
  d_pc :: server_pc
  d_req :: int
  rounds :: nat
  clients :: "client list"
  up :: "nat \<Rightarrow> nat"
  down :: "nat \<Rightarrow> nat"

definition server_closed :: "conversation \<Rightarrow> bool" where
  "server_closed s \<longleftrightarrow> d_pc s = D_returned \<or> d_pc s = D_failed"

definition client_closed :: "conversation \<Rightarrow> nat \<Rightarrow> bool" where
  "client_closed s t \<longleftrightarrow> c_pc (clients s ! t) = C_done \<or> c_pc (clients s ! t) = C_failed"

text \<open>
  One call of client \<open>t\<close> with \<open>request_count = n\<close>: \<open>None\<close> when it blocks or has left.  When the server has
  closed the connection \<open>send\<close> fails, if only by the signal \<open>SIGPIPE\<close>, which ends the process as well, and
  \<open>recv\<close> fails once no answer is left.
\<close>

definition dns_client :: "int \<Rightarrow> nat \<Rightarrow> conversation \<Rightarrow> conversation option" where
  "dns_client n t s =
     (let c = clients s ! t in
      case c_pc c of
        C_send \<Rightarrow>
          if c_i c < n
          then (if server_closed s then Some (s\<lparr>clients := (clients s)[t := c\<lparr>c_pc := C_failed\<rparr>]\<rparr>)
                else Some (s\<lparr>clients := (clients s)[t := c\<lparr>c_pc := C_recv\<rparr>], up := (up s)(t := up s t + 1)\<rparr>))
          else Some (s\<lparr>clients := (clients s)[t := c\<lparr>c_pc := C_done\<rparr>]\<rparr>)
      | C_recv \<Rightarrow>
          if 0 < down s t
          then Some (s\<lparr>clients := (clients s)[t := c\<lparr>c_pc := C_send, c_i := c_int (c_i c + 1)\<rparr>],
                       down := (down s)(t := down s t - 1)\<rparr>)
          else if server_closed s then Some (s\<lparr>clients := (clients s)[t := c\<lparr>c_pc := C_failed\<rparr>]\<rparr>)
          else None
      | C_done \<Rightarrow> None
      | C_failed \<Rightarrow> None)"

text \<open>One call of the server with \<open>request_count = R\<close> and \<open>nb_client = length (clients s)\<close>.\<close>

definition dns_server :: "int \<Rightarrow> conversation \<Rightarrow> conversation option" where
  "dns_server R s =
     (case d_pc s of
        D_loop \<Rightarrow> Some (s\<lparr>d_pc := (if d_req s < R then D_recv 0 else D_returned)\<rparr>)
      | D_recv t \<Rightarrow>
          if t < length (clients s)
          then (if 0 < up s t then Some (s\<lparr>d_pc := D_send t, up := (up s)(t := up s t - 1)\<rparr>)
                else if client_closed s t then Some (s\<lparr>d_pc := D_failed\<rparr>)
                else None)
          else Some (s\<lparr>d_pc := D_loop, rounds := rounds s + 1\<rparr>)
      | D_send t \<Rightarrow>
          if client_closed s t then Some (s\<lparr>d_pc := D_failed\<rparr>)
          else Some (s\<lparr>d_pc := D_recv (Suc t), d_req := c_int (d_req s + 1), down := (down s)(t := down s t + 1)\<rparr>)
      | D_returned \<Rightarrow> None
      | D_failed \<Rightarrow> None)"

text \<open>\<open>ns\<close> are the numbers of requests of the clients.\<close>

inductive dns_step :: "int \<Rightarrow> int list \<Rightarrow> conversation \<Rightarrow> conversation \<Rightarrow> bool" for R ns where
  server: "dns_server R s = Some s' \<Longrightarrow> dns_step R ns s s'"
| client: "t < length (clients s) \<Longrightarrow> dns_client (ns ! t) t s = Some s' \<Longrightarrow> dns_step R ns s s'"

text \<open>
  The start: \<open>main\<close> of the server leaves with -1 when a call fails, and otherwise goes on with all clients
  connected.
\<close>

definition dns_server_main :: "int \<Rightarrow> int \<Rightarrow> int \<Rightarrow> int \<Rightarrow> int list \<Rightarrow> int + unit" where
  "dns_server_main argc sc bind listen accepts =
     (if argc < 3 then Inl (-1)
      else if sc < 0 then Inl (-1)
      else if bind < 0 then Inl (-1)
      else if listen < 0 then Inl (-1)
      else if \<exists>c\<in>set accepts. c < 0 then Inl (-1)
      else Inr ())"

definition dns_client_main :: "int \<Rightarrow> int \<Rightarrow> int \<Rightarrow> int + unit" where
  "dns_client_main argc sc connect =
     (if argc < 2 then Inl (-1)
      else if sc < 0 then Inl (-1)
      else if connect < 0 then Inl (-1)
      else Inr ())"

definition connected :: "nat \<Rightarrow> conversation" where
  "connected nb = \<lparr>d_pc = D_loop, d_req = 0, rounds = 0, clients = replicate nb \<lparr>c_pc = C_send, c_i = 0\<rparr>,
     up = (\<lambda>_. 0), down = (\<lambda>_. 0)\<rparr>"

section \<open>The invariant\<close>

text \<open>The number of rounds the server needs.\<close>

definition rounds_needed :: "int \<Rightarrow> nat \<Rightarrow> nat" where
  "rounds_needed R nb = (nat R + nb - 1) div nb"

lemma rounds_needed_less:
  assumes "0 < nb"
  shows "r < rounds_needed R nb \<longleftrightarrow> int (nb * r) < R"
proof -
  have "r < rounds_needed R nb \<longleftrightarrow> Suc r * nb \<le> nat R + nb - 1"
    using less_eq_div_iff_mult_less_eq [OF assms, of "Suc r" "nat R + nb - 1"]
    by (simp add: rounds_needed_def Suc_le_eq)
  also have "\<dots> \<longleftrightarrow> nb * r < nat R" using assms by (auto simp: algebra_simps)
  also have "\<dots> \<longleftrightarrow> int (nb * r) < R" by linarith
  finally show ?thesis .
qed

lemma rounds_needed_bound:
  assumes "0 < nb" "0 \<le> R"
  shows "int (nb * rounds_needed R nb) \<le> R + int nb"
proof -
  have "nb * rounds_needed R nb \<le> nat R + nb - 1" by (simp add: rounds_needed_def)
  then show ?thesis using assms by linarith
qed

text \<open>A client waits exactly while its request, its answer or the server's turn for it is under way.\<close>

definition in_flight :: "conversation \<Rightarrow> nat \<Rightarrow> nat" where
  "in_flight s t = up s t + down s t + of_bool (d_pc s = D_send t)"

definition turn :: "server_pc \<Rightarrow> nat" where
  "turn p = (case p of D_recv t \<Rightarrow> t | D_send t \<Rightarrow> t | _ \<Rightarrow> 0)"

lemma turn_simps [simp]:
  "turn D_loop = 0" "turn (D_recv t) = t" "turn (D_send t) = t" "turn D_returned = 0" "turn D_failed = 0"
  by (simp_all add: turn_def)

definition served :: "conversation \<Rightarrow> nat \<Rightarrow> nat" where
  "served s t = rounds s + of_bool (t < turn (d_pc s))"

definition conn_inv :: "int \<Rightarrow> conversation \<Rightarrow> nat \<Rightarrow> bool" where
  "conn_inv n s t \<longleftrightarrow>
     (let c = clients s ! t in
      0 \<le> c_i c \<and> c_i c \<le> n \<and>
      (c_pc c = C_recv \<longrightarrow> c_i c < n \<and> in_flight s t = 1) \<and>
      (c_pc c \<noteq> C_recv \<and> c_pc c \<noteq> C_failed \<longrightarrow> in_flight s t = 0) \<and>
      (c_pc c = C_done \<longrightarrow> c_i c = n) \<and>
      (c_pc c = C_failed \<longrightarrow> server_closed s \<and> c_i c < n \<and> down s t = 0) \<and>
      (d_pc s \<noteq> D_failed \<longrightarrow> c_i c + int (down s t) = int (served s t)))"

definition turn_inv :: "int \<Rightarrow> int list \<Rightarrow> conversation \<Rightarrow> bool" where
  "turn_inv R ns s \<longleftrightarrow>
     (let K = rounds_needed R (length ns) in
      rounds s \<le> K \<and> turn (d_pc s) \<le> length ns \<and>
      (d_pc s \<noteq> D_failed \<longrightarrow> d_req s = int (length ns * rounds s + turn (d_pc s))) \<and>
      (case d_pc s of D_loop \<Rightarrow> True | D_recv t \<Rightarrow> rounds s < K | D_send t \<Rightarrow> rounds s < K \<and> t < length ns
       | D_returned \<Rightarrow> rounds s = K | D_failed \<Rightarrow> \<exists>t<length ns. ns ! t < int K))"

definition conversation_inv :: "int \<Rightarrow> int list \<Rightarrow> conversation \<Rightarrow> bool" where
  "conversation_inv R ns s \<longleftrightarrow>
     length (clients s) = length ns \<and> turn_inv R ns s \<and> (\<forall>t<length ns. conn_inv (ns ! t) s t)"

definition counts_ok :: "int \<Rightarrow> int list \<Rightarrow> bool" where
  "counts_ok R ns \<longleftrightarrow> ns \<noteq> [] \<and> 0 \<le> R \<and> R + int (length ns) < 2 ^ 31 \<and> (\<forall>n\<in>set ns. 0 \<le> n \<and> n < 2 ^ 31)"

lemma conversation_inv_init:
  "counts_ok R ns \<Longrightarrow> conversation_inv R ns (connected (length ns))"
  by (auto simp: conversation_inv_def connected_def turn_inv_def conn_inv_def in_flight_def served_def
      counts_ok_def)

text \<open>The steps of a client, one by one.\<close>

lemma dns_client_cases:
  assumes "dns_client n t s = Some s'"
  obtains
    (send) "c_pc (clients s ! t) = C_send" "c_i (clients s ! t) < n" "\<not> server_closed s"
      "s' = s\<lparr>clients := (clients s)[t := (clients s ! t)\<lparr>c_pc := C_recv\<rparr>], up := (up s)(t := up s t + 1)\<rparr>"
  | (refused) "c_pc (clients s ! t) = C_send" "c_i (clients s ! t) < n" "server_closed s"
      "s' = s\<lparr>clients := (clients s)[t := (clients s ! t)\<lparr>c_pc := C_failed\<rparr>]\<rparr>"
  | (leave) "c_pc (clients s ! t) = C_send" "\<not> c_i (clients s ! t) < n"
      "s' = s\<lparr>clients := (clients s)[t := (clients s ! t)\<lparr>c_pc := C_done\<rparr>]\<rparr>"
  | (answer) "c_pc (clients s ! t) = C_recv" "0 < down s t"
      "s' = s\<lparr>clients := (clients s)[t := (clients s ! t)\<lparr>c_pc := C_send, c_i := c_int (c_i (clients s ! t) + 1)\<rparr>],
        down := (down s)(t := down s t - 1)\<rparr>"
  | (lost) "c_pc (clients s ! t) = C_recv" "down s t = 0" "server_closed s"
      "s' = s\<lparr>clients := (clients s)[t := (clients s ! t)\<lparr>c_pc := C_failed\<rparr>]\<rparr>"
  using assms unfolding dns_client_def Let_def
  by (cases "c_pc (clients s ! t)") (auto split: if_splits)

lemmas conn_defs = conn_inv_def Let_def in_flight_def served_def server_closed_def

lemma conn_inv_other:
  assumes "conn_inv n s t" "dns_client m k s = Some s'" "k \<noteq> t"
  shows "conn_inv n s' t"
  using assms(2) by (cases rule: dns_client_cases) (use assms(1,3) in \<open>simp_all add: conn_defs\<close>)

lemma conn_inv_client:
  assumes "conn_inv n s t" "dns_client n t s = Some s'" "t < length (clients s)" "n < 2 ^ 31"
  shows "conn_inv n s' t"
  using assms(2)
proof (cases rule: dns_client_cases)
  case answer
  then have "c_int (c_i (clients s ! t) + 1) = c_i (clients s ! t) + 1"
    using assms(1,4) by (intro c_int_id) (auto simp: conn_inv_def Let_def)
  with answer assms(1,3) show ?thesis by (auto simp: conn_defs)
qed (use assms(1,3) in \<open>auto simp: conn_defs\<close>)

lemma turn_inv_client:
  assumes "dns_client n t s = Some s'" "turn_inv R ns s"
  shows "turn_inv R ns s' \<and> length (clients s') = length (clients s)"
  using assms(1) by (cases rule: dns_client_cases) (use assms(2) in \<open>simp_all add: turn_inv_def Let_def split: server_pc.splits\<close>)

text \<open>The steps of the server.\<close>

lemma dns_server_cases:
  assumes "dns_server R s = Some s'"
  obtains
    (go) "d_pc s = D_loop" "d_req s < R" "s' = s\<lparr>d_pc := D_recv 0\<rparr>"
  | (finish) "d_pc s = D_loop" "\<not> d_req s < R" "s' = s\<lparr>d_pc := D_returned\<rparr>"
  | (get) t where "d_pc s = D_recv t" "t < length (clients s)" "0 < up s t"
      "s' = s\<lparr>d_pc := D_send t, up := (up s)(t := up s t - 1)\<rparr>"
  | (eof) t where "d_pc s = D_recv t" "t < length (clients s)" "up s t = 0" "client_closed s t"
      "s' = s\<lparr>d_pc := D_failed\<rparr>"
  | (round) t where "d_pc s = D_recv t" "\<not> t < length (clients s)"
      "s' = s\<lparr>d_pc := D_loop, rounds := rounds s + 1\<rparr>"
  | (put) t where "d_pc s = D_send t" "\<not> client_closed s t"
      "s' = s\<lparr>d_pc := D_recv (Suc t), d_req := c_int (d_req s + 1), down := (down s)(t := down s t + 1)\<rparr>"
  | (broken) t where "d_pc s = D_send t" "client_closed s t" "s' = s\<lparr>d_pc := D_failed\<rparr>"
  using assms unfolding dns_server_def
  by (cases "d_pc s") (auto split: if_splits)

lemma conn_inv_server:
  assumes "conn_inv n s t" "dns_server R s = Some s'" "t < length (clients s)"
    "turn (d_pc s) \<le> length (clients s)"
  shows "conn_inv n s' t"
  using assms(2)
proof (cases rule: dns_server_cases)
  case (put k)
  then show ?thesis using assms(1)
    by (cases "k = t") (auto simp: conn_defs client_closed_def)
next
  case (get k)
  then show ?thesis using assms(1)
    by (cases "k = t") (auto simp: conn_defs client_closed_def)
next
  case (broken k)
  then show ?thesis using assms(1)
    by (cases "k = t") (auto simp: conn_defs client_closed_def)
qed (use assms(1,3,4) in \<open>auto simp: conn_defs\<close>)

text \<open>A client that has left while the server listens to it has had its last answer in the round before.\<close>

lemma closed_done:
  assumes "conn_inv n s t" "client_closed s t" "\<not> server_closed s"
  shows "in_flight s t = 0" "c_i (clients s ! t) = n"
  using assms by (auto simp: conn_inv_def Let_def client_closed_def)

lemma turn_inv_server:
  assumes ok: "counts_ok R ns" and inv: "turn_inv R ns s" "length (clients s) = length ns"
    and conn: "\<And>t. t < length ns \<Longrightarrow> conn_inv (ns ! t) s t" and step: "dns_server R s = Some s'"
  shows "turn_inv R ns s' \<and> length (clients s') = length ns"
proof -
  let ?K = "rounds_needed R (length ns)"
  have nb: "0 < length ns" "0 \<le> R" "R + int (length ns) < 2 ^ 31" using ok by (auto simp: counts_ok_def)
  note less = rounds_needed_less [OF nb(1), of "rounds s" R]
  from step show ?thesis
  proof (cases rule: dns_server_cases)
    case go
    then show ?thesis using inv less by (auto simp: turn_inv_def Let_def)
  next
    case finish
    then have "\<not> rounds s < ?K" using inv less by (auto simp: turn_inv_def Let_def)
    with finish inv show ?thesis by (auto simp: turn_inv_def Let_def)
  next
    case (get t)
    then show ?thesis using inv by (auto simp: turn_inv_def Let_def)
  next
    case (eof t)
    then have t: "t < length ns" "rounds s < ?K" using inv by (auto simp: turn_inv_def Let_def)
    have "\<not> server_closed s" using eof by (simp add: server_closed_def)
    from closed_done [OF conn [OF t(1)] eof(4) this] conn [OF t(1)] eof(1)
    have "ns ! t = int (rounds s)" by (auto simp: conn_inv_def Let_def in_flight_def served_def)
    with eof inv t show ?thesis by (auto simp: turn_inv_def Let_def intro!: exI [of _ t])
  next
    case (round t)
    then show ?thesis using inv by (auto simp: turn_inv_def Let_def algebra_simps)
  next
    case (put t)
    then have t: "t < length ns" "Suc (rounds s) \<le> ?K" "d_req s = int (length ns * rounds s + t)"
      using inv by (auto simp: turn_inv_def Let_def)
    have "length ns * Suc (rounds s) \<le> length ns * ?K" using t(2) by (rule mult_le_mono2)
    then have "int (length ns * rounds s + length ns) \<le> int (length ns * ?K)" by (simp only: of_nat_le_iff) simp
    then have "d_req s + 1 < 2 ^ 31"
      using rounds_needed_bound [OF nb(1,2)] nb(3) t(1,3) by linarith
    then have "c_int (d_req s + 1) = d_req s + 1" using t(3) by (intro c_int_id) simp_all
    with put inv t show ?thesis by (auto simp: turn_inv_def Let_def)
  next
    case (broken t)
    then have t: "t < length ns" using inv by (auto simp: turn_inv_def Let_def)
    have "\<not> server_closed s" using broken by (simp add: server_closed_def)
    from closed_done(1) [OF conn [OF t] broken(2) this] broken(1) show ?thesis by (simp add: in_flight_def)
  qed
qed

lemma conversation_inv_step:
  assumes "dns_step R ns s s'" "counts_ok R ns" "conversation_inv R ns s"
  shows "conversation_inv R ns s'"
  using assms(1)
proof cases
  case server
  have "turn (d_pc s) \<le> length (clients s)"
    using assms(3) by (auto simp: conversation_inv_def turn_inv_def Let_def)
  then show ?thesis
    using turn_inv_server [OF assms(2) _ _ _ server] conn_inv_server [OF _ server] assms(3)
    by (auto simp: conversation_inv_def)
next
  case (client t)
  have n: "ns ! t < 2 ^ 31"
    using client(1) assms(2,3) by (auto simp: conversation_inv_def counts_ok_def)
  have "conn_inv (ns ! j) s' j" if "j < length ns" for j
  proof (cases "j = t")
    case True
    then show ?thesis
      using conn_inv_client [OF _ client(2,1) n] that assms(3) by (auto simp: conversation_inv_def)
  next
    case False
    then show ?thesis
      using conn_inv_other [OF _ client(2)] that assms(3) by (auto simp: conversation_inv_def)
  qed
  with turn_inv_client [OF client(2), of R ns] assms(3) show ?thesis by (auto simp: conversation_inv_def)
qed

section \<open>Coming to rest\<close>

lemma conversation_stuck:
  assumes "conversation_inv R ns s" "\<nexists>s'. dns_step R ns s s'"
  shows "server_closed s" "\<forall>t<length ns. client_closed s t"
proof -
  have len: "length (clients s) = length ns" and conn: "\<And>t. t < length ns \<Longrightarrow> conn_inv (ns ! t) s t"
    using assms(1) by (simp_all add: conversation_inv_def)
  have cl: "client_closed s t \<or> (c_pc (clients s ! t) = C_recv \<and> down s t = 0 \<and> \<not> server_closed s)"
    if "t < length ns" for t
  proof -
    have "dns_client (ns ! t) t s = None"
      using assms(2) that len by (metis dns_step.client not_None_eq)
    then show ?thesis
      by (auto simp: dns_client_def Let_def client_closed_def split: client_pc.splits if_splits)
  qed
  have none: "dns_server R s = None" using assms(2) by (metis dns_step.server not_None_eq)
  show closed: "server_closed s"
  proof (rule ccontr)
    assume open_: "\<not> server_closed s"
    with none obtain t where t: "d_pc s = D_recv t" "t < length ns" "up s t = 0" "\<not> client_closed s t"
      by (auto simp: dns_server_def server_closed_def len split: server_pc.splits if_splits)
    with cl [OF t(2)] conn [OF t(2)] show False by (auto simp: conn_inv_def Let_def in_flight_def)
  qed
  show "\<forall>t<length ns. client_closed s t" using cl closed by blast
qed

fun client_left :: "int \<Rightarrow> client \<Rightarrow> nat" where
  "client_left n c = (case c_pc c of C_send \<Rightarrow> 2 * nat (n - c_i c) + 2 | C_recv \<Rightarrow> 2 * nat (n - c_i c) + 1 | _ \<Rightarrow> 0)"

definition server_left :: "nat \<Rightarrow> nat \<Rightarrow> server_pc \<Rightarrow> nat" where
  "server_left nb q p =
     (case p of D_loop \<Rightarrow> (2 * nb + 2) * q + 1 | D_recv t \<Rightarrow> (2 * nb + 2) * q - 2 * t
      | D_send t \<Rightarrow> (2 * nb + 2) * q - 2 * t - 1 | _ \<Rightarrow> 0)"

definition calls_left :: "int \<Rightarrow> int list \<Rightarrow> conversation \<Rightarrow> nat" where
  "calls_left R ns s =
     (\<Sum>t<length ns. client_left (ns ! t) (clients s ! t)) +
     server_left (length ns) (rounds_needed R (length ns) - rounds s) (d_pc s)"

lemma client_left_less:
  assumes "dns_client n t s = Some s'" "conn_inv n s t" "t < length (clients s)" "n < 2 ^ 31"
  shows "client_left n (clients s' ! t) < client_left n (clients s ! t)"
  using assms(1)
proof (cases rule: dns_client_cases)
  case answer
  have lt: "c_i (clients s ! t) < n" "0 \<le> c_i (clients s ! t)"
    using answer assms(2) by (auto simp: conn_inv_def Let_def)
  then have "c_int (c_i (clients s ! t) + 1) = c_i (clients s ! t) + 1"
    using assms(4) by (intro c_int_id) auto
  with answer lt assms(3) show ?thesis by simp
qed (use assms(3) in simp_all)

lemma client_keeps:
  assumes "dns_client n t s = Some s'"
  shows "j \<noteq> t \<Longrightarrow> clients s' ! j = clients s ! j" "d_pc s' = d_pc s" "rounds s' = rounds s"
  using assms by (cases rule: dns_client_cases; simp)+

lemma server_left_less:
  assumes "dns_server R s = Some s'" "turn_inv R ns s" "length (clients s) = length ns"
  defines "K \<equiv> rounds_needed R (length ns)"
  shows "server_left (length ns) (K - rounds s') (d_pc s') < server_left (length ns) (K - rounds s) (d_pc s)"
    "clients s' = clients s"
proof -
  have r: "(2 * length ns + 2) * (K - rounds s) = (2 * length ns + 2) * (K - Suc (rounds s)) + (2 * length ns + 2)"
    if "rounds s < K" using that by (metis Suc_diff_Suc add.commute mult_Suc_right)
  have q: "2 * length ns + 2 \<le> (2 * length ns + 2) * (K - rounds s)" if "rounds s < K"
    using r [OF that] by (metis le_add2)
  show "server_left (length ns) (K - rounds s') (d_pc s') < server_left (length ns) (K - rounds s) (d_pc s)"
    using assms(1)
  proof (cases rule: dns_server_cases)
    case (round t)
    then have "t = length ns" "rounds s < K" using assms(2,3) by (auto simp: turn_inv_def Let_def K_def)
    with round r show ?thesis by (simp add: server_left_def)
  qed (use assms(2,3) q in \<open>auto simp: turn_inv_def Let_def K_def server_left_def\<close>)
  show "clients s' = clients s" using assms(1) by (cases rule: dns_server_cases) simp_all
qed

lemma calls_left_less:
  assumes "dns_step R ns s s'" "counts_ok R ns" "conversation_inv R ns s"
  shows "calls_left R ns s' < calls_left R ns s"
  using assms(1)
proof cases
  case server
  have inv: "turn_inv R ns s" "length (clients s) = length ns"
    using assms(3) by (simp_all add: conversation_inv_def)
  show ?thesis
    using server_left_less(1) [OF server inv] unfolding calls_left_def server_left_less(2) [OF server inv] by simp
next
  case (client t)
  have t: "t < length ns" "conn_inv (ns ! t) s t" "ns ! t < 2 ^ 31"
    using client(1) assms(2,3) by (auto simp: conversation_inv_def counts_ok_def)
  have "(\<Sum>j<length ns. client_left (ns ! j) (clients s' ! j)) < (\<Sum>j<length ns. client_left (ns ! j) (clients s ! j))"
  proof (rule sum_strict_mono_ex1)
    show "\<forall>j\<in>{..<length ns}. client_left (ns ! j) (clients s' ! j) \<le> client_left (ns ! j) (clients s ! j)"
      using client_left_less [OF client(2) t(2) client(1) t(3)] client_keeps(1) [OF client(2)]
      by (metis order_refl less_imp_le)
    show "\<exists>j\<in>{..<length ns}. client_left (ns ! j) (clients s' ! j) < client_left (ns ! j) (clients s ! j)"
      using client_left_less [OF client(2) t(2) client(1) t(3)] t(1) by blast
  qed simp
  with client_keeps(2,3) [OF client(2)] show ?thesis by (simp add: calls_left_def)
qed

interpretation dns: step_system "dns_step R ns" "\<lambda>s. counts_ok R ns \<and> s = connected (length ns)"
    "\<lambda>s. counts_ok R ns \<and> conversation_inv R ns s" "calls_left R ns" for R ns
  by unfold_locales (auto intro: conversation_inv_init conversation_inv_step calls_left_less)

lemma conversation_result:
  assumes "conversation_inv R ns s" "\<nexists>s'. dns_step R ns s s'"
  defines "K \<equiv> int (rounds_needed R (length ns))"
  shows "d_pc s = D_returned \<longleftrightarrow> (\<forall>n\<in>set ns. K \<le> n)"
    and "d_pc s = D_returned \<Longrightarrow> t < length ns \<Longrightarrow> c_i (clients s ! t) = K \<and> (c_pc (clients s ! t) = C_done \<longleftrightarrow> ns ! t = K)"
proof -
  note stuck = conversation_stuck [OF assms(1,2)]
  have inv: "turn_inv R ns s" and conn: "\<And>t. t < length ns \<Longrightarrow> conn_inv (ns ! t) s t"
    using assms(1) by (simp_all add: conversation_inv_def)
  have got: "c_i (clients s ! t) = K \<and> (c_pc (clients s ! t) = C_done \<longleftrightarrow> ns ! t = K) \<and> K \<le> ns ! t"
    if "d_pc s = D_returned" "t < length ns" for t
    using conn [OF that(2)] stuck(2) that inv
    by (cases "c_pc (clients s ! t)")
      (auto simp: conn_inv_def Let_def client_closed_def in_flight_def served_def turn_inv_def K_def)
  show "t < length ns \<Longrightarrow> c_i (clients s ! t) = K \<and> (c_pc (clients s ! t) = C_done \<longleftrightarrow> ns ! t = K)"
    if "d_pc s = D_returned"
    using got [OF that] by blast
  have "\<exists>t<length ns. ns ! t < K" if "d_pc s = D_failed"
    using inv that by (auto simp: turn_inv_def Let_def K_def)
  moreover have "d_pc s = D_returned \<or> d_pc s = D_failed" using stuck(1) by (simp add: server_closed_def)
  ultimately show "d_pc s = D_returned \<longleftrightarrow> (\<forall>n\<in>set ns. K \<le> n)"
    using got by (metis in_set_conv_nth nth_mem not_le)
qed

section \<open>Properties\<close>

text \<open>
  C26. The request and response trial always ends: no run is infinite, and when nothing moves any more every
  process has left.  The server ends well exactly when every client has as many requests as the server
  needs rounds, the smallest \<open>K\<close> with \<open>request_count \<le> nb_client * K\<close>; then every client has had \<open>K\<close>
  answers, and a client ends well exactly when it wanted no more.
\<close>

theorem request_response_outcome:
  assumes "counts_ok R ns"
  defines "K \<equiv> int (rounds_needed R (length ns))"
  shows "(\<nexists>f. f 0 = connected (length ns) \<and> (\<forall>i. dns_step R ns (f i) (f (Suc i)))) \<and>
    (\<forall>s. (dns_step R ns)\<^sup>*\<^sup>* (connected (length ns)) s \<longrightarrow> (\<nexists>s'. dns_step R ns s s') \<longrightarrow>
       server_closed s \<and> (\<forall>t<length ns. client_closed s t) \<and>
       (d_pc s = D_returned \<longleftrightarrow> (\<forall>n\<in>set ns. K \<le> n)) \<and>
       (d_pc s = D_returned \<longrightarrow> (\<forall>t<length ns. c_i (clients s ! t) = K \<and>
          (c_pc (clients s ! t) = C_done \<longleftrightarrow> ns ! t = K))))"
proof (intro conjI allI impI)
  show "\<nexists>f. f 0 = connected (length ns) \<and> (\<forall>i. dns_step R ns (f i) (f (Suc i)))"
    using dns.no_infinite_run assms(1) by simp
next
  fix s
  assume run: "(dns_step R ns)\<^sup>*\<^sup>* (connected (length ns)) s" and stop: "\<nexists>s'. dns_step R ns s s'"
  have inv: "conversation_inv R ns s" using dns.inv_reachable [OF run] assms(1) by simp
  show "server_closed s" using conversation_stuck(1) [OF inv stop] .
  show "client_closed s t" if "t < length ns" for t using conversation_stuck(2) [OF inv stop] that by simp
  show "d_pc s = D_returned \<longleftrightarrow> (\<forall>n\<in>set ns. K \<le> n)"
    using conversation_result(1) [OF inv stop] by (simp add: K_def)
  show "c_i (clients s ! t) = K" "c_pc (clients s ! t) = C_done \<longleftrightarrow> ns ! t = K"
    if "d_pc s = D_returned" "t < length ns" for t
    using conversation_result(2) [OF inv stop that] by (simp_all add: K_def)
qed

text \<open>One client with one request.\<close>

definition demo_talk :: "server_pc \<Rightarrow> int \<Rightarrow> nat \<Rightarrow> client_pc \<Rightarrow> int \<Rightarrow> (nat \<Rightarrow> nat) \<Rightarrow> (nat \<Rightarrow> nat) \<Rightarrow> conversation" where
  "demo_talk p req r cp i u d =
     \<lparr>d_pc = p, d_req = req, rounds = r, clients = [\<lparr>c_pc = cp, c_i = i\<rparr>], up = u, down = d\<rparr>"

lemma demo_talk_server:
  "dns_server 1 (demo_talk p req r cp i u d) = Some s' \<Longrightarrow> dns_step 1 [1] (demo_talk p req r cp i u d) s'"
  by (rule dns_step.server)

lemma demo_talk_client:
  "dns_client 1 0 (demo_talk p req r cp i u d) = Some s' \<Longrightarrow> dns_step 1 [1] (demo_talk p req r cp i u d) s'"
  by (rule dns_step.client [of 0]) (simp_all add: demo_talk_def)

lemma demo_talk_done:
  "\<exists>u d. (dns_step 1 [1])\<^sup>*\<^sup>* (connected 1) (demo_talk D_returned 1 1 C_done 1 u d)"
proof -
  let ?z = "\<lambda>_. 0 :: nat"
  have s0: "connected 1 = demo_talk D_loop 0 0 C_send 0 ?z ?z" by (simp add: connected_def demo_talk_def)
  have s1: "dns_step 1 [1] (demo_talk D_loop 0 0 C_send 0 ?z ?z) (demo_talk (D_recv 0) 0 0 C_send 0 ?z ?z)"
    by (rule demo_talk_server) (simp add: dns_server_def demo_talk_def)
  have s2: "dns_step 1 [1] (demo_talk (D_recv 0) 0 0 C_send 0 ?z ?z) (demo_talk (D_recv 0) 0 0 C_recv 0 (?z(0 := 1)) ?z)"
    by (rule demo_talk_client) (simp add: dns_client_def demo_talk_def server_closed_def)
  have s3: "dns_step 1 [1] (demo_talk (D_recv 0) 0 0 C_recv 0 (?z(0 := 1)) ?z)
      (demo_talk (D_send 0) 0 0 C_recv 0 (?z(0 := 0)) ?z)"
    by (rule demo_talk_server) (simp add: dns_server_def demo_talk_def)
  have s4: "dns_step 1 [1] (demo_talk (D_send 0) 0 0 C_recv 0 (?z(0 := 0)) ?z)
      (demo_talk (D_recv 1) 1 0 C_recv 0 (?z(0 := 0)) (?z(0 := 1)))"
    by (rule demo_talk_server) (simp add: dns_server_def demo_talk_def client_closed_def c_int_id)
  have s5: "dns_step 1 [1] (demo_talk (D_recv 1) 1 0 C_recv 0 (?z(0 := 0)) (?z(0 := 1)))
      (demo_talk (D_recv 1) 1 0 C_send 1 (?z(0 := 0)) (?z(0 := 0)))"
    by (rule demo_talk_client) (simp add: dns_client_def demo_talk_def c_int_id)
  have s6: "dns_step 1 [1] (demo_talk (D_recv 1) 1 0 C_send 1 (?z(0 := 0)) (?z(0 := 0)))
      (demo_talk (D_recv 1) 1 0 C_done 1 (?z(0 := 0)) (?z(0 := 0)))"
    by (rule demo_talk_client) (simp add: dns_client_def demo_talk_def)
  have s7: "dns_step 1 [1] (demo_talk (D_recv 1) 1 0 C_done 1 (?z(0 := 0)) (?z(0 := 0)))
      (demo_talk D_loop 1 1 C_done 1 (?z(0 := 0)) (?z(0 := 0)))"
    by (rule demo_talk_server) (simp add: dns_server_def demo_talk_def)
  have s8: "dns_step 1 [1] (demo_talk D_loop 1 1 C_done 1 (?z(0 := 0)) (?z(0 := 0)))
      (demo_talk D_returned 1 1 C_done 1 (?z(0 := 0)) (?z(0 := 0)))"
    by (rule demo_talk_server) (simp add: dns_server_def demo_talk_def)
  note run = r_into_rtranclp [of "dns_step 1 [1]", OF s8]
  note run = converse_rtranclp_into_rtranclp [of "dns_step 1 [1]", OF s7 run]
  note run = converse_rtranclp_into_rtranclp [of "dns_step 1 [1]", OF s6 run]
  note run = converse_rtranclp_into_rtranclp [of "dns_step 1 [1]", OF s5 run]
  note run = converse_rtranclp_into_rtranclp [of "dns_step 1 [1]", OF s4 run]
  note run = converse_rtranclp_into_rtranclp [of "dns_step 1 [1]", OF s3 run]
  note run = converse_rtranclp_into_rtranclp [of "dns_step 1 [1]", OF s2 run]
  note run = converse_rtranclp_into_rtranclp [of "dns_step 1 [1]", OF s1 run]
  show ?thesis using run unfolding s0 by blast
qed

lemma demo_talk_stuck: "\<nexists>s'. dns_step 1 [1] (demo_talk D_returned 1 1 C_done 1 u d) s'"
  by (auto simp: demo_talk_def dns_server_def dns_client_def elim!: dns_step.cases)

theorem request_response_outcome_witness:
  "\<exists>s. (dns_step 1 [1])\<^sup>*\<^sup>* (connected 1) s \<and> server_closed s \<and> client_closed s 0 \<and> d_pc s = D_returned \<and>
     c_i (clients s ! 0) = 1"
proof -
  obtain u d where run: "(dns_step 1 [1])\<^sup>*\<^sup>* (connected (length [1 :: int])) (demo_talk D_returned 1 1 C_done 1 u d)"
    using demo_talk_done by auto
  have "counts_ok 1 [1]" by (simp add: counts_ok_def)
  from request_response_outcome [OF this] run demo_talk_stuck [of u d] have
    "server_closed (demo_talk D_returned 1 1 C_done 1 u d) \<and> client_closed (demo_talk D_returned 1 1 C_done 1 u d) 0 \<and>
     (d_pc (demo_talk D_returned 1 1 C_done 1 u d) = D_returned \<longrightarrow>
        c_i (clients (demo_talk D_returned 1 1 C_done 1 u d) ! 0) = int (rounds_needed 1 (length [1 :: int])))"
    by auto
  with run show ?thesis
    by (intro exI [of _ "demo_talk D_returned 1 1 C_done 1 u d"]) (simp add: demo_talk_def rounds_needed_def)
qed

end
