(* ===== verification/MessageQueueTrial.thy ===== *)
theory MessageQueueTrial
  imports Prelude
begin

text \<open>
  The message queue trial (\<open>exploration/posix_mq/client.c\<close> and \<open>server.c\<close>): a client sends a struct as the
  bytes of a message, and then the text \<open>exit\<close> that stops the server.  Messages are byte lists of
  \<open>MAX_SIZE\<close> bytes in the order they were sent; the buffers of the two programs are memories of their
  own, at address 0.
\<close>

section \<open>Definitions\<close>

definition MAX_SIZE :: nat where
  "MAX_SIZE = 1024"

definition MSG_STOP :: "byte list" where
  "MSG_STOP = [101, 120, 105, 116]"

definition Data_struct :: struct where
  "Data_struct = [(''v'', CInt), (''c'', CChars 1), (''f'', CFloat)]"

text \<open>A \<open>float\<close> is its bits.\<close>

record Data =
  d_v :: cint
  d_c :: byte
  d_f :: cint

text \<open>
  \<open>memcpy (buffer, &d1, sizeof (struct Data))\<close>; \<open>pad\<close> are the three bytes between \<open>c\<close> and \<open>f\<close>, which the
  program does not set.
\<close>

definition copy_data :: "Data \<Rightarrow> (nat \<Rightarrow> byte) \<Rightarrow> mem \<Rightarrow> mem" where
  "copy_data d pad m =
     store32 (store_bytes (store32 m (offset_of Data_struct ''v'') (d_v d))
       (offset_of Data_struct ''c'') [d_c d, pad 0, pad 1, pad 2])
       (offset_of Data_struct ''f'') (d_f d)"

definition Data_at :: "mem \<Rightarrow> Data" where
  "Data_at m =
     \<lparr>d_v = load32 m (offset_of Data_struct ''v''), d_c = m (offset_of Data_struct ''c''),
      d_f = load32 m (offset_of Data_struct ''f'')\<rparr>"

text \<open>What \<open>mq_send\<close> takes from the buffer of the client for the struct and for the stop text.\<close>

definition clear_buffer :: "mem \<Rightarrow> mem" where
  "clear_buffer m = store_bytes m 0 (replicate MAX_SIZE 0)"

definition data_message :: "Data \<Rightarrow> (nat \<Rightarrow> byte) \<Rightarrow> mem \<Rightarrow> byte list" where
  "data_message d pad m = load_bytes (copy_data d pad (clear_buffer m)) 0 MAX_SIZE"

definition stop_message :: "mem \<Rightarrow> byte list" where
  "stop_message m = load_bytes (store_bytes (clear_buffer m) 0 (MSG_STOP @ [0])) 0 MAX_SIZE"

text \<open>\<open>main\<close> of the client: the messages it sends.\<close>

definition d1 :: Data where
  "d1 = \<lparr>d_v = 10, d_c = 122, d_f = 0x41133333\<rparr>"

definition mq_client :: "(nat \<Rightarrow> byte) \<Rightarrow> mem \<Rightarrow> byte list list" where
  "mq_client pad m =
     [data_message d1 pad m, stop_message (copy_data d1 pad (clear_buffer m))]"

text \<open>
  \<open>main\<close> of the server on the results of its calls of \<open>mq_receive\<close> (\<open>None\<close> is -1): the structs it prints,
  and whether it has stopped.  \<open>buffer[bytes_read] = 0\<close> after a failed call writes in front of the buffer.
\<close>

fun mq_server :: "byte list option list \<Rightarrow> mem \<Rightarrow> Data list \<Rightarrow> (Data list \<times> bool) res" where
  "mq_server [] buffer out = Inr (out, False)"
| "mq_server (None # rs) buffer out = Inl OutOfBounds"
| "mq_server (Some bs # rs) buffer out =
     (let buffer' = store_bytes (store_bytes buffer 0 bs) (length bs) [0] in
      if load_bytes buffer' 0 (length MSG_STOP) = MSG_STOP then Inr (out, True)
      else mq_server rs buffer' (out @ [Data_at buffer']))"

section \<open>What the server sees\<close>

lemma Data_layout [simp]:
  "offset_of Data_struct ''v'' = 0" "offset_of Data_struct ''c'' = 4" "offset_of Data_struct ''f'' = 8"
  "sizeof Data_struct = 12"
  by code_simp+

lemma received_agree:
  "length bs = n \<Longrightarrow> i < n \<Longrightarrow> store_bytes (store_bytes m 0 bs) n [0] i = bs ! i"
  by (simp add: store_bytes_def)

lemma load_bytes_nth: "i < n \<Longrightarrow> load_bytes m a n ! i = m (a + i)"
  by (simp add: load_bytes_def)

lemma MSG_STOP_le: "to_le 4 (unat (w :: cint)) = MSG_STOP \<longleftrightarrow> w = 0x74697865"
proof
  assume "to_le 4 (unat w) = MSG_STOP"
  then have "(of_nat (of_le (to_le 4 (unat w))) :: cint) = of_nat (of_le MSG_STOP)" by simp
  then show "w = 0x74697865" by (simp add: MSG_STOP_def)
next
  have "to_le (Suc (Suc (Suc (Suc 0)))) 0x74697865 = MSG_STOP" by (simp add: MSG_STOP_def)
  moreover have "Suc (Suc (Suc (Suc 0))) = 4" by simp
  ultimately have "to_le 4 0x74697865 = MSG_STOP" by metis
  then show "w = 0x74697865 \<Longrightarrow> to_le 4 (unat w) = MSG_STOP" by simp
qed

text \<open>A message of the client in the buffer of the server.\<close>

lemma data_message_seen:
  "load_bytes (store_bytes (store_bytes m 0 (data_message d pad m0)) (length (data_message d pad m0)) [0]) 0 4 =
     to_le 4 (unat (d_v d))" (is "load_bytes ?b 0 4 = _")
  "Data_at (store_bytes (store_bytes m 0 (data_message d pad m0)) (length (data_message d pad m0)) [0]) = d"
proof -
  let ?c = "copy_data d pad (clear_buffer m0)"
  have ag: "agree_on 0 12 ?c ?b"
    by (simp add: agree_on_def received_agree data_message_def load_bytes_nth MAX_SIZE_def)
  have "load_bytes ?c 0 4 = to_le 4 (unat (d_v d))"
    by (simp add: copy_data_def mem_simps load_store_bytes_disjoint) (simp add: store32_def load_store_bytes_same)
  then show "load_bytes ?b 0 4 = to_le 4 (unat (d_v d))" using load_bytes_agree [OF ag, of 0 4] by simp
  have "load32 ?c 0 = d_v d" "load32 ?c 8 = d_f d" by (simp_all add: copy_data_def mem_simps)
  moreover have "?c 4 = d_c d" by (simp add: copy_data_def store32_outside store_bytes_def)
  ultimately show "Data_at ?b = d"
    using load32_agree [OF ag, of 0] load32_agree [OF ag, of 8] ag by (simp add: Data_at_def agree_on_def)
qed

lemma stop_message_seen:
  "load_bytes (store_bytes (store_bytes m 0 (stop_message m0)) (length (stop_message m0)) [0]) 0 4 = MSG_STOP"
  (is "load_bytes ?b 0 4 = _")
proof -
  let ?c = "store_bytes (clear_buffer m0) 0 (MSG_STOP @ [0])"
  have "agree_on 0 4 ?c ?b"
    by (simp add: agree_on_def received_agree stop_message_def load_bytes_nth MAX_SIZE_def)
  then have "load_bytes ?b 0 4 = load_bytes ?c 0 4" using load_bytes_agree [of 0 4 ?c ?b 0 4] by simp
  also have "\<dots> = MSG_STOP" by (simp add: load_store_bytes_prefix MSG_STOP_def)
  finally show ?thesis .
qed

text \<open>
  C31. A struct that a client sends is printed by the server as it was sent, whatever the buffers held
  before, until the stop message ends the server, which looks at nothing behind it; but the server
  takes the bytes of a struct for the stop message when its first member is \<open>0x74697865\<close>, the
  characters \<open>exit\<close>.
\<close>

theorem mq_trial_outcome:
  "mq_server (map (\<lambda>d. Some (data_message d pad m0)) ds @ Some (stop_message m1) # rest) m out =
     Inr (out @ takeWhile (\<lambda>d. d_v d \<noteq> 0x74697865) ds, True)"
proof (induction ds arbitrary: m out)
  case Nil
  have "length MSG_STOP = 4" by (simp add: MSG_STOP_def)
  then show ?case using stop_message_seen by (simp add: Let_def)
next
  case (Cons d ds)
  have "length MSG_STOP = 4" by (simp add: MSG_STOP_def)
  then show ?case
    using Cons.IH data_message_seen [of m d pad m0] MSG_STOP_le [of "d_v d"] by (simp add: Let_def)
qed

text \<open>The two programs together.\<close>

theorem mq_trial_outcome_witness:
  "mq_server (map Some (mq_client (\<lambda>_. 7) (\<lambda>_. 8))) (\<lambda>_. 9) [] = Inr ([d1], True)"
  using mq_trial_outcome [of "\<lambda>_. 7" "\<lambda>_. 8" "[d1]" _ "[]" "\<lambda>_. 9" "[]"] by (simp add: mq_client_def d1_def)

end
