(* ===== verification/SharedMemoryTrial.thy ===== *)
theory SharedMemoryTrial
  imports SharedIpc
begin

text \<open>
  The shared-memory trial (\<open>exploration/shared_memory/client.c\<close> and \<open>server.c\<close>), from which \<open>shared_ipc.c\<close>
  was made: the client produces 50000 items and the server consumes 100000, so that the pair that the
  directory holds does not fit together.  The buffer, the semaphores and the loop of the client are
  those of \<open>SharedIpc\<close>; the server prints what it takes instead of appending it to a list.  A simulation
  by \<open>ipc_step\<close> carries its invariant and its measure over.
\<close>

section \<open>Definitions\<close>

definition trial_client :: "prod_cons_shared \<Rightarrow> sender \<Rightarrow> (prod_cons_shared \<times> sender) res option" where
  "trial_client = send_proc 50000"

text \<open>One statement of the server; the list members of \<open>receiver\<close> are not used.\<close>

definition trial_server :: "prod_cons_shared \<Rightarrow> receiver \<Rightarrow> (prod_cons_shared \<times> receiver) res option" where
  "trial_server sh r =
     (case r_pc r of
        R_wait_full \<Rightarrow>
          if r_i r < 100000
          then (if 0 < sem_full_addr sh
                then Some (Inr (sh\<lparr>sem_full_addr := sem_full_addr sh - 1\<rparr>, r\<lparr>r_pc := R_wait_mutex\<rparr>))
                else None)
          else Some (Inr (sh, r\<lparr>r_pc := R_rmid\<rparr>))
      | R_wait_mutex \<Rightarrow>
          if 0 < sem_mutex_addr sh
          then Some (Inr (sh\<lparr>sem_mutex_addr := sem_mutex_addr sh - 1\<rparr>, r\<lparr>r_pc := R_read\<rparr>))
          else None
      | R_read \<Rightarrow>
          if 0 \<le> out_pos sh \<and> nat (out_pos sh) < length (buffer sh)
          then Some (Inr (sh, r\<lparr>r_pc := R_out, r_item := buffer sh ! nat (out_pos sh)\<rparr>))
          else Some (Inl OutOfBounds)
      | R_out \<Rightarrow>
          Some (Inr (sh\<lparr>out_pos := c_int (out_pos sh + 1) smod int BUFFER_SIZE\<rparr>, r\<lparr>r_pc := R_count\<rparr>))
      | R_count \<Rightarrow> Some (Inr (sh\<lparr>count := c_int (count sh - 1)\<rparr>, r\<lparr>r_pc := R_post_mutex\<rparr>))
      | R_post_mutex \<Rightarrow>
          Some (Inr (sh\<lparr>sem_mutex_addr := sem_mutex_addr sh + 1\<rparr>, r\<lparr>r_pc := R_post_empty\<rparr>))
      | R_post_empty \<Rightarrow>
          Some (Inr (sh\<lparr>sem_empty_addr := sem_empty_addr sh + 1\<rparr>, r\<lparr>r_pc := R_consume\<rparr>))
      | R_consume \<Rightarrow> Some (Inr (sh, r\<lparr>r_pc := R_wait_full, r_i := c_int (r_i r + 1)\<rparr>))
      | R_rmid \<Rightarrow> Some (Inr (sh, r\<lparr>r_pc := R_return, r_removed := True\<rparr>))
      | R_return \<Rightarrow> None
      | R_exited \<Rightarrow> None)"

inductive trial_step :: "ipc \<Rightarrow> ipc \<Rightarrow> bool" where
  produce: "k < length (senders s) \<Longrightarrow> p = senders s ! k \<Longrightarrow>
    trial_client (shared_stuff s) p = Some (Inr (sh, p')) \<Longrightarrow>
    trial_step s
      (s\<lparr>shared_stuff := sh, senders := (senders s)[k := p'],
         sent := (if s_pc p = S_in then sent s @ [(k, s_i p)] else sent s)\<rparr>)"
| consume: "trial_server (shared_stuff s) (server s) = Some (Inr (sh, r)) \<Longrightarrow>
    trial_step s
      (s\<lparr>shared_stuff := sh, server := r,
         taken := (if r_pc (server s) = R_out then taken s @ [r_item (server s)] else taken s)\<rparr>)"

text \<open>The server has initialised the segment, and \<open>n\<close> clients are attached.\<close>

definition trial_start :: "nat \<Rightarrow> prod_cons_shared \<Rightarrow> ipc" where
  "trial_start n sh =
     \<lparr>shared_stuff = init_shared sh, senders = replicate n \<lparr>s_pc = S_wait_empty, s_i = 0\<rparr>,
      server = \<lparr>r_pc = R_wait_full, r_i = 0, r_item = 0, r_heap = Map.empty, r_list = 0, r_pos = None, r_removed = False\<rparr>,
      sent = [], taken = []\<rparr>"

text \<open>How each program goes on from the result of \<open>shmget\<close> and \<open>shmat\<close>.\<close>

definition trial_main :: "int \<Rightarrow> int \<Rightarrow> bool list \<Rightarrow> int + unit" where
  "trial_main shmid addr sem_inits =
     (if shmid < 0 then Inl (-1)
      else if addr = -1 then Inl (-1)
      else if False \<in> set sem_inits then Inl (-1)
      else Inr ())"

section \<open>Simulation by the benchmark\<close>

text \<open>The same state with a list that the server of the benchmark would have built.\<close>

definition with_list :: "ipc \<Rightarrow> node_heap \<Rightarrow> addr \<Rightarrow> addr option \<Rightarrow> ipc" where
  "with_list s h L q = s\<lparr>server := (server s)\<lparr>r_heap := h, r_list := L, r_pos := q\<rparr>\<rparr>"

lemma with_list_sel [simp]:
  "shared_stuff (with_list s h L q) = shared_stuff s" "senders (with_list s h L q) = senders s"
  "sent (with_list s h L q) = sent s" "taken (with_list s h L q) = taken s"
  "r_pc (server (with_list s h L q)) = r_pc (server s)" "r_i (server (with_list s h L q)) = r_i (server s)"
  "r_heap (server (with_list s h L q)) = h"
  "server (with_list s h L q) = (server s)\<lparr>r_heap := h, r_list := L, r_pos := q\<rparr>"
  by (simp_all add: with_list_def)

lemma trial_server_other:
  assumes "trial_server sh r = Some (Inr (sh', r'))" "r_pc r \<noteq> R_consume"
  shows "recv_proc 2 50000 us blk sh (r\<lparr>r_heap := h, r_list := L, r_pos := q\<rparr>) =
    Some (Inr (sh', r'\<lparr>r_heap := h, r_list := L, r_pos := q\<rparr>))"
  using assms by (cases "r_pc r") (auto simp: trial_server_def recv_proc_def c_int_id split: if_splits)

definition trial_inv :: "nat \<Rightarrow> ipc \<Rightarrow> bool" where
  "trial_inv n s \<longleftrightarrow> length (senders s) = n \<and> r_pc (server s) \<noteq> R_exited \<and>
     (\<exists>h L q. ipc_inv 2 50000 10 (with_list s h L q) \<and> finite (dom h))"

lemma trial_args: "args_ok 2 50000"
  by (simp add: args_ok_def)

lemma trial_simulated:
  assumes "trial_step s s'" "ipc_inv 2 50000 10 (with_list s h L q)" "finite (dom h)"
  shows "\<exists>h' q'. ipc_step 2 50000 10 (with_list s h L q) (with_list s' h' L q') \<and> finite (dom h')"
  using assms(1)
proof cases
  case (produce k p sh p')
  have eq: "with_list s' h L q = (with_list s h L q)\<lparr>shared_stuff := sh, senders := (senders (with_list s h L q))[k := p'],
      sent := (if s_pc p = S_in then sent (with_list s h L q) @ [(k, s_i p)] else sent (with_list s h L q))\<rparr>"
    by (simp add: produce(1) with_list_def)
  have "ipc_step 2 50000 10 (with_list s h L q) (with_list s' h L q)"
    unfolding eq by (rule ipc_step.send) (use produce in \<open>simp_all add: trial_client_def\<close>)
  then show ?thesis using assms(3) by blast
next
  case (consume sh r)
  show ?thesis
  proof (cases "r_pc (server s) = R_consume")
    case False
    have eq: "with_list s' h L q = (with_list s h L q)\<lparr>shared_stuff := sh,
        server := r\<lparr>r_heap := h, r_list := L, r_pos := q\<rparr>,
        taken := (if r_pc (server (with_list s h L q)) = R_out
          then taken (with_list s h L q) @ [r_item (server (with_list s h L q))] else taken (with_list s h L q))\<rparr>"
      by (simp add: consume(1) with_list_def)
    have "ipc_step 2 50000 10 (with_list s h L q) (with_list s' h L q)"
      unfolding eq by (rule ipc_step.recv [of _ _ _ None])
        (use trial_server_other [OF consume(2) False, where us = 10 and blk = None and h = h and L = L and q = q] in simp_all)
    then show ?thesis using assms(3) by blast
  next
    case True
    obtain b where b: "b \<notin> dom h" using assms(3) ex_new_if_finite [OF infinite_UNIV_nat] by blast
    have built: "built 10 h L q (r_i (server s))" "0 \<le> r_i (server s)"
      using assms(2) by (simp_all add: ipc_inv_def server_inv_def Let_def)
    obtain h' q' where ins: "insert_advance (word_of_int 10) h q (Some b) = Inr (h', q')" "dom h' = insert b (dom h)"
      using insert_advance_built [OF built b] by blast
    have r: "r = (server s)\<lparr>r_pc := R_wait_full, r_i := c_int (r_i (server s) + 1)\<rparr>" "sh = shared_stuff s"
      using consume(2) True by (simp_all add: trial_server_def)
    have eq: "with_list s' h' L q' = (with_list s h L q)\<lparr>shared_stuff := sh,
        server := r\<lparr>r_heap := h', r_list := L, r_pos := q'\<rparr>,
        taken := (if r_pc (server (with_list s h L q)) = R_out
          then taken (with_list s h L q) @ [r_item (server (with_list s h L q))] else taken (with_list s h L q))\<rparr>"
      by (simp add: consume(1) with_list_def)
    have "ipc_step 2 50000 10 (with_list s h L q) (with_list s' h' L q')"
      unfolding eq by (rule ipc_step.recv [of _ _ _ "Some b"])
        (use True ins b in \<open>simp_all add: recv_proc_def r\<close>)
    then show ?thesis using ins(2) assms(3) by (metis finite.insertI)
  qed
qed

lemma trial_inv_start: "trial_inv n (trial_start n sh)"
proof -
  have eq: "with_list (trial_start n sh) [0 \<mapsto> \<lparr>Element = 0, Next = None\<rparr>] 0 (Header (Some 0)) =
      init_ipc n sh Map.empty 0 \<lparr>Element = 0, Next = None\<rparr>"
    by (simp add: with_list_def trial_start_def init_ipc_def)
  have "ipc_inv 2 50000 10 (with_list (trial_start n sh) [0 \<mapsto> \<lparr>Element = 0, Next = None\<rparr>] 0 (Header (Some 0)))"
    unfolding eq using ipc_inv_init [OF trial_args] .
  moreover have "length (senders (trial_start n sh)) = n" "r_pc (server (trial_start n sh)) \<noteq> R_exited"
    by (simp_all add: trial_start_def)
  ultimately show ?thesis unfolding trial_inv_def by (metis dom_empty dom_fun_upd finite.emptyI finite.insertI option.discI)
qed

lemma trial_inv_step:
  assumes "trial_step s s'" "trial_inv n s"
  shows "trial_inv n s'" "ipc_measure 2 50000 s' < ipc_measure 2 50000 s"
proof -
  obtain h L q where inv: "ipc_inv 2 50000 10 (with_list s h L q)" "finite (dom h)" "length (senders s) = n"
    using assms(2) by (auto simp: trial_inv_def)
  obtain h' q' where st: "ipc_step 2 50000 10 (with_list s h L q) (with_list s' h' L q')" "finite (dom h')"
    using trial_simulated [OF assms(1) inv(1,2)] by blast
  have "length (senders s') = n" using ipc_step_clients [OF st(1)] inv(3) by simp
  moreover have "r_pc (server s') \<noteq> R_exited"
    using assms(1)
  proof cases
    case (consume sh r)
    then show ?thesis by (cases "r_pc (server s)") (auto simp: trial_server_def split: if_splits)
  qed (use assms(2) in \<open>simp add: trial_inv_def\<close>)
  ultimately show "trial_inv n s'"
    using ipc_inv_step [OF st(1) inv(1) trial_args] st(2) by (auto simp: trial_inv_def)
  have "ipc_measure 2 50000 (with_list u g M p) = ipc_measure 2 50000 u" for u g M p
    by (simp add: ipc_measure_def)
  then show "ipc_measure 2 50000 s' < ipc_measure 2 50000 s"
    using ipc_measure_less [OF st(1) inv(1) trial_args] by simp
qed

interpretation trial: step_system trial_step "\<lambda>s. \<exists>sh. s = trial_start n sh" "trial_inv n" "ipc_measure 2 50000" for n
  by unfold_locales (use trial_inv_start trial_inv_step in blast)+

text \<open>When the trial cannot move, the benchmark in the same state cannot either.\<close>

lemma trial_server_blocked:
  assumes "\<And>x. trial_server sh r \<noteq> Some (Inr x)"
  shows "recv_proc 2 50000 us blk sh (r\<lparr>r_heap := h, r_list := L, r_pos := q\<rparr>) \<noteq> Some (Inr y)"
    and "recv_proc 2 50000 us blk sh (r\<lparr>r_heap := h, r_list := L, r_pos := q\<rparr>) \<noteq> Some (Inl (ExitCall e))"
  using assms by (cases "r_pc r"; auto simp: trial_server_def recv_proc_def c_int_id split: if_splits)+

lemma trial_stuck:
  assumes "\<nexists>s'. trial_step s s'"
  shows "\<not> ipc_step 2 50000 10 (with_list s h L q) s'"
proof
  assume "ipc_step 2 50000 10 (with_list s h L q) s'"
  then show False
  proof cases
    case (send k p sh p')
    then show False using assms trial_step.produce [of k s p sh p'] by (auto simp: trial_client_def)
  next
    case (recv blk sh r)
    have "trial_server (shared_stuff s) (server s) \<noteq> Some (Inr x)" for x
      using assms trial_step.consume [of s "fst x" "snd x"] by auto
    from trial_server_blocked(1) [OF this] recv show False by simp
  next
    case (oom e)
    have "trial_server (shared_stuff s) (server s) \<noteq> Some (Inr x)" for x
      using assms trial_step.consume [of s "fst x" "snd x"] by auto
    from trial_server_blocked(2) [OF this] oom show False by simp
  qed
qed

text \<open>
  C27. The trial comes to rest for every number \<open>n\<close> of clients, and the server ends exactly when there are at
  least two of them: with fewer it has taken everything that was produced and waits for ever.  With two
  all processes end, with more the others wait for ever for room in the buffer.
\<close>

theorem shared_memory_trial_outcome:
  "(\<nexists>f. f 0 = trial_start n sh \<and> (\<forall>i. trial_step (f i) (f (Suc i)))) \<and>
   (\<forall>s. trial_step\<^sup>*\<^sup>* (trial_start n sh) s \<longrightarrow> (\<nexists>s'. trial_step s s') \<longrightarrow>
      (if n < 2
       then r_pc (server s) = R_wait_full \<and> length (taken s) = n * 50000 \<and>
         (\<forall>k<n. s_pc (senders s ! k) = S_return)
       else r_pc (server s) = R_return \<and> length (taken s) = 100000 \<and>
         ((\<forall>k<n. s_pc (senders s ! k) = S_return) \<longleftrightarrow> n = 2)) \<and>
      taken s = map snd (take (length (taken s)) (sent s)))"
proof (intro conjI allI impI)
  show "\<nexists>f. f 0 = trial_start n sh \<and> (\<forall>i. trial_step (f i) (f (Suc i)))"
    by (rule trial.no_infinite_run) blast
next
  fix s
  assume run: "trial_step\<^sup>*\<^sup>* (trial_start n sh) s" and stop: "\<nexists>s'. trial_step s s'"
  have "trial_inv n s" by (rule trial.inv_reachable [OF run]) blast
  then obtain h L q where inv: "ipc_inv 2 50000 10 (with_list s h L q)" and n: "length (senders s) = n"
    and run: "r_pc (server s) \<noteq> R_exited"
    by (auto simp: trial_inv_def)
  have st: "senders_inv 50000 (with_list s h L q)" "server_inv 2 50000 10 (with_list s h L q)"
    "buf_inv (with_list s h L q)"
    using inv by (simp_all add: ipc_inv_def)
  show "taken s = map snd (take (length (taken s)) (sent s))" using st(3) by (simp add: buf_inv_def Let_def)
  have sent: "length (sent s) = n * 50000" if "\<forall>k<n. s_pc (senders s ! k) = S_return"
    using sent_total [OF st(1)] that n by simp
  have taken: "length (taken s) = 100000" if "r_pc (server s) = R_return"
    using st(2) that by (simp add: server_inv_def Let_def)
  note res = stuck_server [OF inv trial_args trial_stuck [OF stop]]
  show "if n < 2
       then r_pc (server s) = R_wait_full \<and> length (taken s) = n * 50000 \<and> (\<forall>k<n. s_pc (senders s ! k) = S_return)
       else r_pc (server s) = R_return \<and> length (taken s) = 100000 \<and> ((\<forall>k<n. s_pc (senders s ! k) = S_return) \<longleftrightarrow> n = 2)"
  proof (cases "n < 2")
    case True
    with res run n sent show ?thesis by auto
  next
    case False
    with res run n taken show ?thesis by (auto simp: BUFFER_SIZE_def)
  qed
qed

theorem shared_memory_trial_outcome_witness:
  "\<exists>s. trial_step\<^sup>*\<^sup>* (trial_start 1 init_demo) s \<and> (\<nexists>s'. trial_step s s') \<and>
     r_pc (server s) = R_wait_full \<and> length (taken s) = 50000"
proof -
  obtain s where s: "trial_step\<^sup>*\<^sup>* (trial_start 1 init_demo) s" "\<nexists>s'. trial_step s s'"
    using trial.comes_to_rest [of "trial_start 1 init_demo" 1 "trial_start 1 init_demo"] by blast
  with shared_memory_trial_outcome [of 1 init_demo] show ?thesis by auto
qed

end
