(* ===== verification/Spec2Isabelle.thy ===== *)
theory Spec2Isabelle
  imports ClientTask TimeHelper SimpleTasks WeatherTasks NanoBench
    NetworkRoom ServiceRuns TestPrograms WakeUp MessageTyping MessageLife SortPrograms RequestResponse MessageQueueTrial SharedMemoryTrial
begin

text \<open>
  Verification of the TaskSystem message-passing framework and of the benchmarks beside it.

  \<^bold>\<open>The program.\<close>  \<open>TaskSystem\<close> is a C framework in which tasks (threads, in one or several processes)
  exchange typed messages.  A message is an object with a table of methods (\<open>src/Messages\<close>,
  \<open>include/TaskSystem/Messages\<close>).  A task owns a queue (\<open>src/MsgQueue/CircularMsgQ.c\<close>): a ring of bytes in
  a named shared-memory segment, into which a sender writes its message with \<open>writeAt\<close> and from which
  the receiver, who may have mapped the segment elsewhere, re-binds and clones it.  The \<open>System\<close> object
  (\<open>src/System/System.c\<close>) hands out task identifiers, finds queues by identifier, keeps a repository of
  task names in shared memory and wakes sleepers.  On top of it are the tasks of \<open>src/Tasks\<close>: a
  database and its client, a parallel sample sort (a root and K buckets), a weather station and its
  clients, and the Papa, Foo and Baz examples.  \<open>nano_benchmarking\<close> compares ways of passing messages
  between processes with small programs that all append to a linked list, and \<open>exploration\<close> holds the
  trials that came before both.

  \<^bold>\<open>Theories.\<close>
  \<^item> \<open>Prelude\<close>: C scalars as words, struct layout for LP64, byte-addressed memory, failures as values of
    \<open>fault + 'a\<close>, C strings and decimal numerals.
  \<^item> \<open>StepSystem\<close>: the locale \<open>step_system\<close> of a step relation with an invariant and a measure, from which
    a run ends and comes to rest; every concurrent program below interprets it on its own steps.
  \<^item> \<open>Messages\<close>, \<open>MessageCodec\<close>: the nine message classes field by field and method by method, and the
    contract of \<open>writeAt\<close>, \<open>rebind\<close> and \<open>clone\<close>; \<open>message_transfer\<close> in \<open>CircularMsgQ\<close> is the round trip.
  \<^item> \<open>MessageTyping\<close>: which messages the constructors, setters, clones and receivers can build, as an
    inductive predicate that separates messages that are ready from those whose array is not set; it
    implies the well-formedness the other theories ask for.  \<open>MessageLife\<close>: the blocks that messages
    own, and \<open>destroy\<close>.
  \<^item> \<open>RingBuffer\<close>, \<open>CircularMsgQ\<close>: the ring as a state of head, tail, size and rollover position.  The
    locale \<open>item_codec\<close> is what a ring needs of its items, \<open>bounded_fifo\<close> what it promises; the sublocale
    \<open>ring\<close> proves the second from the first, and \<open>CircularMsgQ\<close> interprets both on the bytes that
    \<open>Enqueue\<close>, \<open>Dequeue\<close> and \<open>Peek\<close> touch.
  \<^item> \<open>QueueCapacity\<close>: a stronger invariant of the same queue (a second interpretation of \<open>bounded_fifo\<close>)
    that bounds what a roll-over wastes, the room a client can rely on, and the unit test of the queue.
  \<^item> \<open>SystemCore\<close>: task identifiers, queue names, the name repository byte by byte, creation and
    acquisition of the system segment, the wake-up scan.
  \<^item> \<open>Network\<close>: several processes, their mappings and their queues, with \<open>send\<close> and \<open>receive\<close> by
    identifier; the locale \<open>mailboxes\<close> is the abstract view (one list per task), interpreted on it.
  \<^item> \<open>TaskComm\<close>: what a task sees of its own queue (\<open>getMsgTag\<close>, \<open>receive\<close>, \<open>dropMsg\<close>), as the locale
    \<open>task_comm\<close> over \<open>mailboxes\<close>, interpreted on the network.  The task theories work on inboxes, the
    lists this interface gives.
  \<^item> \<open>NetworkRoom\<close>: the locale \<open>roomy_comm\<close> extends \<open>task_comm\<close> by the promise that a message is accepted
    while few others wait; it is interpreted on the network with the bound of \<open>QueueCapacity\<close> in the invariant.
  \<^item> \<open>WakeUp\<close>: tasks that sleep on their condition variables, the senders and the signalling thread of
    \<open>System.c\<close> as a step relation over the inboxes.
  \<^item> \<open>DatabaseTask\<close>, \<open>ClientTask\<close>: the records, the request types, the loops; refinement of a list of
    records, and the composition of a client with the database.
  \<^item> \<open>DatabaseService\<close>, \<open>ServiceRuns\<close>: the loops of the database and of any number of clients as a step
    relation over the byte-level network, one call into \<open>System.c\<close> per step.  The invariant says which
    request or response of each client is on the way; with \<open>roomy_comm\<close> no send is refused, a measure
    (four steps per request in the database, three in its client) ends every run, and a state without a
    step is one in which everything has been served as the abstract server would.
  \<^item> \<open>ServicePrograms\<close>: \<open>db_server_test.c\<close> and \<open>db_client_test.c\<close> from their command lines on (\<open>atoi\<close>, the system
    segment, task identifiers, queues, the name of the database), and that the service they start is one of
    \<open>ServiceRuns\<close>.  \<open>TestPrograms\<close>: the other small programs under \<open>TaskSystem/test\<close>.
  \<^item> \<open>BucketTask\<close>, \<open>SampleSortTask\<close>: the rounds of the sample sort on a heap of integer arrays, the
    uniform random numbers, and the end-to-end theorem that the buckets' results are the sorted data.
  \<^item> \<open>SortPrograms\<close>: the programs that make the data and start the sort, and the sequential program it
    is compared with.
  \<^item> \<open>SimpleTasks\<close>, \<open>WeatherTasks\<close>, \<open>TimeHelper\<close>: the other tasks and the time arithmetic.
  \<^item> \<open>LinkedList\<close>: \<open>common/list.c\<close> on a heap of nodes, where loops that follow links are partial
    functions; \<open>is_list\<close> relates a header to the nodes behind it.
  \<^item> \<open>SharedIpc\<close>: the producers and the consumer of \<open>shared_ipc.c\<close> as a step relation, one C statement per
    step; the invariant gives exclusion, order and bounds, a measure termination, and a case analysis
    of the states without a step that they are final.
  \<^item> \<open>Benchmarks\<close>, \<open>NanoBench\<close>: the threads under a mutex, with the thread that starts and joins them, in the
    same style, and the servers that poll pipes, sockets and nanomsg sockets, whose calls return what
    an argument says, with the loops that send to them.
  \<^item> \<open>SharedMemoryTrial\<close>, \<open>RequestResponse\<close>, \<open>MessageQueueTrial\<close>: the trials \<open>shared_memory\<close>, which a
    simulation reduces to \<open>SharedIpc\<close>, \<open>dns\<close> and \<open>posix_mq\<close> of \<open>exploration\<close>.

  \<^bold>\<open>State and operations.\<close>  A C struct is a record with the fields of the source, and where other
  processes read it also its bytes (\<open>_struct\<close> lists the fields, from which offsets are computed).  A
  function of the source is a definition of the same name, with a prefix when several tasks have a
  function of that name (\<open>Station_receive\<close>).  An operation that can fail returns \<open>Inl\<close> with the fault;
  \<open>None\<close> of an option around it means that the task waits for a message it does not have, or, for a
  partial function, that a loop does not end.  Operations under the queue lock are one step; the body
  without the lock is the definition with the suffix \<open>_body\<close>.  Calls into the operating system (what
  \<open>shm_open\<close>, \<open>mmap\<close>, \<open>malloc\<close>, \<open>random\<close>, \<open>read\<close>, \<open>nn_recv\<close> return, \<open>qsort\<close>, the clock) are arguments.

  \<^bold>\<open>Bounds.\<close>  Loops of the source recurse on what the source counts, or are partial functions whose
  termination is a theorem (\<open>pipe_server_returns_iff\<close>, \<open>nano_server_outcome\<close>).  The rejection loop of
  \<open>random_at_most\<close> runs over the list of the values \<open>random\<close> returns, and ends at the first one that fits.
  The service loops, which the source never leaves, run for a number of rounds that is an argument
  (\<open>Database_loop\<close>, \<open>Client_loop\<close>) or for a list that says which messages arrive before each round
  (\<open>Station_loop\<close>), and their theorems hold for every number or list; running out of rounds
  (\<open>Finished\<close>) is told apart from waiting for a message (\<open>Waiting\<close>).  Integers keep their width;
  theorems state the ranges within which no overflow happens.

  \<^bold>\<open>Not modelled.\<close>  Text on the screen; the measurement of time; the start of processes, and of threads
  outside \<open>pthread_inproc.c\<close>.  The vendored \<open>nanomsg\<close> library is third-party code, and what its calls return is
  an argument.  The scripts, the Java and the Python programs are in other languages.  Of the drivers
  under \<open>TaskSystem/test\<close>, \<open>samplesort_test.c\<close> is modelled up to its wait and \<open>circular_msgq_test.c\<close> without its
  middle part, which works on a message it has freed; the others up to their wait for the task.  The
  processes of the database service are started one after the other before their tasks run.  The trials
  \<open>timer\<close> and \<open>pthreads\<close> time an empty loop and start one thread; the copies of \<open>list.c\<close> under \<open>exploration\<close> are \<open>common/list.c\<close>.
\<close>

end
